(* ===== verification/Prelude.thy ===== *)
theory Prelude
  imports Main "HOL-Library.Word" "HOL-Library.Multiset"
begin

text \<open>
  Shared vocabulary of the development: the failure values that stand for
  \<^verbatim>\<open>assert\<close>, \<^verbatim>\<open>fatal\<close> and \<^verbatim>\<open>panic\<close> of the C++ sources, the sequencing operator for
  operations that may fail, simulated time (ticks and the one-shot events of
  \<^verbatim>\<open>src/gem5/src/sim/eventq_impl.hh\<close>), and generic facts on lists, counting and
  words that the component theories use.
\<close>

section \<open>Failures\<close>

text \<open>
  A failed assertion, a \<^verbatim>\<open>fatal\<close> and a \<^verbatim>\<open>panic\<close> all stop the simulator; an access
  out of the bounds of an array or a list is undefined in C++ and is a failure too. Every
  operation that can reach one of them returns a value of type \<open>'a res\<close>: \<open>Inl\<close>
  of the failure, or \<open>Inr\<close> of its result.
\<close>

datatype fail = AssertFail string | FatalError string | PanicError string | Undefined string

type_synonym 'a res = "fail + 'a"

named_theorems res_simps \<open>rewriting of fallible operations\<close>
named_theorems frame_simps \<open>fields an operation leaves alone\<close>

definition bindE :: "'a res \<Rightarrow> ('a \<Rightarrow> 'b res) \<Rightarrow> 'b res" where
  "bindE m f = (case m of Inl e \<Rightarrow> Inl e | Inr x \<Rightarrow> f x)"

definition assertE :: "string \<Rightarrow> bool \<Rightarrow> 'a res \<Rightarrow> 'a res" where
  "assertE msg P k = (if P then k else Inl (AssertFail msg))"

lemma bindE_simps [simp, res_simps]:
  "bindE (Inl e) f = Inl e"
  "bindE (Inr x) f = f x"
  by (simp_all add: bindE_def)

lemma bindE_eq_Inr [res_simps]:
  "bindE m f = Inr y \<longleftrightarrow> (\<exists>x. m = Inr x \<and> f x = Inr y)"
  by (cases m) auto

lemma bindE_eq_Inl [res_simps]:
  "bindE m f = Inl e \<longleftrightarrow> m = Inl e \<or> (\<exists>x. m = Inr x \<and> f x = Inl e)"
  by (cases m) auto

lemma bindE_assoc: "bindE (bindE m f) g = bindE m (\<lambda>x. bindE (f x) g)"
  by (cases m) auto

lemma assertE_True [simp, res_simps]: "assertE msg True k = k"
  by (simp add: assertE_def)

lemma assertE_False [simp, res_simps]: "assertE msg False k = Inl (AssertFail msg)"
  by (simp add: assertE_def)

lemma assertE_holds [res_simps]: "P \<Longrightarrow> assertE msg P k = k"
  by (simp add: assertE_def)

lemma assertE_eq_Inr [res_simps]: "assertE msg P k = Inr x \<longleftrightarrow> P \<and> k = Inr x"
  by (simp add: assertE_def)

lemma assertE_eq_Inl [res_simps]:
  "assertE msg P k = Inl e \<longleftrightarrow> (if P then k = Inl e else e = AssertFail msg)"
  by (auto simp: assertE_def)

definition succeeds :: "'a res \<Rightarrow> bool" where
  "succeeds m = (case m of Inl _ \<Rightarrow> False | Inr _ \<Rightarrow> True)"

lemma succeeds_simps [simp]: "succeeds (Inr x)" "\<not> succeeds (Inl e)"
  by (simp_all add: succeeds_def)

lemma succeeds_iff: "succeeds m \<longleftrightarrow> (\<exists>x. m = Inr x)"
  by (cases m) auto

section \<open>Machine integers\<close>

type_synonym u8 = "8 word"
type_synonym u16 = "16 word"
type_synonym u32 = "32 word"
type_synonym u64 = "64 word"
type_synonym addr = "64 word"

lemma unat_ucast_down32: "unat (ucast (x :: u64) :: u32) = unat x mod 2 ^ 32"
  by (simp add: unsigned_ucast_eq take_bit_eq_mod)

lemma unat_ucast_up64 [simp]: "unat (ucast (x :: u32) :: u64) = unat x"
  by (simp add: unsigned_ucast_eq take_bit_nat_eq_self_iff order_less_trans [OF unsigned_less])

lemma unat_u32_less: "unat (x :: u32) < 4294967296"
  using unsigned_less [of x, where 'a = nat] by simp

lemma unat_u64_less: "unat (x :: u64) < 18446744073709551616"
  using unsigned_less [of x, where 'a = nat] by simp

section \<open>Simulated time and events\<close>

text \<open>
  \<^verbatim>\<open>Tick\<close> is an unsigned 64-bit count. Ticks are natural numbers here: additions
  never wrap in a run shorter than \<^term>\<open>(2::nat) ^ 64\<close> ticks. Subtractions can
  go below zero at any time, so they are written with \<open>tsub\<close>, which wraps
  exactly as the unsigned subtraction of the source does.
\<close>

type_synonym tick = nat

definition MaxTick :: tick where
  "MaxTick = 2 ^ 64 - 1"

definition tsub :: "tick \<Rightarrow> tick \<Rightarrow> tick" where
  "tsub a b = (if b \<le> a then a - b else a + 2 ^ 64 - b)"

lemma tsub_le: "b \<le> a \<Longrightarrow> tsub a b = a - b"
  by (simp add: tsub_def)

lemma tsub_less: "a < b \<Longrightarrow> tsub a b = a + 2 ^ 64 - b"
  by (simp add: tsub_def)

lemma tsub_self [simp]: "tsub a a = 0"
  by (simp add: tsub_def)

lemma tsub_is_word_minus:
  assumes "a < 2 ^ 64" and "b < 2 ^ 64"
  shows "tsub a b = unat (word_of_nat a - word_of_nat b :: u64)"
proof -
  have "unat (word_of_nat a :: u64) = a" and "unat (word_of_nat b :: u64) = b"
    using assms by (simp_all add: unat_of_nat)
  then show ?thesis
    using assms by (simp add: tsub_def unat_sub_if' )
qed

text \<open>
  An event is the tick it is scheduled for, or \<open>None\<close> when it is not scheduled.
\<close>

type_synonym event = "tick option"

definition scheduled :: "event \<Rightarrow> bool" where
  "scheduled e = (e \<noteq> None)"

definition ev_schedule :: "tick \<Rightarrow> event \<Rightarrow> tick \<Rightarrow> event res" where
  "ev_schedule now e when =
     assertE ''when >= getCurTick()'' (now \<le> when)
       (assertE ''!event->scheduled()'' (\<not> scheduled e) (Inr (Some when)))"

definition ev_deschedule :: "event \<Rightarrow> event res" where
  "ev_deschedule e = assertE ''event->scheduled()'' (scheduled e) (Inr None)"

definition ev_reschedule :: "tick \<Rightarrow> event \<Rightarrow> tick \<Rightarrow> bool \<Rightarrow> event res" where
  "ev_reschedule now e when always =
     assertE ''when >= getCurTick()'' (now \<le> when)
       (assertE ''always || event->scheduled()'' (always \<or> scheduled e) (Inr (Some when)))"

lemma scheduled_simps [simp]: "\<not> scheduled None" "scheduled (Some t)"
  by (simp_all add: scheduled_def)

lemma ev_schedule_ok [res_simps]:
  "now \<le> when \<Longrightarrow> ev_schedule now None when = Inr (Some when)"
  by (simp add: ev_schedule_def)

lemma ev_schedule_eq_Inr [res_simps]:
  "ev_schedule now e when = Inr e' \<longleftrightarrow> now \<le> when \<and> e = None \<and> e' = Some when"
  by (auto simp: ev_schedule_def scheduled_def res_simps)

lemma ev_reschedule_eq_Inr [res_simps]:
  "ev_reschedule now e when al = Inr e' \<longleftrightarrow>
     now \<le> when \<and> (al \<or> e \<noteq> None) \<and> e' = Some when"
  by (auto simp: ev_reschedule_def scheduled_def res_simps)

text \<open>The states of \<^verbatim>\<open>Drainable\<close> objects, \<^verbatim>\<open>src/gem5/src/sim/drain.hh\<close>.\<close>

datatype drain_state = Running | Draining | Drained

section \<open>Lists\<close>

text \<open>
  Moving the element at a position to the front of a queue, as
  \<^verbatim>\<open>queue.erase(it); queue.push_front(p)\<close> does.
\<close>

definition move_front :: "nat \<Rightarrow> 'a list \<Rightarrow> 'a list" where
  "move_front i xs = xs ! i # take i xs @ drop (Suc i) xs"

lemma mset_move_front [simp]: "i < length xs \<Longrightarrow> mset (move_front i xs) = mset xs"
proof -
  assume "i < length xs"
  then have "xs = take i xs @ xs ! i # drop (Suc i) xs" by (rule id_take_nth_drop)
  then have "mset xs = mset (take i xs @ xs ! i # drop (Suc i) xs)" by simp
  then show ?thesis by (simp add: move_front_def)
qed

lemma length_move_front [simp]: "i < length xs \<Longrightarrow> length (move_front i xs) = length xs"
  by (metis mset_move_front size_mset)

lemma set_move_front [simp]: "i < length xs \<Longrightarrow> set (move_front i xs) = set xs"
  by (metis mset_move_front set_mset_mset)

lemma hd_move_front [simp]: "hd (move_front i xs) = xs ! i"
  by (simp add: move_front_def)

lemma move_front_neq_Nil [simp]: "move_front i xs \<noteq> []"
  by (simp add: move_front_def)

lemma move_front_0: "xs \<noteq> [] \<Longrightarrow> move_front 0 xs = xs"
  by (cases xs) (simp_all add: move_front_def)

text \<open>The number of elements that satisfy a predicate, under single updates.\<close>

definition count_if :: "('a \<Rightarrow> bool) \<Rightarrow> 'a list \<Rightarrow> nat" where
  "count_if P xs = length (filter P xs)"

lemma count_if_simps [simp]:
  "count_if P [] = 0"
  "count_if P (x # xs) = (if P x then 1 else 0) + count_if P xs"
  "count_if P (xs @ ys) = count_if P xs + count_if P ys"
  by (simp_all add: count_if_def)

lemma count_if_le_length: "count_if P xs \<le> length xs"
  by (simp add: count_if_def)

lemma count_if_pos: "0 < count_if P xs \<longleftrightarrow> (\<exists>x \<in> set xs. P x)"
  by (induction xs) auto

lemma count_if_nth_pos: "i < length xs \<Longrightarrow> P (xs ! i) \<Longrightarrow> 0 < count_if P xs"
  by (auto simp: count_if_pos)

lemma count_if_update:
  assumes "i < length xs"
  shows "count_if P (xs[i := y]) + (if P (xs ! i) then 1 else 0) =
         count_if P xs + (if P y then 1 else 0)"
  using assms
proof (induction xs arbitrary: i)
  case Nil
  then show ?case by simp
next
  case (Cons x xs)
  then show ?case by (cases i) auto
qed

lemma count_if_update_same:
  assumes "i < length xs" and "P y = P (xs ! i)"
  shows "count_if P (xs[i := y]) = count_if P xs"
  using count_if_update [OF assms(1), of P y] assms(2) by (auto split: if_splits)

lemma count_if_less_length:
  assumes "i < length xs" and "\<not> P (xs ! i)"
  shows "count_if P xs < length xs"
proof -
  have "xs ! i \<in> set xs" using assms(1) by simp
  then have "length (filter P xs) < length xs" using assms(2) by (rule length_filter_less)
  then show ?thesis by (simp add: count_if_def)
qed

lemma count_if_map: "count_if P (map f xs) = count_if (\<lambda>x. P (f x)) xs"
  by (induction xs) auto

lemma count_if_cong:
  "(\<And>x. x \<in> set xs \<Longrightarrow> P x = Q x) \<Longrightarrow> count_if P xs = count_if Q xs"
  by (induction xs) auto

lemma count_if_replicate [simp]: "count_if P (replicate n x) = (if P x then n else 0)"
  by (induction n) auto

lemma sorted_wrt_snoc:
  "sorted_wrt R (xs @ [x]) \<longleftrightarrow> sorted_wrt R xs \<and> (\<forall>y \<in> set xs. R y x)"
  by (simp add: sorted_wrt_append)

section \<open>Stable insertion by time\<close>

text \<open>
  The reference for the lists of the sources that are kept in the order of a ready time: the new
  element goes behind all elements that are not later.
\<close>

definition insert_stable :: "('a \<Rightarrow> tick) \<Rightarrow> 'a \<Rightarrow> 'a list \<Rightarrow> 'a list" where
  "insert_stable rt i js =
     takeWhile (\<lambda>j. rt j \<le> rt i) js @ i # dropWhile (\<lambda>j. rt j \<le> rt i) js"

lemma mset_insert_stable [simp]: "mset (insert_stable rt i js) = add_mset i (mset js)"
  by (simp add: insert_stable_def) (metis mset_append takeWhile_dropWhile_id)

lemma set_insert_stable [simp]: "set (insert_stable rt i js) = insert i (set js)"
  by (metis mset_insert_stable set_mset_add_mset_insert set_mset_mset)

lemma length_insert_stable [simp]: "length (insert_stable rt i js) = Suc (length js)"
  by (metis mset_insert_stable size_add_mset size_mset)

lemma distinct_insert_stable [simp]:
  "distinct (insert_stable rt i js) \<longleftrightarrow> i \<notin> set js \<and> distinct js"
  by (metis distinct.simps(2) mset.simps(2) mset_eq_imp_distinct_iff mset_insert_stable)

lemma sorted_insert_stable:
  assumes "sorted (map rt js)"
  shows "sorted (map rt (insert_stable rt i js))"
  using assms
proof (induction js)
  case Nil
  then show ?case by (simp add: insert_stable_def)
next
  case (Cons j js)
  show ?case
  proof (cases "rt j \<le> rt i")
    case True
    then show ?thesis
      using Cons by (auto simp: insert_stable_def dest: set_takeWhileD set_dropWhileD)
  next
    case False
    then show ?thesis using Cons.prems by (auto simp: insert_stable_def)
  qed
qed

lemma insert_stable_last:
  "\<forall>j \<in> set js. rt j \<le> rt i \<Longrightarrow> insert_stable rt i js = js @ [i]"
  by (simp add: insert_stable_def takeWhile_eq_all_conv [THEN iffD2] dropWhile_eq_Nil_conv [THEN iffD2])

lemma sorted_last_max:
  assumes "sorted (map rt js)" and "j \<in> set js"
  shows "rt j \<le> rt (last js)"
  using assms by (induction js) (auto split: if_splits)

end
