(* ===== verification/Packet.thy ===== *)
theory Packet
  imports Prelude
begin

text \<open>
  Memory commands and packets: \<^verbatim>\<open>src/gem5/src/mem/packet.hh\<close> and the attribute
  table of \<^verbatim>\<open>src/gem5/src/mem/packet.cc\<close>. A packet carries a value \<open>pkt_id\<close> that
  stands for its address in the simulator's heap, so that pointer comparisons of
  the source are comparisons of \<open>pkt_id\<close>. The flag word is split into its bits;
  the two bits that say that the address and the size are valid are set by every
  constructor used here and are left out. A packet without a data buffer has
  \<open>pdata = None\<close>; a buffer is a list of bytes that belongs to its packet, so that two
  packets sharing one static buffer are two copies of it here.
\<close>

section \<open>Commands\<close>

datatype command =
    InvalidCmd
  | ReadReq
  | ReadResp
  | ReadRespWithInvalidate
  | WriteReq
  | WriteResp
  | Writeback
  | CleanEvict
  | SoftPFReq
  | HardPFReq
  | SoftPFResp
  | HardPFResp
  | WriteLineReq
  | UpgradeReq
  | SCUpgradeReq
  | UpgradeResp
  | SCUpgradeFailReq
  | UpgradeFailResp
  | ReadExReq
  | ReadExResp
  | ReadCleanReq
  | ReadSharedReq
  | LoadLockedReq
  | StoreCondReq
  | StoreCondFailReq
  | StoreCondResp
  | SwapReq
  | SwapResp
  | MessageReq
  | MessageResp
  | ReleaseReq
  | ReleaseResp
  | AcquireReq
  | AcquireResp
  | InvalidDestError
  | BadAddressError
  | FunctionalReadError
  | FunctionalWriteError
  | PrintReq
  | FlushReq
  | FlushResp
  | InvalidateReq
  | InvalidateResp
  | FlushAllReq
  | FlushAllResp
  | FenceReq
  | FenceResp

datatype attribute =
    IsRead | IsWrite | IsUpgrade | IsInvalidate | NeedsExclusive | IsRequest | IsResponse
  | NeedsResponse | IsSWPrefetch | IsHWPrefetch | IsLlsc | HasData | IsError | IsPrint | IsFlush

record command_info =
  attributes :: "attribute list"
  response :: command
  str :: string

fun commandInfo :: "command \<Rightarrow> command_info" where
  "commandInfo InvalidCmd = \<lparr>attributes = [], response = InvalidCmd, str = ''InvalidCmd''\<rparr>"
| "commandInfo ReadReq = \<lparr>attributes = [IsRead, IsRequest, NeedsResponse], response = ReadResp, str = ''ReadReq''\<rparr>"
| "commandInfo ReadResp = \<lparr>attributes = [IsRead, IsResponse, HasData], response = InvalidCmd, str = ''ReadResp''\<rparr>"
| "commandInfo ReadRespWithInvalidate = \<lparr>attributes = [IsRead, IsResponse, HasData, IsInvalidate], response = InvalidCmd, str = ''ReadRespWithInvalidate''\<rparr>"
| "commandInfo WriteReq = \<lparr>attributes = [IsWrite, NeedsExclusive, IsRequest, NeedsResponse, HasData], response = WriteResp, str = ''WriteReq''\<rparr>"
| "commandInfo WriteResp = \<lparr>attributes = [IsWrite, NeedsExclusive, IsResponse], response = InvalidCmd, str = ''WriteResp''\<rparr>"
| "commandInfo Writeback = \<lparr>attributes = [IsWrite, NeedsExclusive, IsRequest, HasData], response = InvalidCmd, str = ''Writeback''\<rparr>"
| "commandInfo CleanEvict = \<lparr>attributes = [IsWrite, IsRequest], response = InvalidCmd, str = ''CleanEvict''\<rparr>"
| "commandInfo SoftPFReq = \<lparr>attributes = [IsRead, IsRequest, IsSWPrefetch, NeedsResponse], response = SoftPFResp, str = ''SoftPFReq''\<rparr>"
| "commandInfo HardPFReq = \<lparr>attributes = [IsRead, IsRequest, IsHWPrefetch, NeedsResponse], response = HardPFResp, str = ''HardPFReq''\<rparr>"
| "commandInfo SoftPFResp = \<lparr>attributes = [IsRead, IsResponse, IsSWPrefetch, HasData], response = InvalidCmd, str = ''SoftPFResp''\<rparr>"
| "commandInfo HardPFResp = \<lparr>attributes = [IsRead, IsResponse, IsHWPrefetch, HasData], response = InvalidCmd, str = ''HardPFResp''\<rparr>"
| "commandInfo WriteLineReq = \<lparr>attributes = [IsWrite, NeedsExclusive, IsRequest, NeedsResponse, HasData], response = WriteResp, str = ''WriteLineReq''\<rparr>"
| "commandInfo UpgradeReq = \<lparr>attributes = [IsInvalidate, NeedsExclusive, IsUpgrade, IsRequest, NeedsResponse], response = UpgradeResp, str = ''UpgradeReq''\<rparr>"
| "commandInfo SCUpgradeReq = \<lparr>attributes = [IsInvalidate, NeedsExclusive, IsUpgrade, IsLlsc, IsRequest, NeedsResponse], response = UpgradeResp, str = ''SCUpgradeReq''\<rparr>"
| "commandInfo UpgradeResp = \<lparr>attributes = [NeedsExclusive, IsUpgrade, IsResponse], response = InvalidCmd, str = ''UpgradeResp''\<rparr>"
| "commandInfo SCUpgradeFailReq = \<lparr>attributes = [IsRead, NeedsExclusive, IsInvalidate, IsLlsc, IsRequest, NeedsResponse], response = UpgradeFailResp, str = ''SCUpgradeFailReq''\<rparr>"
| "commandInfo UpgradeFailResp = \<lparr>attributes = [IsRead, NeedsExclusive, IsResponse, HasData], response = InvalidCmd, str = ''UpgradeFailResp''\<rparr>"
| "commandInfo ReadExReq = \<lparr>attributes = [IsRead, NeedsExclusive, IsInvalidate, IsRequest, NeedsResponse], response = ReadExResp, str = ''ReadExReq''\<rparr>"
| "commandInfo ReadExResp = \<lparr>attributes = [IsRead, NeedsExclusive, IsResponse, HasData], response = InvalidCmd, str = ''ReadExResp''\<rparr>"
| "commandInfo ReadCleanReq = \<lparr>attributes = [IsRead, IsRequest, NeedsResponse], response = ReadResp, str = ''ReadCleanReq''\<rparr>"
| "commandInfo ReadSharedReq = \<lparr>attributes = [IsRead, IsRequest, NeedsResponse], response = ReadResp, str = ''ReadSharedReq''\<rparr>"
| "commandInfo LoadLockedReq = \<lparr>attributes = [IsRead, IsLlsc, IsRequest, NeedsResponse], response = ReadResp, str = ''LoadLockedReq''\<rparr>"
| "commandInfo StoreCondReq = \<lparr>attributes = [IsWrite, NeedsExclusive, IsLlsc, IsRequest, NeedsResponse, HasData], response = StoreCondResp, str = ''StoreCondReq''\<rparr>"
| "commandInfo StoreCondFailReq = \<lparr>attributes = [IsWrite, NeedsExclusive, IsLlsc, IsRequest, NeedsResponse, HasData], response = StoreCondResp, str = ''StoreCondFailReq''\<rparr>"
| "commandInfo StoreCondResp = \<lparr>attributes = [IsWrite, NeedsExclusive, IsLlsc, IsResponse], response = InvalidCmd, str = ''StoreCondResp''\<rparr>"
| "commandInfo SwapReq = \<lparr>attributes = [IsRead, IsWrite, NeedsExclusive, IsRequest, HasData, NeedsResponse], response = SwapResp, str = ''SwapReq''\<rparr>"
| "commandInfo SwapResp = \<lparr>attributes = [IsRead, IsWrite, NeedsExclusive, IsResponse, HasData], response = InvalidCmd, str = ''SwapResp''\<rparr>"
| "commandInfo MessageReq = \<lparr>attributes = [IsWrite, IsRequest, NeedsResponse, HasData], response = MessageResp, str = ''MessageReq''\<rparr>"
| "commandInfo MessageResp = \<lparr>attributes = [IsWrite, IsResponse], response = InvalidCmd, str = ''MessageResp''\<rparr>"
| "commandInfo ReleaseReq = \<lparr>attributes = [IsRequest, NeedsResponse], response = ReleaseResp, str = ''ReleaseReq''\<rparr>"
| "commandInfo ReleaseResp = \<lparr>attributes = [IsResponse], response = InvalidCmd, str = ''ReleaseResp''\<rparr>"
| "commandInfo AcquireReq = \<lparr>attributes = [IsRequest, NeedsResponse], response = AcquireResp, str = ''AcquireReq''\<rparr>"
| "commandInfo AcquireResp = \<lparr>attributes = [IsResponse, NeedsResponse], response = InvalidCmd, str = ''AcquireResp''\<rparr>"
| "commandInfo InvalidDestError = \<lparr>attributes = [IsResponse, IsError], response = InvalidCmd, str = ''InvalidDestError''\<rparr>"
| "commandInfo BadAddressError = \<lparr>attributes = [IsResponse, IsError], response = InvalidCmd, str = ''BadAddressError''\<rparr>"
| "commandInfo FunctionalReadError = \<lparr>attributes = [IsRead, IsResponse, IsError], response = InvalidCmd, str = ''FunctionalReadError''\<rparr>"
| "commandInfo FunctionalWriteError = \<lparr>attributes = [IsWrite, IsResponse, IsError], response = InvalidCmd, str = ''FunctionalWriteError''\<rparr>"
| "commandInfo PrintReq = \<lparr>attributes = [IsRequest, IsPrint], response = InvalidCmd, str = ''PrintReq''\<rparr>"
| "commandInfo FlushReq = \<lparr>attributes = [IsRequest, IsFlush, NeedsExclusive, NeedsResponse], response = FlushResp, str = ''FlushReq''\<rparr>"
| "commandInfo FlushResp = \<lparr>attributes = [IsResponse, IsFlush, NeedsExclusive], response = InvalidCmd, str = ''FlushResp''\<rparr>"
| "commandInfo InvalidateReq = \<lparr>attributes = [IsInvalidate, IsRequest, NeedsExclusive, NeedsResponse], response = InvalidateResp, str = ''InvalidateReq''\<rparr>"
| "commandInfo InvalidateResp = \<lparr>attributes = [IsInvalidate, IsResponse, NeedsExclusive], response = InvalidCmd, str = ''InvalidateResp''\<rparr>"
| "commandInfo FlushAllReq = \<lparr>attributes = [IsRequest, NeedsResponse, IsFlush, IsInvalidate], response = FlushAllResp, str = ''FlushAllReq''\<rparr>"
| "commandInfo FlushAllResp = \<lparr>attributes = [IsResponse, IsFlush, IsInvalidate], response = InvalidCmd, str = ''FlushAllResp''\<rparr>"
| "commandInfo FenceReq = \<lparr>attributes = [IsRequest, NeedsResponse], response = FenceResp, str = ''FenceReq''\<rparr>"
| "commandInfo FenceResp = \<lparr>attributes = [IsResponse], response = InvalidCmd, str = ''FenceResp''\<rparr>"

definition testCmdAttrib :: "command \<Rightarrow> attribute \<Rightarrow> bool" where
  "testCmdAttrib c a = List.member (attributes (commandInfo c)) a"

definition responseCommand :: "command \<Rightarrow> command" where
  "responseCommand c = response (commandInfo c)"

abbreviation cmd_isRead :: "command \<Rightarrow> bool" where "cmd_isRead c \<equiv> testCmdAttrib c IsRead"
abbreviation cmd_isWrite :: "command \<Rightarrow> bool" where "cmd_isWrite c \<equiv> testCmdAttrib c IsWrite"
abbreviation cmd_isRequest :: "command \<Rightarrow> bool" where "cmd_isRequest c \<equiv> testCmdAttrib c IsRequest"
abbreviation cmd_isResponse :: "command \<Rightarrow> bool" where "cmd_isResponse c \<equiv> testCmdAttrib c IsResponse"
abbreviation cmd_needsResponse :: "command \<Rightarrow> bool" where
  "cmd_needsResponse c \<equiv> testCmdAttrib c NeedsResponse"

lemmas cmd_defs = testCmdAttrib_def responseCommand_def

text \<open>
  The attribute table is closed under turning a request into its response: facts
  about all commands are proved by going through the table once.
\<close>

lemma response_is_response:
  "cmd_isRequest c \<Longrightarrow> cmd_needsResponse c \<Longrightarrow>
     cmd_isResponse (responseCommand c) \<and> \<not> cmd_isRequest (responseCommand c)"
  by (cases c) (simp_all add: cmd_defs)

lemma response_keeps_direction:
  "cmd_isRequest c \<Longrightarrow> cmd_needsResponse c \<Longrightarrow>
     cmd_isRead (responseCommand c) = cmd_isRead c \<and>
     cmd_isWrite (responseCommand c) = cmd_isWrite c"
  by (cases c) (simp_all add: cmd_defs)

lemma read_response_has_data:
  "cmd_isRequest c \<Longrightarrow> cmd_needsResponse c \<Longrightarrow> cmd_isRead c \<Longrightarrow>
     testCmdAttrib (responseCommand c) HasData"
  by (cases c) (simp_all add: cmd_defs)

lemma not_request_and_response: "\<not> (cmd_isRequest c \<and> cmd_isResponse c)"
  by (cases c) (simp_all add: cmd_defs)

lemma no_response_is_InvalidCmd:
  "cmd_isRequest c \<Longrightarrow> \<not> cmd_needsResponse c \<Longrightarrow> responseCommand c = InvalidCmd"
  by (cases c) (simp_all add: cmd_defs)

section \<open>Requests and packets\<close>

record request =
  req_paddr :: addr
  req_size :: nat
  req_context :: "nat option"
  req_secure :: bool
  req_uncacheable :: bool
  req_llsc :: bool
  req_prefetch :: bool
  req_swap :: bool
  req_condswap :: bool
  req_extraData :: u64

text \<open>A request for a physical address, with no flags; the context is set by \<^verbatim>\<open>setThreadContext\<close>.\<close>

definition setPhys :: "addr \<Rightarrow> nat \<Rightarrow> nat option \<Rightarrow> request" where
  "setPhys paddr sz cid =
     \<lparr>req_paddr = paddr, req_size = sz, req_context = cid, req_secure = False, req_uncacheable = False,
      req_llsc = False, req_prefetch = False, req_swap = False, req_condswap = False, req_extraData = 0\<rparr>"

datatype sender_state = MSHRRef nat nat | OtherSender nat

record packet =
  pkt_id :: nat
  cmd :: command
  req :: request
  pdata :: "u8 list option"
  pkt_addr :: addr
  pkt_secure :: bool
  pkt_size :: nat
  bytesValid :: "bool list"
  headerDelay :: nat
  payloadDelay :: nat
  senderState :: "sender_state list"
  flag_shared :: bool
  flag_expressSnoop :: bool
  flag_supplyExclusive :: bool
  flag_memInhibit :: bool
  flag_staticData :: bool

definition isRead :: "packet \<Rightarrow> bool" where "isRead p = testCmdAttrib (cmd p) IsRead"
definition isWrite :: "packet \<Rightarrow> bool" where "isWrite p = testCmdAttrib (cmd p) IsWrite"
definition isUpgrade :: "packet \<Rightarrow> bool" where "isUpgrade p = testCmdAttrib (cmd p) IsUpgrade"
definition isRequest :: "packet \<Rightarrow> bool" where "isRequest p = testCmdAttrib (cmd p) IsRequest"
definition isResponse :: "packet \<Rightarrow> bool" where "isResponse p = testCmdAttrib (cmd p) IsResponse"
definition needsExclusive :: "packet \<Rightarrow> bool" where
  "needsExclusive p = testCmdAttrib (cmd p) NeedsExclusive"
definition needsResponse :: "packet \<Rightarrow> bool" where
  "needsResponse p = testCmdAttrib (cmd p) NeedsResponse"
definition isInvalidate :: "packet \<Rightarrow> bool" where
  "isInvalidate p = testCmdAttrib (cmd p) IsInvalidate"
definition isLLSC :: "packet \<Rightarrow> bool" where "isLLSC p = testCmdAttrib (cmd p) IsLlsc"
definition isPrint :: "packet \<Rightarrow> bool" where "isPrint p = testCmdAttrib (cmd p) IsPrint"
definition hasData :: "packet \<Rightarrow> bool" where "hasData p = testCmdAttrib (cmd p) HasData"

lemmas pkt_attr_defs = isRead_def isWrite_def isUpgrade_def isRequest_def isResponse_def
  needsExclusive_def needsResponse_def isInvalidate_def isLLSC_def isPrint_def hasData_def

text \<open>\<^verbatim>\<open>findNextSenderState<MSHR>\<close>: the topmost miss register on the sender-state stack.\<close>

fun findNextMSHR :: "sender_state list \<Rightarrow> (nat \<times> nat) option" where
  "findNextMSHR [] = None"
| "findNextMSHR (MSHRRef q i # ss) = Some (q, i)"
| "findNextMSHR (OtherSender _ # ss) = findNextMSHR ss"

definition assertMemInhibit :: "packet \<Rightarrow> packet res" where
  "assertMemInhibit p =
     assertE ''isRequest()'' (isRequest p)
       (assertE ''!flags.isSet(MEM_INHIBIT)'' (\<not> flag_memInhibit p)
         (Inr (p\<lparr>flag_memInhibit := True\<rparr>)))"

text \<open>\<^verbatim>\<open>new Packet(req, cmd)\<close>, \<^verbatim>\<open>new Packet(req, cmd, blkSize)\<close> and the copying constructor.\<close>

definition new_packet :: "nat \<Rightarrow> request \<Rightarrow> command \<Rightarrow> packet" where
  "new_packet i r c =
     \<lparr>pkt_id = i, cmd = c, req = r, pdata = None, pkt_addr = req_paddr r,
      pkt_secure = req_secure r, pkt_size = req_size r, bytesValid = [],
      headerDelay = 0, payloadDelay = 0, senderState = [],
      flag_shared = False, flag_expressSnoop = False, flag_supplyExclusive = False,
      flag_memInhibit = False, flag_staticData = False\<rparr>"

definition new_packet_blk :: "nat \<Rightarrow> request \<Rightarrow> command \<Rightarrow> nat \<Rightarrow> packet" where
  "new_packet_blk i r c blkSize =
     (new_packet i r c)
       \<lparr>pkt_addr := and (req_paddr r) (not (word_of_nat blkSize - 1)), pkt_size := blkSize\<rparr>"

text \<open>
  \<^verbatim>\<open>allocate()\<close> gives a fresh buffer of the packet's size; its bytes are arbitrary in
  the source and zero here.
\<close>

definition allocate_data :: "packet \<Rightarrow> packet" where
  "allocate_data p = p\<lparr>pdata := Some (replicate (pkt_size p) 0)\<rparr>"

definition copy_packet :: "nat \<Rightarrow> packet \<Rightarrow> bool \<Rightarrow> bool \<Rightarrow> packet" where
  "copy_packet i p clear_flags alloc_data =
     (let p' = p\<lparr>pkt_id := i, pdata := None, flag_staticData := False,
                 flag_shared := \<not> clear_flags \<and> flag_shared p,
                 flag_expressSnoop := \<not> clear_flags \<and> flag_expressSnoop p,
                 flag_supplyExclusive := \<not> clear_flags \<and> flag_supplyExclusive p,
                 flag_memInhibit := \<not> clear_flags \<and> flag_memInhibit p\<rparr>
      in if alloc_data then
           (if flag_staticData p then p'\<lparr>pdata := pdata p, flag_staticData := True\<rparr>
            else allocate_data p')
         else p')"

definition makeReadCmd :: "request \<Rightarrow> command" where
  "makeReadCmd r = (if req_llsc r then LoadLockedReq
                    else if req_prefetch r then SoftPFReq else ReadReq)"

definition makeWriteCmd :: "request \<Rightarrow> command" where
  "makeWriteCmd r = (if req_llsc r then StoreCondReq
                     else if req_swap r then SwapReq else WriteReq)"

definition makeResponse :: "packet \<Rightarrow> packet res" where
  "makeResponse p =
     assertE ''needsResponse()'' (needsResponse p)
       (assertE ''isRequest()'' (isRequest p)
         (Inr (p\<lparr>cmd := responseCommand (cmd p), flag_expressSnoop := False\<rparr>)))"

lemma makeResponse_eq_Inr [res_simps]:
  "makeResponse p = Inr p' \<longleftrightarrow>
     needsResponse p \<and> isRequest p \<and>
     p' = p\<lparr>cmd := responseCommand (cmd p), flag_expressSnoop := False\<rparr>"
  by (auto simp: makeResponse_def res_simps)

lemma makeReadCmd_read: "cmd_isRead (makeReadCmd r) \<and> cmd_isRequest (makeReadCmd r)"
  by (simp add: makeReadCmd_def cmd_defs)

lemma makeWriteCmd_write: "cmd_isWrite (makeWriteCmd r) \<and> cmd_isRequest (makeWriteCmd r)"
  by (simp add: makeWriteCmd_def cmd_defs)

lemma copy_packet_frame [simp]:
  "cmd (copy_packet i p c a) = cmd p"
  "req (copy_packet i p c a) = req p"
  "pkt_addr (copy_packet i p c a) = pkt_addr p"
  "pkt_size (copy_packet i p c a) = pkt_size p"
  "pkt_secure (copy_packet i p c a) = pkt_secure p"
  "pkt_id (copy_packet i p c a) = i"
  by (simp_all add: copy_packet_def allocate_data_def Let_def)

section \<open>Functional accesses\<close>

text \<open>
  \<^verbatim>\<open>Packet::checkFunctional\<close>: a functional request is checked against a block of
  \<open>sz\<close> bytes at \<open>addr\<close> that some queue or buffer holds. The result is the request
  with its data and valid bytes, the block's bytes, and whether the request is
  satisfied.
\<close>

definition memcpy :: "u8 list \<Rightarrow> nat \<Rightarrow> u8 list \<Rightarrow> nat \<Rightarrow> nat \<Rightarrow> u8 list res" where
  "memcpy dst d src s n =
     (if d + n \<le> length dst \<and> s + n \<le> length src
      then Inr (take d dst @ take n (drop s src) @ drop (d + n) dst)
      else Inl (Undefined ''memcpy''))"

definition getPtr :: "packet \<Rightarrow> u8 list res" where
  "getPtr p = (case pdata p of None \<Rightarrow> Inl (AssertFail ''flags.isSet(STATIC_DATA|DYNAMIC_DATA)'')
                             | Some d \<Rightarrow> Inr d)"

definition set_range :: "nat \<Rightarrow> nat \<Rightarrow> bool list \<Rightarrow> bool list" where
  "set_range lo n bs = take lo bs @ replicate n True @ drop (lo + n) bs"

text \<open>
  The four kinds of partial overlap give the offset into the value, the offset into
  the request, and the number of bytes that are copied.
\<close>

definition overlap :: "u64 \<Rightarrow> u64 \<Rightarrow> u64 \<Rightarrow> u64 \<Rightarrow> nat \<Rightarrow> (nat \<times> nat \<times> nat) option" where
  "overlap func_start func_end val_start val_end sz =
     (if val_start < func_start \<and> val_end \<le> func_end then
        Some (unat (func_start - val_start), 0, unat (val_end - func_start))
      else if val_start \<ge> func_start \<and> val_end > func_end then
        Some (0, unat (val_start - func_start), unat (func_end - val_start))
      else if val_start \<ge> func_start \<and> val_end \<le> func_end then
        Some (0, unat (val_start - func_start), sz)
      else if val_start < func_start \<and> val_end > func_end then
        Some (unat (func_start - val_start), 0, unat (func_end - func_start))
      else None)"

definition checkFunctional ::
  "packet \<Rightarrow> addr \<Rightarrow> bool \<Rightarrow> nat \<Rightarrow> u8 list option \<Rightarrow> (packet \<times> u8 list option \<times> bool) res" where
  "checkFunctional p addr is_secure sz data =
     (let func_start = pkt_addr p;
          func_end = pkt_addr p + word_of_nat (pkt_size p) - 1;
          val_start = addr;
          val_end = val_start + word_of_nat sz - 1
      in
      if is_secure \<noteq> pkt_secure p \<or> func_start > val_end \<or> val_start > func_end then
        Inr (p, data, False)
      else if isPrint p then assertE ''!_data'' (data = None) (Inr (p, data, False))
      else case data of None \<Rightarrow> Inr (p, data, False)
      | Some d \<Rightarrow>
        if isRead p then
          if func_start \<ge> val_start \<and> func_end \<le> val_end then
            bindE (getPtr p) (\<lambda>buf.
            bindE (memcpy buf 0 d (unat (func_start - val_start)) (pkt_size p)) (\<lambda>buf'.
            Inr (p\<lparr>pdata := Some buf',
                   bytesValid := (if bytesValid p = [] then replicate (pkt_size p) True
                                  else bytesValid p)\<rparr>, data, True)))
          else
            (case overlap func_start func_end val_start val_end sz of
               None \<Rightarrow> Inl (PanicError ''Missed a case for checkFunctional'')
             | Some (val_offset, func_offset, overlap_size) \<Rightarrow>
                 bindE (getPtr p) (\<lambda>buf.
                 bindE (memcpy buf func_offset d val_offset overlap_size) (\<lambda>buf'.
                 let bv = (if bytesValid p = [] then replicate (pkt_size p) False else bytesValid p);
                     bv' = set_range func_offset overlap_size bv
                 in Inr (p\<lparr>pdata := Some buf', bytesValid := bv'\<rparr>, data,
                         list_all id (take func_offset bv) \<and>
                         list_all id (drop (func_offset + overlap_size) (take (pkt_size p) bv'))))))
        else if isWrite p then
          bindE (getPtr p) (\<lambda>buf.
          if func_start \<ge> val_start then
            bindE (memcpy d (unat (func_start - val_start)) buf 0
                     (unat (min func_end val_end - func_start + 1)))
              (\<lambda>d'. Inr (p, Some d', False))
          else
            bindE (memcpy d 0 buf (unat (val_start - func_start))
                     (unat (min func_end val_end - val_start + 1)))
              (\<lambda>d'. Inr (p, Some d', False)))
        else Inl (PanicError ''Don't know how to handle command''))"

text \<open>The check against another packet; a functional write changes the data of that packet.\<close>

definition checkFunctional_pkt :: "packet \<Rightarrow> packet \<Rightarrow> (packet \<times> packet \<times> bool) res" where
  "checkFunctional_pkt p other =
     bindE (if hasData other then bindE (getPtr other) (\<lambda>d. Inr (Some d)) else Inr None) (\<lambda>d.
     bindE (checkFunctional p (pkt_addr other) (pkt_secure other) (pkt_size other) d)
       (\<lambda>(p', d', b). Inr (p', (if hasData other then other\<lparr>pdata := d'\<rparr> else other), b)))"

text \<open>
  Byte ranges that do not wrap around the address space and whose size fits the
  \<^verbatim>\<open>int\<close> of the source.
\<close>

definition no_wrap :: "addr \<Rightarrow> nat \<Rightarrow> bool" where
  "no_wrap a n \<longleftrightarrow> 0 < n \<and> n < 2 ^ 31 \<and> unat a + n \<le> 2 ^ 64"

lemma unat_range_end:
  assumes "no_wrap a n"
  shows "unat (a + word_of_nat n - 1) = unat a + n - 1"
proof -
  obtain m where m: "n = Suc m" using assms by (cases n) (auto simp: no_wrap_def)
  have lt: "unat a + m < 2 ^ 64" using assms m by (simp add: no_wrap_def)
  have um: "unat (word_of_nat m :: u64) = m" using lt by (subst unat_of_nat) simp
  have "unat (a + word_of_nat m) = unat a + m" using lt um by (simp add: unat_plus_if')
  then show ?thesis by (simp add: m)
qed

lemma unat_minus_le: "(b :: u64) \<le> a \<Longrightarrow> unat (a - b) = unat a - unat b"
  by (simp add: unat_sub)

lemma unat_span:
  assumes "(b :: u64) \<le> e" and "unat e - unat b < 2 ^ 31"
  shows "unat (e - b + 1) = Suc (unat e - unat b)"
proof -
  have "unat (e - b) = unat e - unat b" using assms(1) by (rule unat_minus_le)
  then show ?thesis using assms(2) by (simp add: unat_plus_if')
qed

lemma length_memcpy: "memcpy dst d src s n = Inr r \<Longrightarrow> length r = length dst"
  by (auto simp: memcpy_def split: if_splits)

lemma memcpy_defined:
  "d + n \<le> length dst \<Longrightarrow> s + n \<le> length src \<Longrightarrow> \<exists>r. memcpy dst d src s n = Inr r"
  by (simp add: memcpy_def)

lemma nth_memcpy:
  assumes "memcpy dst d src s n = Inr r" and "i < length dst"
  shows "r ! i = (if d \<le> i \<and> i < d + n then src ! (s + (i - d)) else dst ! i)"
proof -
  have l: "length (take n (drop s src)) = n" "d \<le> length dst"
    using assms(1) by (auto simp: memcpy_def split: if_splits)
  have "r = take d dst @ take n (drop s src) @ drop (d + n) dst"
    using assms(1) by (auto simp: memcpy_def split: if_splits)
  then show ?thesis
    using l assms by (auto simp: nth_append memcpy_def split: if_splits)
qed

text \<open>A functional read that lies within a buffered block is satisfied from the block: the packet gets exactly the bytes of its own range and the search stops.\<close>

lemma functional_read_covered:
  assumes "isRead p" "\<not> isPrint p" "pkt_secure p = sec" "pdata p = Some buf"
    and "length buf = pkt_size p" "length d = sz"
    and "no_wrap (pkt_addr p) (pkt_size p)" "no_wrap a sz"
    and "a \<le> pkt_addr p" "unat (pkt_addr p) + pkt_size p \<le> unat a + sz"
  shows "\<exists>p'. checkFunctional p a sec sz (Some d) = Inr (p', Some d, True) \<and>
              pdata p' = Some (take (pkt_size p) (drop (unat (pkt_addr p) - unat a) d))"
proof -
  let ?fe = "pkt_addr p + word_of_nat (pkt_size p) - 1" and ?ve = "a + word_of_nat sz - 1"
  have fe: "unat ?fe = unat (pkt_addr p) + pkt_size p - 1" using assms(7) by (rule unat_range_end)
  have ve: "unat ?ve = unat a + sz - 1" using assms(8) by (rule unat_range_end)
  have le: "unat a \<le> unat (pkt_addr p)" using assms(9) by (simp add: word_le_nat_alt)
  have pos: "0 < pkt_size p" "0 < sz" using assms(7,8) by (auto simp: no_wrap_def)
  have "\<not> pkt_addr p > ?ve" "\<not> a > ?fe" "pkt_addr p \<ge> a" "?fe \<le> ?ve"
    using fe ve le pos assms(9,10) by (auto simp: word_less_nat_alt word_le_nat_alt)
  moreover have "unat (pkt_addr p - a) = unat (pkt_addr p) - unat a"
    using assms(9) by (rule unat_minus_le)
  ultimately show ?thesis
    using assms le by (simp add: checkFunctional_def Let_def getPtr_def memcpy_def)
qed


text \<open>A functional write that overlaps a buffered block updates the block byte by byte: every byte inside the range of the write takes the value of the packet, every other byte is kept.\<close>

lemma functional_write_updates:
  assumes "isWrite p" "\<not> isRead p" "\<not> isPrint p" "pkt_secure p = sec" "pdata p = Some buf"
    and "length buf = pkt_size p" "length d = sz"
    and "no_wrap (pkt_addr p) (pkt_size p)" "no_wrap a sz"
    and "unat (pkt_addr p) < unat a + sz" "unat a < unat (pkt_addr p) + pkt_size p"
  shows "\<exists>d'. checkFunctional p a sec sz (Some d) = Inr (p, Some d', False) \<and>
              length d' = sz \<and>
              (\<forall>i < sz. d' ! i =
                 (if unat (pkt_addr p) \<le> unat a + i \<and> unat a + i < unat (pkt_addr p) + pkt_size p
                  then buf ! (unat a + i - unat (pkt_addr p)) else d ! i))"
proof -
  let ?f = "pkt_addr p" and ?n = "pkt_size p"
  let ?fe = "pkt_addr p + word_of_nat (pkt_size p) - 1" and ?ve = "a + word_of_nat sz - 1"
  have fe: "unat ?fe = unat ?f + ?n - 1" using assms(8) by (rule unat_range_end)
  have ve: "unat ?ve = unat a + sz - 1" using assms(9) by (rule unat_range_end)
  have pos: "0 < ?n" "0 < sz" using assms(8,9) by (auto simp: no_wrap_def)
  have nb: "\<not> ?f > ?ve" "\<not> a > ?fe"
    using fe ve pos assms(10,11) by (auto simp: word_less_nat_alt)
  let ?m = "min ?fe ?ve"
  have um: "unat ?m = min (unat ?f + ?n - 1) (unat a + sz - 1)"
    using fe ve by (auto simp: min_def word_le_nat_alt)
  have small: "?n < 2 ^ 31" "sz < 2 ^ 31" using assms(8,9) by (auto simp: no_wrap_def)
  show ?thesis
  proof (cases "a \<le> ?f")
    case True
    have off: "unat (?f - a) = unat ?f - unat a" using True by (rule unat_minus_le)
    have n: "unat (?m - ?f + 1) = Suc (unat ?m - unat ?f)"
      using um small pos assms(10) by (intro unat_span) (auto simp: word_le_nat_alt)
    have "unat (?f - a) + unat (?m - ?f + 1) \<le> length d" "0 + unat (?m - ?f + 1) \<le> length buf"
      using True pos assms(6,7,10,11) um by (simp_all add: n off word_le_nat_alt)
    then obtain d' where d': "memcpy d (unat (?f - a)) buf 0 (unat (?m - ?f + 1)) = Inr d'"
      using memcpy_defined by blast
    have nn: "unat (?m - ?f + 1) = min (unat ?f + ?n) (unat a + sz) - unat ?f"
      using n um pos assms(10) by linarith
    have le: "unat a \<le> unat ?f" using True by (simp add: word_le_nat_alt)
    have eq: "checkFunctional p a sec sz (Some d) = Inr (p, Some d', False)"
      using assms(1-5) nb True d' by (simp add: checkFunctional_def Let_def getPtr_def not_le)
    have "d' ! i = (if unat ?f \<le> unat a + i \<and> unat a + i < unat ?f + ?n
                    then buf ! (unat a + i - unat ?f) else d ! i)" if "i < sz" for i
      using nth_memcpy [OF d', of i, unfolded nn off] that le assms(7) by (auto simp: add.commute)
    then show ?thesis
      using eq length_memcpy [OF d'] assms(7) by blast
  next
    case False
    have off: "unat (a - ?f) = unat a - unat ?f" using False by (intro unat_minus_le) simp
    have n: "unat (?m - a + 1) = Suc (unat ?m - unat a)"
      using um small pos assms(11) by (intro unat_span) (auto simp: word_le_nat_alt)
    have "0 + unat (?m - a + 1) \<le> length d" "unat (a - ?f) + unat (?m - a + 1) \<le> length buf"
      using False pos assms(6,7,10,11) um by (simp_all add: n off word_le_nat_alt)
    then obtain d' where d': "memcpy d 0 buf (unat (a - ?f)) (unat (?m - a + 1)) = Inr d'"
      using memcpy_defined by blast
    have nn: "unat (?m - a + 1) = min (unat ?f + ?n) (unat a + sz) - unat a"
      using n um pos assms(11) by linarith
    have le: "unat ?f \<le> unat a" using False by (simp add: word_le_nat_alt)
    have eq: "checkFunctional p a sec sz (Some d) = Inr (p, Some d', False)"
      using assms(1-5) nb False d' by (simp add: checkFunctional_def Let_def getPtr_def)
    have "d' ! i = (if unat ?f \<le> unat a + i \<and> unat a + i < unat ?f + ?n
                    then buf ! (unat a + i - unat ?f) else d ! i)" if "i < sz" for i
      using nth_memcpy [OF d', of i, unfolded nn off] that le assms(7) by (auto simp: add.commute)
    then show ?thesis
      using eq length_memcpy [OF d'] assms(7) by blast
  qed
qed


section \<open>The properties at concrete packets\<close>

lemmas packet_simps = new_packet_def setPhys_def no_wrap_def cmd_defs pkt_attr_defs


text \<open>C40: the response to a request that needs one is a response and not a request, reads or
  writes as the request did, and carries data if the request was a read.\<close>

lemma response_command:
  assumes "makeResponse p = Inr p'"
  shows "isResponse p' \<and> \<not> isRequest p' \<and> isRead p' = isRead p \<and> isWrite p' = isWrite p \<and>
         (isRead p \<longrightarrow> hasData p') \<and> pkt_addr p' = pkt_addr p \<and> pdata p' = pdata p"
  using assms response_is_response [of "cmd p"] response_keeps_direction [of "cmd p"] read_response_has_data [of "cmd p"]
  by (auto simp: res_simps pkt_attr_defs)

lemma response_command_witness:
  "\<exists>p'. makeResponse (new_packet 0 (setPhys 64 4 None) ReadReq) = Inr p' \<and> isResponse p' \<and> hasData p'"
proof -
  have e: "makeResponse (new_packet 0 (setPhys 64 4 None) ReadReq) =
      Inr ((new_packet 0 (setPhys 64 4 None) ReadReq)\<lparr>cmd := ReadResp, flag_expressSnoop := False\<rparr>)"
    by (simp add: makeResponse_def packet_simps responseCommand_def)
  show ?thesis using response_command [OF e] e by (simp add: packet_simps)
qed

end
