(* ===== verification/DRAM_Bank.thy ===== *)
theory DRAM_Bank
  imports Packet
begin

text \<open>
  DRAM banks and ranks of \<^verbatim>\<open>src/gem5/src/mem/dram_ctrl.hh\<close>, the packets the DRAM
  controllers queue, their parameters, and the timing of the bank commands in
  \<^verbatim>\<open>src/gem5/src/mem/dram_ctrl.cc\<close>: activate, precharge, and one burst. Banks and ranks
  are referred to by index. The commands handed to the DRAMPower library are kept in
  a log per rank. Statistics counters are output only and are left out.
\<close>

section \<open>Parameters and state\<close>

datatype page_manage = PM_open | PM_open_adaptive | PM_close | PM_close_adaptive

datatype mem_sched = fcfs | frfcfs | cpuPriorityfcfs | cpuPriorityfrfcfs

datatype addr_map = RoRaBaChCo | RoRaBaCoCh | RoCoRaBaCh

record dram_params =
  burstSize :: nat
  columnsPerRowBuffer :: nat
  columnsPerStripe :: nat
  ranksPerChannel :: nat
  bankGroupArch :: bool
  banksPerRank :: nat
  channels :: nat
  rowsPerBank :: nat
  readBufferSize :: nat
  writeBufferSize :: nat
  writeHighThreshold :: nat
  writeLowThreshold :: nat
  minWritesPerSwitch :: nat
  tCK :: tick
  tWTR :: tick
  tRTW :: tick
  tCS :: tick
  tBURST :: tick
  tCCD_L :: tick
  tRCD :: tick
  tCL :: tick
  tRP :: tick
  tRAS :: tick
  tWR :: tick
  tRTP :: tick
  tRFC :: tick
  tREFI :: tick
  tRRD :: tick
  tRRD_L :: tick
  tXAW :: tick
  activationLimit :: nat
  memSchedPolicy :: mem_sched
  addrMapping :: addr_map
  pageMgmt :: page_manage
  maxAccessesPerRow :: nat
  frontendLatency :: tick
  backendLatency :: tick

definition NO_ROW :: u32 where
  "NO_ROW = - 1"

record bank =
  openRow :: u32
  bank_no :: nat
  bankgr :: nat
  colAllowedAt :: tick
  preAllowedAt :: tick
  actAllowedAt :: tick
  rowAccesses :: u32
  bytesAccessed :: u32

definition Bank_init :: bank where
  "Bank_init = \<lparr>openRow = NO_ROW, bank_no = 0, bankgr = 0, colAllowedAt = 0, preAllowedAt = 0,
                actAllowedAt = 0, rowAccesses = 0, bytesAccessed = 0\<rparr>"

datatype power_state = PWR_IDLE | PWR_REF | PWR_PRE_PDN | PWR_ACT | PWR_ACT_PDN

datatype refresh_state = REF_IDLE | REF_DRAIN | REF_PRE | REF_RUN

datatype mem_command = ACT | PRE | PREA | REF | RD | WR

record rank =
  pwrStateTrans :: power_state
  pwrState :: power_state
  pwrStateTick :: tick
  refreshState :: refresh_state
  refreshDueAt :: tick
  rank_no :: nat
  banks :: "bank list"
  numBanksActive :: nat
  actTicks :: "tick list"
  activateEvent :: event
  prechargeEvent :: event
  refreshEvent :: event
  powerEvent :: event
  powerCmds :: "(mem_command \<times> nat \<times> tick) list"

definition isAvailable :: "rank \<Rightarrow> bool" where
  "isAvailable rk \<longleftrightarrow> refreshState rk = REF_IDLE"

record dram_packet =
  entryTime :: tick
  dp_readyTime :: tick
  dp_pkt :: packet
  requestAddr :: addr
  dp_isRead :: bool
  isFill :: bool
  contextId :: int
  dp_rank :: nat
  dp_bank :: nat
  dp_row :: u32
  bankId :: nat
  dp_addr :: addr
  dp_size :: nat
  burstHelper :: "nat option"

section \<open>Bank commands\<close>

definition divCeil :: "nat \<Rightarrow> nat \<Rightarrow> nat" where
  "divCeil a b = (a + b - 1) div b"

definition power_cmd :: "dram_params \<Rightarrow> tick \<Rightarrow> mem_command \<Rightarrow> nat \<Rightarrow> tick \<Rightarrow> rank \<Rightarrow> rank" where
  "power_cmd p off c b t rk = rk\<lparr>powerCmds := powerCmds rk @ [(c, b, tsub (divCeil t (tCK p)) off)]\<rparr>"

definition upd_bank :: "nat \<Rightarrow> (bank \<Rightarrow> bank) \<Rightarrow> rank \<Rightarrow> rank" where
  "upd_bank b f rk = rk\<lparr>banks := (banks rk)[b := f (banks rk ! b)]\<rparr>"

text \<open>The constraint tRRD on every bank of the rank, the longer one within a bank group.\<close>

definition enforce_tRRD :: "dram_params \<Rightarrow> nat \<Rightarrow> tick \<Rightarrow> bank \<Rightarrow> bank" where
  "enforce_tRRD p gr act_tick bk =
     bk\<lparr>actAllowedAt := max (act_tick + (if bankGroupArch p \<and> gr = bankgr bk then tRRD_L p else tRRD p))
                          (actAllowedAt bk)\<rparr>"

definition enforce_tXAW :: "dram_params \<Rightarrow> tick \<Rightarrow> rank \<Rightarrow> rank res" where
  "enforce_tXAW p act_tick rk =
     (if actTicks rk = [] then Inr rk
      else if last (actTicks rk) \<noteq> 0 \<and> tsub act_tick (last (actTicks rk)) < tXAW p then
        Inl (PanicError ''Got activates in window'')
      else
        let ticks = act_tick # butlast (actTicks rk);
            rk1 = rk\<lparr>actTicks := ticks\<rparr>
        in Inr (if last ticks \<noteq> 0 \<and> tsub act_tick (last ticks) < tXAW p
                then rk1\<lparr>banks := map (\<lambda>bk. bk\<lparr>actAllowedAt := max (last ticks + tXAW p) (actAllowedAt bk)\<rparr>)
                                     (banks rk1)\<rparr>
                else rk1))"

definition sched_earlier :: "tick \<Rightarrow> event \<Rightarrow> tick \<Rightarrow> event res" where
  "sched_earlier now e t =
     (case e of None \<Rightarrow> ev_schedule now e t
      | Some w \<Rightarrow> if w > t then ev_reschedule now e t False else Inr e)"

definition sched_later :: "tick \<Rightarrow> event \<Rightarrow> tick \<Rightarrow> event res" where
  "sched_later now e t =
     (case e of None \<Rightarrow> ev_schedule now e t
      | Some w \<Rightarrow> if w < t then ev_reschedule now e t False else Inr e)"

definition activateBank ::
  "dram_params \<Rightarrow> tick \<Rightarrow> tick \<Rightarrow> rank \<Rightarrow> nat \<Rightarrow> tick \<Rightarrow> u32 \<Rightarrow> rank res" where
  "activateBank p now off rk b act_tick row =
     assertE ''rank_ref.actTicks.size() == activationLimit'' (length (actTicks rk) = activationLimit p)
     (assertE ''bank_ref.openRow == Bank::NO_ROW'' (openRow (banks rk ! b) = NO_ROW)
     (let rk1 = (upd_bank b (\<lambda>bk. bk\<lparr>openRow := row, bytesAccessed := 0, rowAccesses := 0\<rparr>) rk)
                  \<lparr>numBanksActive := numBanksActive rk + 1\<rparr> in
      assertE ''rank_ref.numBanksActive <= banksPerRank'' (numBanksActive rk1 \<le> banksPerRank p)
      (let rk2 = power_cmd p off ACT (bank_no (banks rk1 ! b)) act_tick rk1;
           rk3 = upd_bank b (\<lambda>bk. bk\<lparr>preAllowedAt := act_tick + tRAS p,
                                     colAllowedAt := max (act_tick + tRCD p) (colAllowedAt bk)\<rparr>) rk2;
           rk4 = rk3\<lparr>banks := map (enforce_tRRD p (bankgr (banks rk3 ! b)) act_tick) (banks rk3)\<rparr>
       in bindE (enforce_tXAW p act_tick rk4) (\<lambda>rk5.
          bindE (sched_earlier now (activateEvent rk5) act_tick) (\<lambda>e.
          Inr (rk5\<lparr>activateEvent := e\<rparr>))))))"

definition prechargeBank ::
  "dram_params \<Rightarrow> tick \<Rightarrow> tick \<Rightarrow> rank \<Rightarrow> nat \<Rightarrow> tick \<Rightarrow> bool \<Rightarrow> rank res" where
  "prechargeBank p now off rk b pre_at trace =
     assertE ''bank.openRow != Bank::NO_ROW'' (openRow (banks rk ! b) \<noteq> NO_ROW)
     (let pre_done_at = pre_at + tRP p;
          rk1 = upd_bank b (\<lambda>bk. bk\<lparr>openRow := NO_ROW, preAllowedAt := pre_at,
                                    actAllowedAt := max (actAllowedAt bk) pre_done_at\<rparr>) rk
      in assertE ''rank_ref.numBanksActive != 0'' (numBanksActive rk1 \<noteq> 0)
         (let rk2 = rk1\<lparr>numBanksActive := numBanksActive rk1 - 1\<rparr>;
              rk3 = (if trace then power_cmd p off PRE (bank_no (banks rk2 ! b)) pre_at rk2 else rk2)
          in bindE (sched_later now (prechargeEvent rk3) pre_done_at) (\<lambda>e.
             Inr (rk3\<lparr>prechargeEvent := e\<rparr>))))"

section \<open>One burst\<close>

text \<open>
  The part of the controller's state a burst reads and changes: the ranks, the time until
  which the data bus is taken, and the rank of the last burst.
\<close>

record burst_state =
  bs_ranks :: "rank list"
  bs_busBusyUntil :: tick
  bs_activeRank :: nat

text \<open>Does the page stay open? \<open>queue\<close> is the queue whose head is the packet being served.\<close>

fun scan_hits :: "dram_packet \<Rightarrow> dram_packet list \<Rightarrow> bool \<Rightarrow> bool \<times> bool" where
  "scan_hits dp [] conflict = (False, conflict)"
| "scan_hits dp (q # qs) conflict =
     (let same_rank_bank = (dp_rank dp = dp_rank q \<and> dp_bank dp = dp_bank q);
          same_row = (dp_row dp = dp_row q);
          conflict' = (conflict \<or> (same_rank_bank \<and> \<not> same_row))
      in if same_rank_bank \<and> same_row then (True, conflict') else scan_hits dp qs conflict')"

definition auto_precharge :: "dram_params \<Rightarrow> bank \<Rightarrow> dram_packet list \<Rightarrow> dram_packet \<Rightarrow> bool" where
  "auto_precharge p bk queue dp =
     (if pageMgmt p = PM_close \<or> unat (rowAccesses bk) = maxAccessesPerRow p then True
      else if pageMgmt p = PM_open_adaptive \<or> pageMgmt p = PM_close_adaptive then
        let (got_more_hits, got_bank_conflict) = scan_hits dp (tl queue) False
        in \<not> got_more_hits \<and> (got_bank_conflict \<or> pageMgmt p = PM_close_adaptive)
      else False)"

definition cmd_delay :: "dram_params \<Rightarrow> dram_packet \<Rightarrow> nat \<Rightarrow> nat \<Rightarrow> bank \<Rightarrow> tick" where
  "cmd_delay p dp gr j bk =
     (if dp_rank dp = j then
        (if bankGroupArch p \<and> gr = bankgr bk then tCCD_L p else tBURST p)
      else tBURST p + tCS p)"

definition push_col :: "dram_params \<Rightarrow> dram_packet \<Rightarrow> nat \<Rightarrow> tick \<Rightarrow> nat \<Rightarrow> rank \<Rightarrow> rank" where
  "push_col p dp gr cmd_at j rk =
     rk\<lparr>banks := map (\<lambda>bk. bk\<lparr>colAllowedAt := max (cmd_at + cmd_delay p dp gr j bk) (colAllowedAt bk)\<rparr>)
                    (banks rk)\<rparr>"

text \<open>The served bank: earliest precharge after this access, and the accesses to its open row.\<close>

definition bump_bank :: "dram_params \<Rightarrow> dram_packet \<Rightarrow> tick \<Rightarrow> tick \<Rightarrow> bank \<Rightarrow> bank" where
  "bump_bank p dp cmd_at ready bk =
     bk\<lparr>preAllowedAt := max (preAllowedAt bk) (if dp_isRead dp then cmd_at + tRTP p else ready + tWR p),
        bytesAccessed := bytesAccessed bk + word_of_nat (burstSize p),
        rowAccesses := rowAccesses bk + 1\<rparr>"

text \<open>The row that the burst needs is opened: the rank, and the first tick for the column command.\<close>

definition open_row ::
  "dram_params \<Rightarrow> tick \<Rightarrow> tick \<Rightarrow> rank \<Rightarrow> dram_packet \<Rightarrow> (rank \<times> tick) res" where
  "open_row p now off rk dp =
     (let b = dp_bank dp; bk = banks rk ! b in
      if openRow bk = dp_row dp then Inr (rk, max (colAllowedAt bk) now)
      else
        bindE (if openRow bk \<noteq> NO_ROW
               then prechargeBank p now off rk b (max (preAllowedAt bk) now) True
               else Inr rk) (\<lambda>rk1.
        bindE (activateBank p now off rk1 b (max (actAllowedAt (banks rk1 ! b)) now) (dp_row dp)) (\<lambda>rk2.
        Inr (rk2, colAllowedAt (banks rk2 ! b)))))"

text \<open>
  The body shared by the two \<^verbatim>\<open>doDRAMAccess\<close>; they differ in \<open>queue\<close>. The result is the new
  state, the packet with its ready time, and the tick of the column command.
\<close>

definition burst_access ::
  "dram_params \<Rightarrow> tick \<Rightarrow> tick \<Rightarrow> dram_packet list \<Rightarrow> dram_packet \<Rightarrow> burst_state \<Rightarrow>
     (burst_state \<times> dram_packet \<times> tick) res" where
  "burst_access p now off queue dp st =
     (let r = dp_rank dp; b = dp_bank dp in
      bindE (open_row p now off (bs_ranks st ! r) dp) (\<lambda>(rk, col_at).
      let cmd_at = max col_at (tsub (bs_busBusyUntil st) (tCL p));
          ready = cmd_at + tCL p + tBURST p;
          gr = bankgr (banks rk ! b)
      in
      assertE ''dram_pkt->readyTime - busBusyUntil >= tBURST''
        (tsub ready (bs_busBusyUntil st) \<ge> tBURST p)
      (let rs1 = (bs_ranks st)[r := rk];
           rs2 = map (\<lambda>(j, rk). push_col p dp gr cmd_at j rk) (enumerate 0 rs1);
           rk3 = upd_bank b (bump_bank p dp cmd_at ready) (rs2 ! r)
       in bindE (if auto_precharge p (banks rk3 ! b) queue dp
                 then prechargeBank p now off rk3 b (max now (preAllowedAt (banks rk3 ! b))) True
                 else Inr rk3) (\<lambda>rk4.
          Inr (\<lparr>bs_ranks = rs2[r := power_cmd p off (if dp_isRead dp then RD else WR) b cmd_at rk4],
                bs_busBusyUntil = ready, bs_activeRank = r\<rparr>,
               dp\<lparr>dp_readyTime := ready\<rparr>, cmd_at)))))"

section \<open>The rank invariant\<close>

text \<open>
  \<open>numBanksActive\<close> counts the banks with an open row, the window of past activates has its
  fixed length and runs from newest to oldest, and no bank of the rank may be activated
  before any activate in the window, nor less than tXAW after the oldest one. A zero in
  the window stands for no activate.
\<close>

definition open_rows :: "rank \<Rightarrow> u32 list" where
  "open_rows rk = map openRow (banks rk)"

definition act_times :: "rank \<Rightarrow> tick list" where
  "act_times rk = map actAllowedAt (banks rk)"

definition act_window :: "dram_params \<Rightarrow> tick list \<Rightarrow> tick list \<Rightarrow> bool" where
  "act_window p ticks acts \<longleftrightarrow>
     sorted_wrt (\<ge>) ticks \<and>
     (\<forall>a \<in> set acts. (\<forall>t \<in> set ticks. t \<le> a) \<and>
        (ticks \<noteq> [] \<longrightarrow> last ticks \<noteq> 0 \<longrightarrow> last ticks + tXAW p \<le> a))"

definition rank_inv :: "dram_params \<Rightarrow> rank \<Rightarrow> bool" where
  "rank_inv p rk \<longleftrightarrow>
     length (banks rk) = banksPerRank p \<and>
     numBanksActive rk = count_if (\<lambda>r. r \<noteq> NO_ROW) (open_rows rk) \<and>
     length (actTicks rk) = activationLimit p \<and>
     act_window p (actTicks rk) (act_times rk)"

lemma act_window_mono:
  assumes "act_window p ts as" and "\<And>a'. a' \<in> set as' \<Longrightarrow> \<exists>a \<in> set as. a \<le> a'"
  shows "act_window p ts as'"
  using assms unfolding act_window_def by (meson order_trans)

lemma act_window_bound:
  assumes "act_window p ts as" and "a \<in> set as" and "a \<le> t"
  shows "\<forall>x \<in> set ts. x \<le> t" "ts \<noteq> [] \<Longrightarrow> last ts \<noteq> 0 \<Longrightarrow> last ts + tXAW p \<le> t"
  using assms unfolding act_window_def by (meson order_trans)+

lemma open_rows_nth [simp]: "i < length (banks rk) \<Longrightarrow> open_rows rk ! i = openRow (banks rk ! i)"
  by (simp add: open_rows_def)

lemma length_open_rows [simp]: "length (open_rows rk) = length (banks rk)"
  by (simp add: open_rows_def)

lemma length_act_times [simp]: "length (act_times rk) = length (banks rk)"
  by (simp add: act_times_def)

lemma power_cmd_frame [simp]:
  "banks (power_cmd p off c b t rk) = banks rk" "actTicks (power_cmd p off c b t rk) = actTicks rk"
  "numBanksActive (power_cmd p off c b t rk) = numBanksActive rk"
  "activateEvent (power_cmd p off c b t rk) = activateEvent rk"
  "prechargeEvent (power_cmd p off c b t rk) = prechargeEvent rk"
  "refreshEvent (power_cmd p off c b t rk) = refreshEvent rk"
  "powerEvent (power_cmd p off c b t rk) = powerEvent rk"
  "refreshState (power_cmd p off c b t rk) = refreshState rk"
  "pwrState (power_cmd p off c b t rk) = pwrState rk"
  "pwrStateTrans (power_cmd p off c b t rk) = pwrStateTrans rk"
  "pwrStateTick (power_cmd p off c b t rk) = pwrStateTick rk"
  "refreshDueAt (power_cmd p off c b t rk) = refreshDueAt rk"
  "rank_no (power_cmd p off c b t rk) = rank_no rk"
  "rank_inv p' (power_cmd p off c b t rk) = rank_inv p' rk"
  by (simp_all add: power_cmd_def rank_inv_def open_rows_def act_times_def)

lemma upd_bank_frame [simp]:
  "length (banks (upd_bank b f rk)) = length (banks rk)" "actTicks (upd_bank b f rk) = actTicks rk"
  "numBanksActive (upd_bank b f rk) = numBanksActive rk"
  "activateEvent (upd_bank b f rk) = activateEvent rk"
  "prechargeEvent (upd_bank b f rk) = prechargeEvent rk"
  "refreshEvent (upd_bank b f rk) = refreshEvent rk" "powerEvent (upd_bank b f rk) = powerEvent rk"
  "refreshState (upd_bank b f rk) = refreshState rk" "pwrState (upd_bank b f rk) = pwrState rk"
  "pwrStateTrans (upd_bank b f rk) = pwrStateTrans rk" "pwrStateTick (upd_bank b f rk) = pwrStateTick rk"
  "refreshDueAt (upd_bank b f rk) = refreshDueAt rk" "rank_no (upd_bank b f rk) = rank_no rk"
  by (simp_all add: upd_bank_def)

lemma banks_upd_bank [simp]:
  "b < length (banks rk) \<Longrightarrow>
     banks (upd_bank b f rk) ! i = (if i = b then f (banks rk ! b) else banks rk ! i)"
  by (simp add: upd_bank_def nth_list_update)

lemma sched_earlier_ok: "now \<le> t \<Longrightarrow> \<exists>w. sched_earlier now e t = Inr (Some w) \<and> w \<le> t"
  by (cases e) (auto simp: sched_earlier_def ev_schedule_def ev_reschedule_def)

lemma sched_later_ok: "now \<le> t \<Longrightarrow> \<exists>w. sched_later now e t = Inr (Some w) \<and> t \<le> w"
  by (cases e) (auto simp: sched_later_def ev_schedule_def ev_reschedule_def)

text \<open>
  The window check of an activate: it cannot fail when the activate respects the bank's
  earliest tick, and it re-establishes the window part of the invariant.
\<close>

lemma last_cons_butlast: "xs \<noteq> [] \<Longrightarrow> last (t # butlast xs) \<in> insert t (set xs)"
  by (metis butlast.simps(2) in_set_butlastD insert_iff last_in_set list.distinct(1) set_ConsD)

lemma enforce_tXAW_ok:
  assumes "\<forall>t \<in> set (actTicks rk). t \<le> act_tick"
    and "actTicks rk \<noteq> [] \<Longrightarrow> last (actTicks rk) \<noteq> 0 \<Longrightarrow> last (actTicks rk) + tXAW p \<le> act_tick"
    and "\<forall>a \<in> set (act_times rk). act_tick \<le> a"
    and "sorted_wrt (\<ge>) (actTicks rk)"
  shows "\<exists>rk' g. enforce_tXAW p act_tick rk = Inr rk' \<and>
           banks rk' = map (\<lambda>bk. bk\<lparr>actAllowedAt := g bk\<rparr>) (banks rk) \<and>
           (\<forall>bk. actAllowedAt bk \<le> g bk) \<and>
           length (actTicks rk') = length (actTicks rk) \<and> act_window p (actTicks rk') (act_times rk') \<and>
           numBanksActive rk' = numBanksActive rk \<and> activateEvent rk' = activateEvent rk"
proof (cases "actTicks rk = []")
  case True
  then show ?thesis
    by (intro exI [of _ rk] exI [of _ actAllowedAt]) (simp add: enforce_tXAW_def act_window_def)
next
  case False
  let ?ts = "act_tick # butlast (actTicks rk)"
  let ?rk1 = "rk\<lparr>actTicks := ?ts\<rparr>"
  let ?rk2 = "?rk1\<lparr>banks := map (\<lambda>bk. bk\<lparr>actAllowedAt := max (last ?ts + tXAW p) (actAllowedAt bk)\<rparr>) (banks rk)\<rparr>"
  have no_panic: "\<not> (last (actTicks rk) \<noteq> 0 \<and> tsub act_tick (last (actTicks rk)) < tXAW p)"
    using assms(1,2) False by (auto simp: tsub_le)
  have ts_le: "\<forall>t \<in> set ?ts. t \<le> act_tick" using assms(1) by (auto dest: in_set_butlastD)
  have srt: "sorted_wrt (\<ge>) ?ts"
    using assms(1,4) ts_le sorted_wrt_append [of "(\<ge>)" "butlast (actTicks rk)" "[last (actTicks rk)]"] False
    by auto
  have len: "length ?ts = length (actTicks rk)" using False by simp
  have last_le: "last ?ts \<le> act_tick" using ts_le last_in_set [of ?ts] by blast
  show ?thesis
  proof (cases "last ?ts \<noteq> 0 \<and> tsub act_tick (last ?ts) < tXAW p")
    case True
    then have "enforce_tXAW p act_tick rk = Inr ?rk2"
      using False no_panic by (simp add: enforce_tXAW_def Let_def)
    then show ?thesis
      using assms(3) ts_le srt len
      by (intro exI [of _ ?rk2] exI [of _ "\<lambda>bk. max (last ?ts + tXAW p) (actAllowedAt bk)"])
        (fastforce simp: act_times_def act_window_def)
  next
    case np: False
    then have eq: "enforce_tXAW p act_tick rk = Inr ?rk1"
      using False no_panic by (auto simp: enforce_tXAW_def Let_def)
    have "last ?ts \<noteq> 0 \<Longrightarrow> last ?ts + tXAW p \<le> act_tick"
      using np last_le by (auto simp: tsub_le)
    then show ?thesis
      using assms(3) ts_le srt len eq
      by (intro exI [of _ ?rk1] exI [of _ actAllowedAt]) (fastforce simp: act_times_def act_window_def)
  qed
qed

section \<open>Activate and precharge\<close>

definition bank_times_le :: "bank list \<Rightarrow> bank list \<Rightarrow> bool" where
  "bank_times_le bs bs' \<longleftrightarrow> list_all2 (\<lambda>bk bk'. actAllowedAt bk \<le> actAllowedAt bk') bs bs'"

lemma count_open_update:
  assumes "b < length xs" and "xs ! b = NO_ROW" and "r \<noteq> NO_ROW"
  shows "count_if (\<lambda>r. r \<noteq> NO_ROW) (xs[b := r]) = Suc (count_if (\<lambda>r. r \<noteq> NO_ROW) xs)"
  using count_if_update [of b xs "\<lambda>r. r \<noteq> NO_ROW" r] assms by simp

lemma count_close_update:
  assumes "b < length xs" and "xs ! b \<noteq> NO_ROW"
  shows "Suc (count_if (\<lambda>r. r \<noteq> NO_ROW) (xs[b := NO_ROW])) = count_if (\<lambda>r. r \<noteq> NO_ROW) xs"
  using count_if_update [of b xs "\<lambda>r. r \<noteq> NO_ROW" NO_ROW] assms by simp

lemma activateBank_ok:
  assumes inv: "rank_inv p rk" and b: "b < length (banks rk)"
    and closed: "openRow (banks rk ! b) = NO_ROW" and row: "row \<noteq> NO_ROW"
    and act: "actAllowedAt (banks rk ! b) \<le> act_tick" and now: "now \<le> act_tick"
  shows "\<exists>rk'. activateBank p now off rk b act_tick row = Inr rk' \<and> rank_inv p rk' \<and>
           open_rows rk' = (open_rows rk)[b := row] \<and>
           map colAllowedAt (banks rk') =
             (map colAllowedAt (banks rk))[b := max (act_tick + tRCD p) (colAllowedAt (banks rk ! b))] \<and>
           map preAllowedAt (banks rk') = (map preAllowedAt (banks rk))[b := act_tick + tRAS p] \<and>
           map bankgr (banks rk') = map bankgr (banks rk) \<and>
           (\<forall>i < length (banks rk). actAllowedAt (banks rk ! i) \<le> actAllowedAt (banks rk' ! i) \<and>
              act_tick + (if bankGroupArch p \<and> bankgr (banks rk ! b) = bankgr (banks rk ! i)
                          then tRRD_L p else tRRD p) \<le> actAllowedAt (banks rk' ! i))"
proof -
  define rk1 where "rk1 = (upd_bank b (\<lambda>bk. bk\<lparr>openRow := row, bytesAccessed := 0, rowAccesses := 0\<rparr>) rk)
                  \<lparr>numBanksActive := numBanksActive rk + 1\<rparr>"
  define rk2 where "rk2 = power_cmd p off ACT (bank_no (banks rk1 ! b)) act_tick rk1"
  define rk3 where "rk3 = upd_bank b (\<lambda>bk. bk\<lparr>preAllowedAt := act_tick + tRAS p,
                                     colAllowedAt := max (act_tick + tRCD p) (colAllowedAt bk)\<rparr>) rk2"
  define rk4 where "rk4 = rk3\<lparr>banks := map (enforce_tRRD p (bankgr (banks rk3 ! b)) act_tick) (banks rk3)\<rparr>"
  note defs = rk1_def rk2_def rk3_def rk4_def
  have len: "length (banks rk4) = length (banks rk)" by (simp add: defs)
  have nth4: "banks rk4 ! i = enforce_tRRD p (bankgr (banks rk ! b)) act_tick
      ((banks rk ! i)\<lparr>openRow := if i = b then row else openRow (banks rk ! i),
         bytesAccessed := if i = b then 0 else bytesAccessed (banks rk ! i),
         rowAccesses := if i = b then 0 else rowAccesses (banks rk ! i),
         preAllowedAt := if i = b then act_tick + tRAS p else preAllowedAt (banks rk ! i),
         colAllowedAt := if i = b then max (act_tick + tRCD p) (colAllowedAt (banks rk ! b))
                         else colAllowedAt (banks rk ! i)\<rparr>)" if "i < length (banks rk)" for i
    using that b by (simp add: defs)
  have mem: "actAllowedAt (banks rk ! b) \<in> set (act_times rk)" using b by (simp add: act_times_def)
  have ticks: "actTicks rk4 = actTicks rk" by (simp add: defs)
  have win: "act_window p (actTicks rk) (act_times rk)" using inv by (simp add: rank_inv_def)
  have times: "\<forall>t \<in> set (actTicks rk4). t \<le> act_tick"
    and window: "actTicks rk4 \<noteq> [] \<Longrightarrow> last (actTicks rk4) \<noteq> 0 \<Longrightarrow> last (actTicks rk4) + tXAW p \<le> act_tick"
    unfolding ticks using act_window_bound [OF win mem act] by blast+
  have ge: "\<forall>a \<in> set (act_times rk4). act_tick \<le> a"
    by (auto simp: act_times_def rk4_def enforce_tRRD_def)
  have srt: "sorted_wrt (\<ge>) (actTicks rk4)" using win by (simp add: ticks act_window_def)
  obtain rk5 g where x: "enforce_tXAW p act_tick rk4 = Inr rk5"
      "banks rk5 = map (\<lambda>bk. bk\<lparr>actAllowedAt := g bk\<rparr>) (banks rk4)" "\<forall>bk. actAllowedAt bk \<le> g bk"
      "length (actTicks rk5) = length (actTicks rk4)" "act_window p (actTicks rk5) (act_times rk5)"
      "numBanksActive rk5 = numBanksActive rk4"
    using enforce_tXAW_ok [OF times window ge srt] by blast
  obtain w where w: "sched_earlier now (activateEvent rk5) act_tick = Inr (Some w)"
    using sched_earlier_ok [OF now] by blast
  let ?rk' = "rk5\<lparr>activateEvent := Some w\<rparr>"
  have rows: "open_rows ?rk' = (open_rows rk)[b := row]"
    using b len by (auto simp: x(2) open_rows_def nth4 enforce_tRRD_def nth_list_update intro: nth_equalityI)
  have cnt: "numBanksActive rk + 1 = count_if (\<lambda>r. r \<noteq> NO_ROW) (open_rows ?rk')"
    using inv b closed row by (simp add: rows count_open_update rank_inv_def)
  have bound: "numBanksActive rk + 1 \<le> banksPerRank p"
  proof -
    have "count_if (\<lambda>r. r \<noteq> NO_ROW) (open_rows ?rk') \<le> length (banks rk)"
      using count_if_le_length [of "\<lambda>r. r \<noteq> NO_ROW" "open_rows ?rk'"] by (simp add: x(2) len)
    then show ?thesis using inv unfolding cnt rank_inv_def by simp
  qed
  have n1: "numBanksActive rk1 = numBanksActive rk + 1" by (simp add: rk1_def)
  have "activateBank p now off rk b act_tick row =
      assertE ''rank_ref.actTicks.size() == activationLimit'' (length (actTicks rk) = activationLimit p)
        (assertE ''bank_ref.openRow == Bank::NO_ROW'' (openRow (banks rk ! b) = NO_ROW)
          (assertE ''rank_ref.numBanksActive <= banksPerRank'' (numBanksActive rk1 \<le> banksPerRank p)
            (bindE (enforce_tXAW p act_tick rk4) (\<lambda>rk5.
              bindE (sched_earlier now (activateEvent rk5) act_tick) (\<lambda>e.
                Inr (rk5\<lparr>activateEvent := e\<rparr>))))))"
    by (simp only: activateBank_def Let_def defs)
  moreover have "length (actTicks rk) = activationLimit p" using inv by (simp add: rank_inv_def)
  ultimately have "activateBank p now off rk b act_tick row = Inr ?rk'"
    using closed bound x(1) w n1 by simp
  moreover have "rank_inv p ?rk'"
  proof -
    have "numBanksActive rk5 = numBanksActive rk + 1" using x(6) by (simp add: defs)
    moreover have "length (banks rk5) = banksPerRank p" "length (actTicks rk5) = activationLimit p"
      using inv len x(2,4) ticks by (simp_all add: rank_inv_def)
    moreover have "act_times ?rk' = act_times rk5" by (simp add: act_times_def)
    ultimately show ?thesis using x(5) cnt unfolding rank_inv_def by simp
  qed
  moreover have "map colAllowedAt (banks ?rk') =
      (map colAllowedAt (banks rk))[b := max (act_tick + tRCD p) (colAllowedAt (banks rk ! b))]"
    "map preAllowedAt (banks ?rk') = (map preAllowedAt (banks rk))[b := act_tick + tRAS p]"
    "map bankgr (banks ?rk') = map bankgr (banks rk)"
    using len by (auto simp: x(2) nth4 enforce_tRRD_def nth_list_update intro: nth_equalityI)
  moreover have "actAllowedAt (banks rk ! i) \<le> actAllowedAt (banks ?rk' ! i) \<and>
      act_tick + (if bankGroupArch p \<and> bankgr (banks rk ! b) = bankgr (banks rk ! i)
                  then tRRD_L p else tRRD p) \<le> actAllowedAt (banks ?rk' ! i)"
    if "i < length (banks rk)" for i
    using x(3) [rule_format, of "banks rk4 ! i"] that len by (auto simp: x(2) nth4 enforce_tRRD_def)
  ultimately show ?thesis using rows by (intro exI [of _ ?rk'] conjI) auto
qed

lemma prechargeBank_ok:
  assumes inv: "rank_inv p rk" and b: "b < length (banks rk)"
    and opened: "openRow (banks rk ! b) \<noteq> NO_ROW" and now: "now \<le> pre_at"
  shows "\<exists>rk'. prechargeBank p now off rk b pre_at tr = Inr rk' \<and> rank_inv p rk' \<and>
           open_rows rk' = (open_rows rk)[b := NO_ROW] \<and>
           map colAllowedAt (banks rk') = map colAllowedAt (banks rk) \<and>
           map preAllowedAt (banks rk') = (map preAllowedAt (banks rk))[b := pre_at] \<and>
           map bankgr (banks rk') = map bankgr (banks rk) \<and>
           map actAllowedAt (banks rk') =
             (map actAllowedAt (banks rk))[b := max (actAllowedAt (banks rk ! b)) (pre_at + tRP p)] \<and>
           actTicks rk' = actTicks rk"
proof -
  define rk1 where "rk1 = upd_bank b (\<lambda>bk. bk\<lparr>openRow := NO_ROW, preAllowedAt := pre_at,
                                    actAllowedAt := max (actAllowedAt bk) (pre_at + tRP p)\<rparr>) rk"
  define rk2 where "rk2 = rk1\<lparr>numBanksActive := numBanksActive rk1 - 1\<rparr>"
  define rk3 where "rk3 = (if tr then power_cmd p off PRE (bank_no (banks rk2 ! b)) pre_at rk2 else rk2)"
  note defs = rk1_def rk2_def rk3_def
  have rows: "open_rows rk1 = (open_rows rk)[b := NO_ROW]"
    using b by (auto simp: rk1_def open_rows_def upd_bank_def map_update)
  have cnt: "Suc (count_if (\<lambda>r. r \<noteq> NO_ROW) (open_rows rk1)) = numBanksActive rk"
    using inv b opened by (simp add: rows count_close_update rank_inv_def)
  obtain w where w: "sched_later now (prechargeEvent rk3) (pre_at + tRP p) = Inr (Some w)"
    using sched_later_ok [of now "pre_at + tRP p"] now by auto
  let ?rk' = "rk3\<lparr>prechargeEvent := Some w\<rparr>"
  have "0 < numBanksActive rk" using cnt by simp
  then have "prechargeBank p now off rk b pre_at tr = Inr ?rk'"
    using opened w by (cases tr) (simp_all add: prechargeBank_def Let_def defs)
  moreover have bks: "banks ?rk' = banks rk1" by (simp add: rk3_def rk2_def)
  have acts: "map actAllowedAt (banks rk1) =
             (map actAllowedAt (banks rk))[b := max (actAllowedAt (banks rk ! b)) (pre_at + tRP p)]"
    using b by (simp add: rk1_def upd_bank_def map_update)
  have mono: "\<forall>a \<in> set (act_times rk1). \<exists>a' \<in> set (act_times rk). a' \<le> a"
  proof
    fix a assume "a \<in> set (act_times rk1)"
    then have "a \<in> insert (max (actAllowedAt (banks rk ! b)) (pre_at + tRP p)) (set (act_times rk))"
      using set_update_subset_insert by (fastforce simp: act_times_def acts)
    moreover have "actAllowedAt (banks rk ! b) \<in> set (act_times rk)" using b by (simp add: act_times_def)
    ultimately show "\<exists>a' \<in> set (act_times rk). a' \<le> a" by (metis insertE max.cobounded1 order_refl)
  qed
  have "rank_inv p ?rk'"
  proof -
    have "act_window p (actTicks rk) (act_times rk1)"
      using inv mono by (auto simp: rank_inv_def intro: act_window_mono)
    moreover have "act_times ?rk' = act_times rk1" "open_rows ?rk' = open_rows rk1"
      using bks by (simp_all add: act_times_def open_rows_def)
    moreover have "numBanksActive ?rk' = numBanksActive rk - 1" "actTicks ?rk' = actTicks rk"
      "length (banks ?rk') = length (banks rk)" by (simp_all add: defs)
    moreover have "numBanksActive rk - 1 = count_if (\<lambda>r. r \<noteq> NO_ROW) (open_rows rk1)"
      using cnt by linarith
    ultimately show ?thesis using inv unfolding rank_inv_def by simp
  qed
  moreover have "map colAllowedAt (banks rk1) = map colAllowedAt (banks rk)"
    "map preAllowedAt (banks rk1) = (map preAllowedAt (banks rk))[b := pre_at]"
    "map bankgr (banks rk1) = map bankgr (banks rk)"
    using b by (simp_all add: rk1_def upd_bank_def map_update list_update_same_conv)
  moreover have "open_rows ?rk' = (open_rows rk)[b := NO_ROW]" using rows bks by (simp add: open_rows_def)
  moreover have "actTicks ?rk' = actTicks rk" by (simp add: defs)
  ultimately show ?thesis using acts bks by (intro exI [of _ ?rk'] conjI) auto
qed

lemma map_nth_eq:
  assumes "map f xs = ys" and "i < length xs"
  shows "f (xs ! i) = ys ! i"
  using assms by auto

lemma open_rows_same:
  "b < length (banks rk) \<Longrightarrow> openRow (banks rk ! b) = r \<Longrightarrow> (open_rows rk)[b := r] = open_rows rk"
  by (metis list_update_id open_rows_nth)

text \<open>Closing whatever row the bank has open.\<close>

lemma close_row_ok:
  assumes inv: "rank_inv p rk" and b: "b < length (banks rk)"
  defines "bk \<equiv> banks rk ! b"
  shows "\<exists>rk1. (if openRow bk \<noteq> NO_ROW
               then prechargeBank p now off rk b (max (preAllowedAt bk) now) True
               else Inr rk) = Inr rk1 \<and> rank_inv p rk1 \<and> openRow (banks rk1 ! b) = NO_ROW \<and>
      open_rows rk1 = (open_rows rk)[b := NO_ROW] \<and> map bankgr (banks rk1) = map bankgr (banks rk) \<and>
      colAllowedAt (banks rk1 ! b) = colAllowedAt bk \<and> actAllowedAt bk \<le> actAllowedAt (banks rk1 ! b) \<and>
      (openRow bk \<noteq> NO_ROW \<longrightarrow> max now (preAllowedAt bk) + tRP p \<le> actAllowedAt (banks rk1 ! b))"
proof (cases "openRow bk = NO_ROW")
  case True
  then show ?thesis using inv b by (simp add: bk_def open_rows_same)
next
  case False
  have now: "now \<le> max (preAllowedAt bk) now" by simp
  obtain rk1 where r: "prechargeBank p now off rk b (max (preAllowedAt bk) now) True = Inr rk1"
    "rank_inv p rk1" "open_rows rk1 = (open_rows rk)[b := NO_ROW]"
    "map colAllowedAt (banks rk1) = map colAllowedAt (banks rk)"
    "map bankgr (banks rk1) = map bankgr (banks rk)"
    "map actAllowedAt (banks rk1) = (map actAllowedAt (banks rk))
        [b := max (actAllowedAt (banks rk ! b)) (max (preAllowedAt bk) now + tRP p)]"
    using prechargeBank_ok [OF inv b False [unfolded bk_def] now] by (auto simp: bk_def)
  have l: "length (banks rk1) = length (banks rk)" using r(5) by (rule map_eq_imp_length_eq)
  have "actAllowedAt (banks rk1 ! b) = max (actAllowedAt bk) (max (preAllowedAt bk) now + tRP p)"
    using map_nth_eq [OF r(6)] b l by (simp add: bk_def)
  moreover have "colAllowedAt (banks rk1 ! b) = colAllowedAt bk"
    using map_nth_eq [OF r(4)] b l by (simp add: bk_def)
  moreover have "openRow (banks rk1 ! b) = NO_ROW"
    using map_nth_eq [OF r(3) [unfolded open_rows_def]] b l by simp
  ultimately show ?thesis using r False by (intro exI [of _ rk1]) (simp add: max.commute)
qed

lemma open_row_ok:
  assumes inv: "rank_inv p rk" and b: "dp_bank dp < length (banks rk)" and row: "dp_row dp \<noteq> NO_ROW"
  defines "bk \<equiv> banks rk ! dp_bank dp"
  shows "\<exists>rk' c. open_row p now off rk dp = Inr (rk', c) \<and> rank_inv p rk' \<and>
           open_rows rk' = (open_rows rk)[dp_bank dp := dp_row dp] \<and>
           map bankgr (banks rk') = map bankgr (banks rk) \<and>
           now \<le> c \<and> colAllowedAt bk \<le> c \<and>
           (openRow bk \<noteq> dp_row dp \<longrightarrow> max now (actAllowedAt bk) + tRCD p \<le> c) \<and>
           (openRow bk \<noteq> dp_row dp \<longrightarrow> openRow bk \<noteq> NO_ROW \<longrightarrow>
              max now (preAllowedAt bk) + tRP p + tRCD p \<le> c)"
proof (cases "openRow bk = dp_row dp")
  case True
  then show ?thesis
    using inv b by (auto simp: open_row_def bk_def Let_def open_rows_same)
next
  case False
  let ?b = "dp_bank dp"
  obtain rk1 where rk1: "(if openRow bk \<noteq> NO_ROW
               then prechargeBank p now off rk ?b (max (preAllowedAt bk) now) True
               else Inr rk) = Inr rk1" "rank_inv p rk1" "openRow (banks rk1 ! ?b) = NO_ROW"
      "open_rows rk1 = (open_rows rk)[?b := NO_ROW]" "map bankgr (banks rk1) = map bankgr (banks rk)"
      "colAllowedAt (banks rk1 ! ?b) = colAllowedAt bk" "actAllowedAt bk \<le> actAllowedAt (banks rk1 ! ?b)"
      "openRow bk \<noteq> NO_ROW \<longrightarrow> max now (preAllowedAt bk) + tRP p \<le> actAllowedAt (banks rk1 ! ?b)"
    using close_row_ok [OF inv b, of now off, folded bk_def] by blast
  let ?t = "max (actAllowedAt (banks rk1 ! ?b)) now"
  have b1: "?b < length (banks rk1)" using b map_eq_imp_length_eq [OF rk1(5)] by simp
  obtain rk2 where a: "activateBank p now off rk1 ?b ?t (dp_row dp) = Inr rk2" "rank_inv p rk2"
      "open_rows rk2 = (open_rows rk1)[?b := dp_row dp]"
      "map colAllowedAt (banks rk2) =
         (map colAllowedAt (banks rk1))[?b := max (?t + tRCD p) (colAllowedAt (banks rk1 ! ?b))]"
      "map bankgr (banks rk2) = map bankgr (banks rk1)"
    using activateBank_ok [OF rk1(2) b1 rk1(3) row, of ?t now] by auto
  have "length (banks rk2) = length (banks rk1)" using a(5) by (rule map_eq_imp_length_eq)
  then have c: "colAllowedAt (banks rk2 ! ?b) = max (?t + tRCD p) (colAllowedAt bk)"
    using map_nth_eq [OF a(4)] b1 rk1(6) by simp
  have "open_row p now off rk dp = Inr (rk2, colAllowedAt (banks rk2 ! ?b))"
    using rk1(1) a(1) False by (auto simp: open_row_def Let_def bk_def)
  moreover have "open_rows rk2 = (open_rows rk)[?b := dp_row dp]" using a(3) rk1(4) by simp
  ultimately show ?thesis using a(2,5) rk1(5,7,8) c by auto
qed

section \<open>Bursts\<close>

definition burst_inv :: "dram_params \<Rightarrow> burst_state \<Rightarrow> bool" where
  "burst_inv p st \<longleftrightarrow>
     length (bs_ranks st) = ranksPerChannel p \<and> (\<forall>rk \<in> set (bs_ranks st). rank_inv p rk) \<and>
     tRP p + tRCD p + tCL p \<le> bs_busBusyUntil st"

definition dp_wf :: "dram_params \<Rightarrow> dram_packet \<Rightarrow> bool" where
  "dp_wf p dp \<longleftrightarrow>
     dp_rank dp < ranksPerChannel p \<and> dp_bank dp < banksPerRank p \<and> dp_row dp \<noteq> NO_ROW \<and>
     bankId dp = banksPerRank p * dp_rank dp + dp_bank dp"

lemma push_col_frame:
  "open_rows (push_col p dp gr c j rk) = open_rows rk" "act_times (push_col p dp gr c j rk) = act_times rk"
  "length (banks (push_col p dp gr c j rk)) = length (banks rk)"
  "actTicks (push_col p dp gr c j rk) = actTicks rk"
  "numBanksActive (push_col p dp gr c j rk) = numBanksActive rk"
  "map bankgr (banks (push_col p dp gr c j rk)) = map bankgr (banks rk)"
  by (simp_all add: push_col_def open_rows_def act_times_def comp_def)

lemma push_col_inv: "rank_inv p rk \<Longrightarrow> rank_inv p (push_col q dp gr c j rk)"
  by (simp add: rank_inv_def push_col_frame)

lemma upd_bank_keep:
  assumes "b < length (banks rk)" and "openRow (f (banks rk ! b)) = openRow (banks rk ! b)"
    and "actAllowedAt (f (banks rk ! b)) = actAllowedAt (banks rk ! b)"
  shows "open_rows (upd_bank b f rk) = open_rows rk" "act_times (upd_bank b f rk) = act_times rk"
    "rank_inv p rk \<Longrightarrow> rank_inv p (upd_bank b f rk)"
proof -
  show o: "open_rows (upd_bank b f rk) = open_rows rk"
    using assms by (auto simp: open_rows_def nth_list_update intro: nth_equalityI)
  show t: "act_times (upd_bank b f rk) = act_times rk"
    using assms by (auto simp: act_times_def nth_list_update intro: nth_equalityI)
  show "rank_inv p rk \<Longrightarrow> rank_inv p (upd_bank b f rk)"
    by (simp add: rank_inv_def o t)
qed


text \<open>
  A burst: it always gets its slot, the assertion on the data bus holds, the slot starts no
  earlier than the end of the previous one, the column command respects the bank's
  earliest ticks, and the bank ends with the packet's row open, or closed again by the
  automatic precharge.
\<close>

lemma nth_push_ranks:
  "j < length rs \<Longrightarrow>
     map (\<lambda>(j, rk). push_col p dp gr c j rk) (enumerate 0 rs) ! j = push_col p dp gr c j (rs ! j)"
  by (simp add: nth_enumerate_eq)

lemma finish_rank_ok:
  assumes inv: "rank_inv p rk" and b: "b < length (banks rk)" and row: "openRow (banks rk ! b) \<noteq> NO_ROW"
  shows "\<exists>rk'. (if ap then prechargeBank p now off rk b (max now (preAllowedAt (banks rk ! b))) True
                else Inr rk) = Inr rk' \<and> rank_inv p rk' \<and>
              open_rows rk' = (if ap then (open_rows rk)[b := NO_ROW] else open_rows rk)"
proof (cases ap)
  case True
  have "now \<le> max now (preAllowedAt (banks rk ! b))" by simp
  from prechargeBank_ok [OF inv b row this, of off True] True show ?thesis by auto
qed (use inv in simp)

lemma burst_access_eq:
  assumes inv: "burst_inv p st" and wf: "dp_wf p dp"
  defines "r \<equiv> dp_rank dp" and "b \<equiv> dp_bank dp"
  shows "\<exists>rk col rk4. open_row p now off (bs_ranks st ! r) dp = Inr (rk, col) \<and>
     rank_inv p rk \<and> rank_inv p rk4 \<and>
     (\<exists>x \<in> {dp_row dp, NO_ROW}. open_rows rk4 = (open_rows rk)[b := x]) \<and>
     (let c = max col (tsub (bs_busBusyUntil st) (tCL p)); ready = c + tCL p + tBURST p in
      bs_busBusyUntil st + tBURST p \<le> ready \<and>
      burst_access p now off queue dp st =
        Inr (\<lparr>bs_ranks = (map (\<lambda>(j, rk'). push_col p dp (bankgr (banks rk ! b)) c j rk')
                             (enumerate 0 ((bs_ranks st)[r := rk])))
                          [r := power_cmd p off (if dp_isRead dp then RD else WR) b c rk4],
              bs_busBusyUntil = ready, bs_activeRank = r\<rparr>,
             dp\<lparr>dp_readyTime := ready\<rparr>, c))"
proof -
  let ?rs = "bs_ranks st"
  have r: "r < length ?rs" using inv wf by (simp add: burst_inv_def dp_wf_def r_def)
  have rinv: "rank_inv p (?rs ! r)" using inv r by (simp add: burst_inv_def)
  have b: "b < length (banks (?rs ! r))" using rinv wf by (simp add: dp_wf_def rank_inv_def b_def)
  have row: "dp_row dp \<noteq> NO_ROW" using wf by (simp add: dp_wf_def)
  obtain rk col where o: "open_row p now off (?rs ! r) dp = Inr (rk, col)" "rank_inv p rk"
      "open_rows rk = (open_rows (?rs ! r))[b := dp_row dp]"
    using open_row_ok [OF rinv b [unfolded b_def] row, of now off] by (auto simp: b_def)
  define c where "c = max col (tsub (bs_busBusyUntil st) (tCL p))"
  define ready where "ready = c + tCL p + tBURST p"
  have "tsub (bs_busBusyUntil st) (tCL p) = bs_busBusyUntil st - tCL p"
    using inv by (simp add: burst_inv_def tsub_le)
  then have "bs_busBusyUntil st - tCL p \<le> c" by (simp add: c_def)
  then have slot: "bs_busBusyUntil st + tBURST p \<le> ready" unfolding ready_def by linarith
  then have asrt: "tBURST p \<le> tsub ready (bs_busBusyUntil st)" by (simp add: tsub_le)
  let ?gr = "bankgr (banks rk ! b)"
  let ?rs2 = "map (\<lambda>(j, rk). push_col p dp ?gr c j rk) (enumerate 0 (?rs[r := rk]))"
  let ?rk3 = "upd_bank b (bump_bank p dp c ready) (?rs2 ! r)"
  have lrk: "b < length (banks rk)" using o(2) rinv b by (simp add: rank_inv_def)
  have rs2r: "?rs2 ! r = push_col p dp ?gr c r rk" using r by (subst nth_push_ranks) simp_all
  have rk3: "rank_inv p ?rk3" "open_rows ?rk3 = open_rows rk" "b < length (banks ?rk3)"
    using o(2) lrk by (simp_all add: rs2r upd_bank_keep bump_bank_def push_col_frame push_col_inv)
  have opn: "openRow (banks ?rk3 ! b) = dp_row dp"
    using rk3(2) o(3) b rk3(3) by (metis length_open_rows nth_list_update_eq open_rows_nth)
  let ?ap = "auto_precharge p (banks ?rk3 ! b) queue dp"
  obtain rk4 where f: "(if ?ap
        then prechargeBank p now off ?rk3 b (max now (preAllowedAt (banks ?rk3 ! b))) True
        else Inr ?rk3) = Inr rk4" "rank_inv p rk4"
      "open_rows rk4 = (if ?ap then (open_rows ?rk3)[b := NO_ROW] else open_rows ?rk3)"
    using finish_rank_ok [OF rk3(1,3), of ?ap now off] opn row by auto
  have "open_rows ?rk3 = (open_rows rk)[b := dp_row dp]" using rk3(2) o(3) by simp
  then have rows: "\<exists>x \<in> {dp_row dp, NO_ROW}. open_rows rk4 = (open_rows rk)[b := x]"
    using f(3) rk3(2) by (cases ?ap) simp_all
  have "burst_access p now off queue dp st =
      Inr (\<lparr>bs_ranks = ?rs2[r := power_cmd p off (if dp_isRead dp then RD else WR) b c rk4],
            bs_busBusyUntil = ready, bs_activeRank = r\<rparr>, dp\<lparr>dp_readyTime := ready\<rparr>, c)"
    unfolding burst_access_def Let_def r_def [symmetric] b_def [symmetric] o(1) bindE_simps prod.case
      c_def [symmetric] ready_def [symmetric] f(1) using asrt by (simp add: assertE_holds)
  then show ?thesis
    using o(1,2) f(2) rows slot unfolding Let_def ready_def c_def
    by (intro exI [of _ rk] exI [of _ col] exI [of _ rk4] conjI)
qed

lemma burst_access_ok:
  assumes inv: "burst_inv p st" and wf: "dp_wf p dp"
  defines "bk \<equiv> banks (bs_ranks st ! dp_rank dp) ! dp_bank dp"
  shows "\<exists>st' dp' c. burst_access p now off queue dp st = Inr (st', dp', c) \<and> burst_inv p st' \<and>
           bs_busBusyUntil st' = c + tCL p + tBURST p \<and> bs_activeRank st' = dp_rank dp \<and>
           dp' = dp\<lparr>dp_readyTime := bs_busBusyUntil st'\<rparr> \<and>
           bs_busBusyUntil st + tBURST p \<le> bs_busBusyUntil st' \<and>
           now \<le> c \<and> colAllowedAt bk \<le> c \<and>
           (openRow bk \<noteq> dp_row dp \<longrightarrow> max now (actAllowedAt bk) + tRCD p \<le> c) \<and>
           (openRow bk \<noteq> dp_row dp \<longrightarrow> openRow bk \<noteq> NO_ROW \<longrightarrow>
              max now (preAllowedAt bk) + tRP p + tRCD p \<le> c) \<and>
           (\<forall>j < length (bs_ranks st). j \<noteq> dp_rank dp \<longrightarrow>
              open_rows (bs_ranks st' ! j) = open_rows (bs_ranks st ! j)) \<and>
           (\<exists>x \<in> {dp_row dp, NO_ROW}. open_rows (bs_ranks st' ! dp_rank dp) =
              (open_rows (bs_ranks st ! dp_rank dp))[dp_bank dp := x])"
proof -
  let ?r = "dp_rank dp" and ?b = "dp_bank dp" and ?rs = "bs_ranks st"
  have r: "?r < length ?rs" using inv wf by (simp add: burst_inv_def dp_wf_def)
  have rinv: "rank_inv p (?rs ! ?r)" using inv r by (simp add: burst_inv_def)
  have b: "?b < length (banks (?rs ! ?r))" using rinv wf by (simp add: dp_wf_def rank_inv_def)
  have row: "dp_row dp \<noteq> NO_ROW" using wf by (simp add: dp_wf_def)
  obtain rk col rk4 x where e: "open_row p now off (?rs ! ?r) dp = Inr (rk, col)"
      "rank_inv p rk" "rank_inv p rk4" "x \<in> {dp_row dp, NO_ROW}" "open_rows rk4 = (open_rows rk)[?b := x]"
    and ex: "let c = max col (tsub (bs_busBusyUntil st) (tCL p)); ready = c + tCL p + tBURST p in
      bs_busBusyUntil st + tBURST p \<le> ready \<and>
      burst_access p now off queue dp st =
        Inr (\<lparr>bs_ranks = (map (\<lambda>(j, rk'). push_col p dp (bankgr (banks rk ! ?b)) c j rk')
                             (enumerate 0 (?rs[?r := rk])))
                          [?r := power_cmd p off (if dp_isRead dp then RD else WR) ?b c rk4],
              bs_busBusyUntil = ready, bs_activeRank = ?r\<rparr>, dp\<lparr>dp_readyTime := ready\<rparr>, c)"
    using burst_access_eq [OF inv wf, of now off queue] by blast
  have col: "open_rows rk = (open_rows (?rs ! ?r))[?b := dp_row dp]" "now \<le> col" "colAllowedAt bk \<le> col"
      "openRow bk \<noteq> dp_row dp \<longrightarrow> max now (actAllowedAt bk) + tRCD p \<le> col"
      "openRow bk \<noteq> dp_row dp \<longrightarrow> openRow bk \<noteq> NO_ROW \<longrightarrow> max now (preAllowedAt bk) + tRP p + tRCD p \<le> col"
    using open_row_ok [OF rinv b row, of now off, folded bk_def] e(1) by auto
  define c where "c = max col (tsub (bs_busBusyUntil st) (tCL p))"
  let ?ready = "c + tCL p + tBURST p"
  let ?rs2 = "map (\<lambda>(j, rk'). push_col p dp (bankgr (banks rk ! ?b)) c j rk') (enumerate 0 (?rs[?r := rk]))"
  let ?rk5 = "power_cmd p off (if dp_isRead dp then RD else WR) ?b c rk4"
  let ?st' = "\<lparr>bs_ranks = ?rs2[?r := ?rk5], bs_busBusyUntil = ?ready, bs_activeRank = ?r\<rparr>"
  have eq: "burst_access p now off queue dp st = Inr (?st', dp\<lparr>dp_readyTime := ?ready\<rparr>, c)"
    and slot: "bs_busBusyUntil st + tBURST p \<le> ?ready"
    using ex by (simp_all add: Let_def c_def)
  have nth: "(?rs2[?r := ?rk5]) ! j =
      (if j = ?r then ?rk5 else push_col p dp (bankgr (banks rk ! ?b)) c j (?rs ! j))"
    if "j < length ?rs" for j
    using that r by (auto simp: nth_enumerate_eq)
  have "rank_inv p ((?rs2[?r := ?rk5]) ! j)" if "j < length ?rs" for j
    using that e(3) inv nth [OF that] by (auto simp: burst_inv_def push_col_inv)
  then have "burst_inv p ?st'"
    using inv slot by (auto simp: burst_inv_def in_set_conv_nth)
  moreover have "open_rows ((?rs2[?r := ?rk5]) ! j) = open_rows (?rs ! j)" if "j < length ?rs" "j \<noteq> ?r" for j
    using nth [OF that(1)] that(2) by (simp add: push_col_frame)
  moreover have "open_rows ((?rs2[?r := ?rk5]) ! ?r) = (open_rows (?rs ! ?r))[?b := x]"
    using nth [OF r] e(5) col(1) by (simp add: open_rows_def)
  moreover have "col \<le> c" by (simp add: c_def)
  ultimately show ?thesis
    using eq slot col(2-5) e(4)
    by (intro exI [of _ ?st'] exI [of _ "dp\<lparr>dp_readyTime := ?ready\<rparr>"] exI [of _ c]) auto
qed

end
