(* ===== verification/Int_Math.thy ===== *)
theory Int_Math
  imports Prelude
begin

text \<open>
  Bit fields and integer logarithms: \<^verbatim>\<open>src/gem5/src/base/bitfield.hh\<close> and
  \<^verbatim>\<open>src/gem5/src/base/intmath.hh\<close>, at 64 bits. The masks of the binary searches are the
  literals of the source.
\<close>

unbundle bit_operations_syntax

section \<open>Bit fields\<close>

definition mask_bits :: "nat \<Rightarrow> u64" where
  "mask_bits nbits = (if nbits = 64 then - 1 else push_bit nbits 1 - 1)"

definition bits :: "u64 \<Rightarrow> nat \<Rightarrow> nat \<Rightarrow> u64" where
  "bits val hi lo = drop_bit lo val AND mask_bits (hi - lo + 1)"

definition mbits :: "u64 \<Rightarrow> nat \<Rightarrow> nat \<Rightarrow> u64" where
  "mbits val hi lo = val AND (mask_bits (hi + 1) AND NOT (mask_bits lo))"

definition insertBits :: "u64 \<Rightarrow> nat \<Rightarrow> nat \<Rightarrow> u64 \<Rightarrow> u64" where
  "insertBits val hi lo bit_val =
     (let bmask = push_bit lo (mask_bits (hi - lo + 1))
      in (push_bit lo bit_val AND bmask) OR (val AND NOT bmask))"

definition sext :: "nat \<Rightarrow> u64 \<Rightarrow> u64" where
  "sext N val = (if bits val (N - 1) (N - 1) \<noteq> 0 then val OR NOT (mask_bits N) else val)"

lemma mask_bits_eq: "n \<le> 64 \<Longrightarrow> mask_bits n = mask n"
  by (auto simp: mask_bits_def mask_eq_exp_minus_1 push_bit_eq_mult)

lemma bit_mask_bits: "n \<le> 64 \<Longrightarrow> bit (mask_bits n) i \<longleftrightarrow> i < n"
  by (auto simp: mask_bits_eq bit_mask_iff)

lemma bits_take_bit:
  assumes "lo \<le> hi" and "hi < 64"
  shows "bits val hi lo = take_bit (Suc (hi - lo)) (drop_bit lo val)"
  using assms by (simp add: bits_def mask_bits_eq take_bit_eq_mask)

lemma bits_single: "i < 64 \<Longrightarrow> bits val i i \<noteq> 0 \<longleftrightarrow> bit val i"
  by (simp add: bits_take_bit take_bit_Suc bit_iff_odd_drop_bit mod_2_eq_odd)

lemma bit_insertBits:
  assumes "lo \<le> hi" and "hi < 64" and "i < 64"
  shows "bit (insertBits val hi lo v) i \<longleftrightarrow>
           (if lo \<le> i \<and> i \<le> hi then bit v (i - lo) else bit val i)"
  using assms
  by (auto simp: insertBits_def Let_def bit_and_iff bit_or_iff bit_not_iff bit_push_bit_iff bit_mask_bits)

lemma bits_insertBits:
  assumes "lo \<le> hi" and "hi < 64"
  shows "bits (insertBits val hi lo v) hi lo = take_bit (Suc (hi - lo)) v"
proof (rule bit_word_eqI)
  fix i assume "i < LENGTH(64)"
  then show "bit (bits (insertBits val hi lo v) hi lo) i =
             bit (take_bit (Suc (hi - lo)) v) i"
    using assms bit_insertBits [of lo hi "i + lo" val v]
    by (cases "i \<le> hi - lo")
      (auto simp: bits_take_bit bit_take_bit_iff bit_drop_bit_eq add.commute less_Suc_eq_le le_diff_conv2)
qed

section \<open>Powers of two\<close>

definition leastSigBit :: "u64 \<Rightarrow> u64" where
  "leastSigBit n = n AND NOT (n - 1)"

definition isPowerOf2 :: "u64 \<Rightarrow> bool" where
  "isPowerOf2 n \<longleftrightarrow> n \<noteq> 0 \<and> leastSigBit n = n"

definition isPow2 :: "u64 \<Rightarrow> bool" where
  "isPow2 v \<longleftrightarrow> v AND (v - 1) = 0"

definition floorLog2 :: "u64 \<Rightarrow> nat res" where
  "floorLog2 x0 =
     assertE ''x > 0'' (x0 > 0)
     (let y0 = 0;
          (y1, x1) = (if x0 AND 0xffffffff00000000 \<noteq> 0 then (y0 + 32, drop_bit 32 x0) else (y0, x0));
          (y2, x2) = (if x1 AND 0x00000000ffff0000 \<noteq> 0 then (y1 + 16, drop_bit 16 x1) else (y1, x1));
          (y3, x3) = (if x2 AND 0x000000000000ff00 \<noteq> 0 then (y2 + 8, drop_bit 8 x2) else (y2, x2));
          (y4, x4) = (if x3 AND 0x00000000000000f0 \<noteq> 0 then (y3 + 4, drop_bit 4 x3) else (y3, x3));
          (y5, x5) = (if x4 AND 0x000000000000000c \<noteq> 0 then (y4 + 2, drop_bit 2 x4) else (y4, x4))
      in Inr (if x5 AND 0x0000000000000002 \<noteq> 0 then y5 + 1 else y5))"

definition ceilLog2 :: "u64 \<Rightarrow> nat res" where
  "ceilLog2 n = (if n = 1 then Inr 0 else bindE (floorLog2 (n - 1)) (\<lambda>y. Inr (y + 1)))"

definition roundUp :: "u64 \<Rightarrow> u64 \<Rightarrow> u64" where
  "roundUp val align = (val + (align - 1)) AND NOT (align - 1)"

definition roundDown :: "u64 \<Rightarrow> u64 \<Rightarrow> u64" where
  "roundDown val align = val AND NOT (align - 1)"

definition findMsbSet :: "u64 \<Rightarrow> nat" where
  "findMsbSet v0 =
     (if v0 = 0 then 0
      else let (m1, v1) = (if bits v0 63 32 \<noteq> 0 then (32, drop_bit 32 v0) else (0, v0));
               (m2, v2) = (if bits v1 31 16 \<noteq> 0 then (m1 + 16, drop_bit 16 v1) else (m1, v1));
               (m3, v3) = (if bits v2 15 8 \<noteq> 0 then (m2 + 8, drop_bit 8 v2) else (m2, v2));
               (m4, v4) = (if bits v3 7 4 \<noteq> 0 then (m3 + 4, drop_bit 4 v3) else (m3, v3));
               (m5, v5) = (if bits v4 3 2 \<noteq> 0 then (m4 + 2, drop_bit 2 v4) else (m4, v4))
           in if bits v5 1 1 \<noteq> 0 then m5 + 1 else m5)"

text \<open>
  The searches keep the quotient of the argument by the power of two found so far, and
  halve its width: a field test compares the quotient with the threshold.
\<close>

lemma nat_field:
  "(n :: nat) AND push_bit k (mask k) = push_bit k (take_bit k (drop_bit k n))"
  by (rule bit_eqI) (auto simp: bit_and_iff bit_push_bit_iff bit_mask_iff bit_take_bit_iff bit_drop_bit_eq)

lemma nat_field_nonzero_iff:
  assumes "(n :: nat) < 2 ^ (k + k)"
  shows "n AND push_bit k (mask k) \<noteq> 0 \<longleftrightarrow> 2 ^ k \<le> n"
proof -
  have "n div 2 ^ k < 2 ^ k" using assms by (simp add: power_add less_mult_imp_div_less)
  then have "take_bit k (drop_bit k n) = n div 2 ^ k"
    by (simp add: drop_bit_eq_div take_bit_eq_mod)
  moreover have "n div 2 ^ k = 0 \<longleftrightarrow> n < 2 ^ k" by (simp add: div_eq_0_iff)
  ultimately show ?thesis unfolding nat_field by (simp add: push_bit_eq_mult not_less)
qed

lemma word_field_nonzero_iff:
  assumes "unat (x :: u64) < 2 ^ (k + k)" and "unat m = push_bit k (mask k)"
  shows "x AND m \<noteq> 0 \<longleftrightarrow> 2 ^ k \<le> unat x"
proof -
  have "x AND m \<noteq> 0 \<longleftrightarrow> unat (x AND m) \<noteq> 0" by (simp only: unsigned_eq_0_iff simp_thms)
  also have "unat (x AND m) = unat x AND push_bit k (mask k)"
    by (simp add: unsigned_and_eq assms(2))
  finally show ?thesis using nat_field_nonzero_iff [OF assms(1)] by simp
qed

definition log_inv :: "u64 \<Rightarrow> nat \<Rightarrow> nat \<times> u64 \<Rightarrow> bool" where
  "log_inv x0 w s \<longleftrightarrow>
     unat x0 div 2 ^ fst s = unat (snd s) \<and> 0 < unat (snd s) \<and> unat (snd s) < 2 ^ w"

lemma halve_step:
  assumes "log_inv x0 (k + k) (y, x)" and "c \<longleftrightarrow> 2 ^ k \<le> unat x"
  shows "log_inv x0 k (if c then (y + k, drop_bit k x) else (y, x))"
proof -
  have x: "unat x0 div 2 ^ y = unat x" "0 < unat x" "unat x < 2 ^ (k + k)"
    using assms(1) by (simp_all add: log_inv_def)
  show ?thesis
  proof (cases "2 ^ k \<le> unat x")
    case True
    have "unat x div 2 ^ k < 2 ^ k" using x(3) by (simp add: power_add less_mult_imp_div_less)
    moreover have "0 < unat x div 2 ^ k" using True by (simp add: div_greater_zero_iff)
    moreover have "unat x0 div 2 ^ (y + k) = unat x div 2 ^ k"
      using x(1) by (simp add: power_add div_mult2_eq)
    moreover have "unat (drop_bit k x) = unat x div 2 ^ k"
      by (subst unat_drop_bit_eq) (rule drop_bit_eq_div)
    ultimately show ?thesis
      using True assms(2) by (simp add: log_inv_def)
  next
    case False
    then show ?thesis using assms(2) x by (simp add: log_inv_def)
  qed
qed

lemma log_step:
  assumes "log_inv x0 (k + k) (y, x)" and "unat m = push_bit k (mask k)"
  shows "log_inv x0 k (if x AND m \<noteq> 0 then (y + k, drop_bit k x) else (y, x))"
  using assms by (intro halve_step word_field_nonzero_iff) (auto simp: log_inv_def)

lemma bits_test:
  assumes "log_inv x0 (k + k) (y, x)" and "k + k \<le> 64" and "0 < k"
  shows "bits x (k + k - 1) k \<noteq> 0 \<longleftrightarrow> 2 ^ k \<le> unat x"
proof -
  have x: "unat x < 2 ^ (k + k)" using assms(1) by (simp add: log_inv_def)
  have d: "unat x div 2 ^ k < 2 ^ k" using x by (simp add: power_add less_mult_imp_div_less)
  have "bits x (k + k - 1) k = take_bit k (drop_bit k x)"
    using assms(2,3) by (subst bits_take_bit) (auto simp: Suc_diff_le)
  then have "unat (bits x (k + k - 1) k) = take_bit k (drop_bit k (unat x))"
    by (simp only: unat_drop_bit_eq unsigned_take_bit_eq)
  also have "\<dots> = unat x div 2 ^ k" using d by (simp add: drop_bit_eq_div take_bit_eq_mod)
  finally have "unat (bits x (k + k - 1) k) = 0 \<longleftrightarrow> unat x < 2 ^ k" by (simp add: div_eq_0_iff)
  then show ?thesis unfolding unsigned_eq_0_iff by (simp add: not_less)
qed

lemma bits_step:
  assumes "log_inv x0 (k + k) (y, x)" and "k + k \<le> 64" and "0 < k" and "h = k + k - 1"
  shows "log_inv x0 k (if bits x h k \<noteq> 0 then (y + k, drop_bit k x) else (y, x))"
  unfolding assms(4) using assms(1-3) by (intro halve_step bits_test)

lemma log_final:
  assumes "log_inv x0 1 (y, x)"
  shows "2 ^ y \<le> unat x0 \<and> unat x0 < 2 ^ Suc y"
proof -
  have "unat x0 div 2 ^ y = 1" using assms by (simp add: log_inv_def)
  then have "unat x0 = 2 ^ y + unat x0 mod 2 ^ y"
    using div_mult_mod_eq [of "unat x0" "2 ^ y"] by simp
  moreover have "unat x0 mod 2 ^ y < 2 ^ y" by simp
  ultimately show ?thesis unfolding power_Suc by linarith
qed

lemma floorLog2_correct:
  assumes "0 < x"
  shows "\<exists>y. floorLog2 x = Inr y \<and> 2 ^ y \<le> unat x \<and> unat x < 2 ^ Suc y"
proof -
  define s1 where "s1 = (if x AND 0xffffffff00000000 \<noteq> 0 then (0 + 32, drop_bit 32 x) else (0 :: nat, x))"
  define s2 where "s2 = (if snd s1 AND 0x00000000ffff0000 \<noteq> 0 then (fst s1 + 16, drop_bit 16 (snd s1)) else (fst s1, snd s1))"
  define s3 where "s3 = (if snd s2 AND 0x000000000000ff00 \<noteq> 0 then (fst s2 + 8, drop_bit 8 (snd s2)) else (fst s2, snd s2))"
  define s4 where "s4 = (if snd s3 AND 0x00000000000000f0 \<noteq> 0 then (fst s3 + 4, drop_bit 4 (snd s3)) else (fst s3, snd s3))"
  define s5 where "s5 = (if snd s4 AND 0x000000000000000c \<noteq> 0 then (fst s4 + 2, drop_bit 2 (snd s4)) else (fst s4, snd s4))"
  define s6 where "s6 = (if snd s5 AND 0x0000000000000002 \<noteq> 0 then (fst s5 + 1, drop_bit 1 (snd s5)) else (fst s5, snd s5))"
  note m = push_bit_eq_mult mask_eq_exp_minus_1
  have "log_inv x 64 (0, x)" using assms unat_u64_less [of x] by (simp add: log_inv_def word_less_nat_alt)
  then have "log_inv x 32 s1" unfolding s1_def by (intro log_step) (simp_all add: m)
  then have "log_inv x 16 s2" unfolding s2_def by (intro log_step) (simp_all add: m)
  then have "log_inv x 8 s3" unfolding s3_def by (intro log_step) (simp_all add: m)
  then have "log_inv x 4 s4" unfolding s4_def by (intro log_step) (simp_all add: m)
  then have "log_inv x 2 s5" unfolding s5_def by (intro log_step) (simp_all add: m)
  then have "log_inv x (1 + 1) s5" by (simp only: one_add_one)
  then have "log_inv x 1 s6" unfolding s6_def by (intro log_step) (simp_all only: prod.collapse, simp add: m)
  then have "2 ^ fst s6 \<le> unat x \<and> unat x < 2 ^ Suc (fst s6)" using log_final by (cases s6) simp
  moreover have "floorLog2 x = Inr (if snd s5 AND 0x0000000000000002 \<noteq> 0 then fst s5 + 1 else fst s5)"
    unfolding floorLog2_def Let_def case_prod_beta s1_def [symmetric] s2_def [symmetric] s3_def [symmetric]
      s4_def [symmetric] s5_def [symmetric] using assms by (rule assertE_holds)
  then have "floorLog2 x = Inr (fst s6)" by (simp add: s6_def)
  ultimately show ?thesis by blast
qed

lemma unat_pred: "0 < (n :: u64) \<Longrightarrow> unat (n - 1) = unat n - 1"
  by (metis One_nat_def unat_minus_one word_gt_0)

lemma ceilLog2_correct:
  assumes "0 < n"
  shows "\<exists>y. ceilLog2 n = Inr y \<and> unat n \<le> 2 ^ y \<and> (0 < y \<longrightarrow> 2 ^ (y - 1) < unat n)"
proof (cases "n = 1")
  case True
  then show ?thesis by (simp add: ceilLog2_def)
next
  case False
  have u: "unat (n - 1) = unat n - 1" using assms by (rule unat_pred)
  have "0 < n - 1" using assms False by (metis diff_eq_eq word_gt_0 add.left_neutral)
  then obtain y where "floorLog2 (n - 1) = Inr y" "2 ^ y \<le> unat (n - 1)" "unat (n - 1) < 2 ^ Suc y"
    using floorLog2_correct by blast
  then show ?thesis using False u by (auto simp: ceilLog2_def)
qed


text \<open>Two quotients of width one determine the same logarithm.\<close>

lemma log_unique:
  assumes "2 ^ y \<le> (n :: nat)" "n < 2 ^ Suc y" "2 ^ z \<le> n" "n < 2 ^ Suc z"
  shows "y = z"
proof -
  have "(2 :: nat) ^ y < 2 ^ Suc z" "(2 :: nat) ^ z < 2 ^ Suc y" using assms by linarith+
  then have "y < Suc z" "z < Suc y"
    using power_less_imp_less_exp [of "2 :: nat" y "Suc z"] power_less_imp_less_exp [of "2 :: nat" z "Suc y"]
    by simp_all
  then show ?thesis by simp
qed

lemma findMsbSet_correct:
  assumes "0 < x"
  shows "2 ^ findMsbSet x \<le> unat x \<and> unat x < 2 ^ Suc (findMsbSet x)"
proof -
  define s1 where "s1 = (if bits x 63 32 \<noteq> 0 then (32, drop_bit 32 x) else (0 :: nat, x))"
  define s2 where "s2 = (if bits (snd s1) 31 16 \<noteq> 0 then (fst s1 + 16, drop_bit 16 (snd s1)) else (fst s1, snd s1))"
  define s3 where "s3 = (if bits (snd s2) 15 8 \<noteq> 0 then (fst s2 + 8, drop_bit 8 (snd s2)) else (fst s2, snd s2))"
  define s4 where "s4 = (if bits (snd s3) 7 4 \<noteq> 0 then (fst s3 + 4, drop_bit 4 (snd s3)) else (fst s3, snd s3))"
  define s5 where "s5 = (if bits (snd s4) 3 2 \<noteq> 0 then (fst s4 + 2, drop_bit 2 (snd s4)) else (fst s4, snd s4))"
  define s6 where "s6 = (if bits (snd s5) 1 1 \<noteq> 0 then (fst s5 + 1, drop_bit 1 (snd s5)) else (fst s5, snd s5))"
  have "log_inv x 64 (0, x)" using assms unat_u64_less [of x] by (simp add: log_inv_def word_less_nat_alt)
  then have "log_inv x 32 s1" unfolding s1_def using bits_step [of x 32 0 x 63] by (simp split: if_splits)
  then have "log_inv x 16 s2" unfolding s2_def by (intro bits_step) simp_all
  then have "log_inv x 8 s3" unfolding s3_def by (intro bits_step) simp_all
  then have "log_inv x 4 s4" unfolding s4_def by (intro bits_step) simp_all
  then have "log_inv x 2 s5" unfolding s5_def by (intro bits_step) simp_all
  then have "log_inv x (1 + 1) s5" by (simp only: one_add_one)
  then have "log_inv x 1 s6" unfolding s6_def using bits_step [of x 1 "fst s5" "snd s5" 1] by simp
  then have "2 ^ fst s6 \<le> unat x \<and> unat x < 2 ^ Suc (fst s6)" using log_final by (cases s6) simp
  moreover have "findMsbSet x = (if bits (snd s5) 1 1 \<noteq> 0 then fst s5 + 1 else fst s5)"
    unfolding findMsbSet_def Let_def case_prod_beta s1_def [symmetric] s2_def [symmetric] s3_def [symmetric]
      s4_def [symmetric] s5_def [symmetric] using assms by (intro if_not_P) auto
  then have "findMsbSet x = fst s6" by (simp add: s6_def)
  ultimately show ?thesis by simp
qed

lemma bit_top:
  assumes "2 ^ y \<le> unat (x :: u64)" and "unat x < 2 ^ Suc y"
  shows "bit x y"
proof -
  have "unat x div 2 ^ y = 1" using assms by (intro div_nat_eqI) simp_all
  then have "bit (unat x) y" by (simp add: bit_iff_odd)
  then show ?thesis by (simp add: bit_unsigned_iff)
qed

lemma isPow2_iff:
  assumes "0 < (n :: u64)"
  shows "n AND (n - 1) = 0 \<longleftrightarrow> (\<exists>k < 64. n = 2 ^ k)"
proof
  obtain y where y: "2 ^ y \<le> unat n" "unat n < 2 ^ Suc y" using floorLog2_correct [OF assms] by blast
  have "(2 :: nat) ^ y < 2 ^ 64" using y(1) unat_u64_less [of n] by simp
  then have y64: "y < 64" using power_less_imp_less_exp [of "2 :: nat" y 64] by simp
  have u: "unat (n - 1) = unat n - 1" using assms by (rule unat_pred)
  assume z: "n AND (n - 1) = 0"
  have "unat n = 2 ^ y"
  proof (rule ccontr)
    assume "unat n \<noteq> 2 ^ y"
    then have "2 ^ y \<le> unat (n - 1)" "unat (n - 1) < 2 ^ Suc y" using y u by auto
    then have "bit (n - 1) y" "bit n y" using y bit_top by blast+
    then have "bit (n AND (n - 1)) y" by (simp add: bit_and_iff)
    then show False using z by simp
  qed
  moreover have "word_of_nat (unat n) = n" by simp
  ultimately have "n = 2 ^ y" by simp
  then show "\<exists>k < 64. n = 2 ^ k" using y64 by blast
next
  assume "\<exists>k < 64. n = 2 ^ k"
  then obtain k where "k < 64" "n = 2 ^ k" by blast
  then show "n AND (n - 1) = 0"
    by (intro bit_word_eqI) (auto simp: bit_and_iff bit_exp_iff bit_mask_iff simp flip: mask_eq_exp_minus_1)
qed

section \<open>Properties\<close>

text \<open>Writing a bit field and reading it back gives the value truncated to the width of
  the field, and every bit outside the field is kept.\<close>

theorem bitfield_roundtrip:
  assumes "lo \<le> hi" and "hi < 64"
  shows "bits (insertBits val hi lo v) hi lo = take_bit (Suc (hi - lo)) v \<and>
         (\<forall>i < 64. i < lo \<or> hi < i \<longrightarrow> bit (insertBits val hi lo v) i = bit val i)"
  using bits_insertBits [OF assms] bit_insertBits [OF assms] by auto

text \<open>The binary logarithms computed by halving the width are exact: \<^verbatim>\<open>floorLog2\<close> and
  \<^verbatim>\<open>findMsbSet\<close> give the position of the highest set bit, \<^verbatim>\<open>ceilLog2\<close> the least exponent
  whose power is not below the argument; none of them fails on a positive argument.\<close>

theorem logarithms_exact:
  assumes "0 < x"
  shows "floorLog2 x = Inr (findMsbSet x) \<and> 2 ^ findMsbSet x \<le> unat x \<and> unat x < 2 ^ Suc (findMsbSet x) \<and>
         (\<exists>y. ceilLog2 x = Inr y \<and> unat x \<le> 2 ^ y \<and> (0 < y \<longrightarrow> 2 ^ (y - 1) < unat x))"
proof -
  obtain y where y: "floorLog2 x = Inr y" "2 ^ y \<le> unat x" "unat x < 2 ^ Suc y"
    using floorLog2_correct [OF assms] by blast
  note f = findMsbSet_correct [OF assms]
  have e: "y = findMsbSet x" using log_unique [OF y(2,3)] f by blast
  show ?thesis unfolding y(1) e using f ceilLog2_correct [OF assms] by (intro conjI refl) blast+
qed

end
