(* ===== verification/DRAM_Sched.thy ===== *)
theory DRAM_Sched
  imports DRAM_Bank Int_Math
begin

text \<open>
  Request scheduling of the DRAM controllers: \<^verbatim>\<open>DRAMCtrl::chooseNext\<close>,
  \<^verbatim>\<open>reorderQueue\<close>, \<^verbatim>\<open>reorderQueueCPUPrio\<close> and \<^verbatim>\<open>minBankPrep\<close> of
  \<^verbatim>\<open>src/gem5/src/mem/dram_ctrl.cc\<close>. A scheduling decision moves the chosen packet to the
  head of its queue and says whether one was found. The decision reads the ranks and the
  time the data bus is free; an iterator into the queue is a position.
\<close>

section \<open>The operations\<close>

record sched_env =
  se_now :: tick
  se_ranks :: "rank list"
  se_busBusyUntil :: tick

definition pkt_avail :: "sched_env \<Rightarrow> dram_packet \<Rightarrow> bool" where
  "pkt_avail E dp = isAvailable (se_ranks E ! dp_rank dp)"

definition pkt_bank :: "sched_env \<Rightarrow> dram_packet \<Rightarrow> bank" where
  "pkt_bank E dp = banks (se_ranks E ! dp_rank dp) ! dp_bank dp"

definition is_cpu :: "dram_packet \<Rightarrow> bool" where
  "is_cpu dp \<longleftrightarrow> contextId dp \<noteq> 31"

text \<open>\<^verbatim>\<open>minBankPrep\<close>: the banks that can be made ready first, as a bit mask.\<close>

record bank_prep =
  bank_mask :: u64
  min_act_at :: tick
  found_seamless_bank :: bool
  hidden_bank_prep :: bool

definition got_waiting :: "sched_env \<Rightarrow> dram_packet list \<Rightarrow> nat \<Rightarrow> bool" where
  "got_waiting E queue bank_id = list_ex (\<lambda>dp. pkt_avail E dp \<and> bankId dp = bank_id) queue"

definition bank_act_at :: "dram_params \<Rightarrow> sched_env \<Rightarrow> bank \<Rightarrow> tick" where
  "bank_act_at p E bk =
     (if openRow bk = NO_ROW then max (actAllowedAt bk) (se_now E)
      else max (preAllowedAt bk) (se_now E) + tRP p)"

definition prep_step ::
  "dram_params \<Rightarrow> sched_env \<Rightarrow> dram_packet list \<Rightarrow> tick \<Rightarrow> nat \<times> nat \<Rightarrow> bank_prep \<Rightarrow> bank_prep res" where
  "prep_step p E queue min_col_at ij s =
     (let (i, j) = ij;
          bank_id = (i * banksPerRank p + j) mod 2 ^ 16;
          hidden_act_max = max (tsub min_col_at (tRCD p)) (se_now E)
      in
      if got_waiting E queue bank_id then
        assertE ''ranks[i]->isAvailable()'' (isAvailable (se_ranks E ! i))
        (let bk = banks (se_ranks E ! i) ! j;
             act_at = bank_act_at p E bk;
             col_at = max (colAllowedAt bk) (act_at + tRCD p);
             new_seamless_bank = (col_at \<le> min_col_at)
         in Inr (if new_seamless_bank \<or> (\<not> found_seamless_bank s \<and> act_at \<le> min_act_at s) then
                   let s1 = (if \<not> found_seamless_bank s \<and> (new_seamless_bank \<or> act_at < min_act_at s)
                             then s\<lparr>bank_mask := 0\<rparr> else s)
                   in s1\<lparr>found_seamless_bank := found_seamless_bank s \<or> new_seamless_bank,
                         hidden_bank_prep := (act_at \<le> hidden_act_max),
                         bank_mask := insertBits (bank_mask s1) bank_id bank_id 1,
                         min_act_at := act_at\<rparr>
                 else s))
      else Inr s)"

fun prep_loop ::
  "dram_params \<Rightarrow> sched_env \<Rightarrow> dram_packet list \<Rightarrow> tick \<Rightarrow> (nat \<times> nat) list \<Rightarrow> bank_prep \<Rightarrow> bank_prep res" where
  "prep_loop p E queue m [] s = Inr s"
| "prep_loop p E queue m (ij # ijs) s =
     bindE (prep_step p E queue m ij s) (\<lambda>s'. prep_loop p E queue m ijs s')"

definition bank_ids :: "dram_params \<Rightarrow> (nat \<times> nat) list" where
  "bank_ids p = List.product [0 ..< ranksPerChannel p] [0 ..< banksPerRank p]"

definition prep_init :: bank_prep where
  "prep_init = \<lparr>bank_mask = 0, min_act_at = MaxTick, found_seamless_bank = False, hidden_bank_prep = False\<rparr>"

definition minBankPrep ::
  "dram_params \<Rightarrow> sched_env \<Rightarrow> dram_packet list \<Rightarrow> tick \<Rightarrow> (u64 \<times> bool) res" where
  "minBankPrep p E queue min_col_at =
     bindE (prep_loop p E queue min_col_at (bank_ids p) prep_init)
       (\<lambda>s. Inr (bank_mask s, hidden_bank_prep s))"

text \<open>The scan of \<^verbatim>\<open>reorderQueue\<close>; \<open>i\<close> is the position of the head of the rest of the queue.\<close>

record scan =
  sel :: "nat option"
  earliest_banks :: u64
  hidden_prep :: bool
  found_hidden_bank :: bool
  found_prepped_pkt :: bool
  found_earliest_pkt :: bool
  found_seamless_pkt :: bool
  found_prepped_cpu_pkt :: bool
  found_earliest_cpu_pkt :: bool

definition scan_init :: scan where
  "scan_init = \<lparr>sel = None, earliest_banks = 0, hidden_prep = False, found_hidden_bank = False,
     found_prepped_pkt = False, found_earliest_pkt = False, found_seamless_pkt = False,
     found_prepped_cpu_pkt = False, found_earliest_cpu_pkt = False\<rparr>"

definition load_prep :: "(u64 \<times> bool) res \<Rightarrow> scan \<Rightarrow> scan res" where
  "load_prep prep s =
     (if earliest_banks s = 0 then
        bindE prep (\<lambda>(m, h). Inr (s\<lparr>earliest_banks := m, hidden_prep := h\<rparr>))
      else Inr s)"

definition take_earliest :: "nat \<Rightarrow> scan \<Rightarrow> scan" where
  "take_earliest i s =
     s\<lparr>found_earliest_pkt := True, found_hidden_bank := hidden_prep s,
       sel := (if hidden_prep s \<or> \<not> found_prepped_pkt s then Some i else sel s)\<rparr>"

fun reorder_scan ::
  "sched_env \<Rightarrow> tick \<Rightarrow> (u64 \<times> bool) res \<Rightarrow> nat \<Rightarrow> dram_packet list \<Rightarrow> scan \<Rightarrow> scan res" where
  "reorder_scan E m prep i [] s = Inr s"
| "reorder_scan E m prep i (dp # dps) s =
     (let bk = pkt_bank E dp; go = reorder_scan E m prep (Suc i) dps in
      if pkt_avail E dp then
        if openRow bk = dp_row dp then
          if colAllowedAt bk \<le> m then Inr (s\<lparr>sel := Some i\<rparr>)
          else if \<not> found_hidden_bank s \<and> \<not> found_prepped_pkt s then
            go (s\<lparr>sel := Some i, found_prepped_pkt := True\<rparr>)
          else go s
        else if \<not> found_earliest_pkt s then
          bindE (load_prep prep s) (\<lambda>s1.
            if bits (earliest_banks s1) (bankId dp) (bankId dp) \<noteq> 0 then go (take_earliest i s1)
            else go s1)
        else go s
      else go s)"

fun reorder_scan_cpu ::
  "sched_env \<Rightarrow> tick \<Rightarrow> (u64 \<times> bool) res \<Rightarrow> nat \<Rightarrow> dram_packet list \<Rightarrow> scan \<Rightarrow> scan res" where
  "reorder_scan_cpu E m prep i [] s = Inr s"
| "reorder_scan_cpu E m prep i (dp # dps) s =
     (let bk = pkt_bank E dp; go = reorder_scan_cpu E m prep (Suc i) dps in
      if pkt_avail E dp then
        if openRow bk = dp_row dp then
          if colAllowedAt bk \<le> m then
            if is_cpu dp then Inr (s\<lparr>sel := Some i\<rparr>)
            else if \<not> found_seamless_pkt s then go (s\<lparr>sel := Some i, found_seamless_pkt := True\<rparr>)
            else go s
          else if \<not> found_hidden_bank s \<and> \<not> found_prepped_cpu_pkt s \<and> \<not> found_seamless_pkt s then
            if is_cpu dp then
              go (s\<lparr>sel := Some i, found_prepped_cpu_pkt := True, found_prepped_pkt := True\<rparr>)
            else if \<not> found_prepped_pkt s then go (s\<lparr>sel := Some i, found_prepped_pkt := True\<rparr>)
            else go s
          else go s
        else if \<not> found_earliest_cpu_pkt s \<and> \<not> found_seamless_pkt s then
          bindE (load_prep prep s) (\<lambda>s1.
            if is_cpu dp then
              if bits (earliest_banks s1) (bankId dp) (bankId dp) \<noteq> 0
              then go ((take_earliest i s1)\<lparr>found_earliest_cpu_pkt := True\<rparr>)
              else go s1
            else if \<not> found_earliest_pkt s1 then
              if bits (earliest_banks s1) (bankId dp) (bankId dp) \<noteq> 0 then go (take_earliest i s1)
              else go s1
            else go s1)
        else go s
      else go s)"

definition min_col :: "dram_params \<Rightarrow> sched_env \<Rightarrow> tick \<Rightarrow> tick" where
  "min_col p E extra_col_delay = max (tsub (se_busBusyUntil E) (tCL p) + extra_col_delay) (se_now E)"

definition select_pkt :: "dram_packet list \<Rightarrow> scan \<Rightarrow> dram_packet list \<times> bool" where
  "select_pkt queue s =
     (case sel s of Some k \<Rightarrow> (move_front k queue, True) | None \<Rightarrow> (queue, False))"

definition reorderQueue ::
  "dram_params \<Rightarrow> sched_env \<Rightarrow> dram_packet list \<Rightarrow> tick \<Rightarrow> (dram_packet list \<times> bool) res" where
  "reorderQueue p E queue extra_col_delay =
     (let m = min_col p E extra_col_delay in
      bindE (reorder_scan E m (minBankPrep p E queue m) 0 queue scan_init) (\<lambda>s. Inr (select_pkt queue s)))"

definition reorderQueueCPUPrio ::
  "dram_params \<Rightarrow> sched_env \<Rightarrow> dram_packet list \<Rightarrow> tick \<Rightarrow> (dram_packet list \<times> bool) res" where
  "reorderQueueCPUPrio p E queue extra_col_delay =
     (let m = min_col p E extra_col_delay in
      bindE (reorder_scan_cpu E m (minBankPrep p E queue m) 0 queue scan_init) (\<lambda>s. Inr (select_pkt queue s)))"

text \<open>First position that satisfies a predicate.\<close>

fun first_pos :: "('a \<Rightarrow> bool) \<Rightarrow> 'a list \<Rightarrow> nat option" where
  "first_pos P [] = None"
| "first_pos P (x # xs) = (if P x then Some 0 else map_option Suc (first_pos P xs))"

text \<open>The scan of the policy \<^verbatim>\<open>cpuPriorityfcfs\<close>: the position selected, if any.\<close>

fun cpu_fcfs_scan :: "sched_env \<Rightarrow> nat \<Rightarrow> dram_packet list \<Rightarrow> nat option \<Rightarrow> nat option" where
  "cpu_fcfs_scan E i [] found = found"
| "cpu_fcfs_scan E i (dp # dps) found =
     (if pkt_avail E dp then
        if is_cpu dp then Some i
        else cpu_fcfs_scan E (Suc i) dps (if found = None then Some i else found)
      else cpu_fcfs_scan E (Suc i) dps found)"

definition chooseNext ::
  "dram_params \<Rightarrow> sched_env \<Rightarrow> dram_packet list \<Rightarrow> tick \<Rightarrow> (dram_packet list \<times> bool) res" where
  "chooseNext p E queue extra_col_delay =
     assertE ''!queue.empty()'' (queue \<noteq> [])
     (if length queue = 1 then Inr (queue, pkt_avail E (hd queue))
      else case memSchedPolicy p of
        fcfs \<Rightarrow> Inr (case first_pos (pkt_avail E) queue of
                       Some k \<Rightarrow> (move_front k queue, True) | None \<Rightarrow> (queue, False))
      | cpuPriorityfcfs \<Rightarrow> Inr (case cpu_fcfs_scan E 0 queue None of
                       Some k \<Rightarrow> (move_front k queue, True) | None \<Rightarrow> (queue, False))
      | frfcfs \<Rightarrow> reorderQueue p E queue extra_col_delay
      | cpuPriorityfrfcfs \<Rightarrow> reorderQueueCPUPrio p E queue extra_col_delay)"

section \<open>Bank preparation\<close>

definition sched_ok :: "dram_params \<Rightarrow> sched_env \<Rightarrow> dram_packet list \<Rightarrow> bool" where
  "sched_ok p E queue \<longleftrightarrow>
     length (se_ranks E) = ranksPerChannel p \<and> (\<forall>rk \<in> set (se_ranks E). length (banks rk) = banksPerRank p) \<and>
     ranksPerChannel p * banksPerRank p \<le> 64 \<and>
     (\<forall>rk \<in> set (se_ranks E). \<forall>bk \<in> set (banks rk). bank_act_at p E bk \<le> MaxTick) \<and>
     (\<forall>dp \<in> set queue. dp_wf p dp)"

lemma bank_id_unique:
  assumes "(j :: nat) < n" and "j' < n" and "n * i + j = n * i' + j'"
  shows "i = i' \<and> j = j'"
proof -
  have "(n * i + j) div n = i" "(n * i' + j') div n = i'" using assms(1,2) by simp_all
  then show ?thesis using assms by simp
qed

lemma bank_id_less:
  assumes "i < r" and "j < n" and "r * n \<le> 64"
  shows "(i :: nat) * n + j < 64"
proof -
  have "i * n + j < Suc i * n" using assms(2) by simp
  also have "\<dots> \<le> r * n" using assms(1) by (intro mult_le_mono1) simp
  finally show ?thesis using assms(3) by simp
qed

lemma got_waiting_rank:
  assumes "sched_ok p E queue" and "j < banksPerRank p" and "got_waiting E queue (i * banksPerRank p + j)"
  shows "isAvailable (se_ranks E ! i)"
proof -
  obtain dp where dp: "dp \<in> set queue" "pkt_avail E dp" "bankId dp = i * banksPerRank p + j"
    using assms(3) by (auto simp: got_waiting_def list_ex_iff)
  have "dp_bank dp < banksPerRank p" "bankId dp = banksPerRank p * dp_rank dp + dp_bank dp"
    using assms(1) dp(1) by (auto simp: sched_ok_def dp_wf_def)
  then have "i = dp_rank dp"
    using bank_id_unique [of j "banksPerRank p" "dp_bank dp" i "dp_rank dp"] dp(3) assms(2)
    by (simp add: mult.commute)
  then show ?thesis using dp(2) by (simp add: pkt_avail_def)
qed

definition some_bank :: "u64 \<Rightarrow> bool" where
  "some_bank m \<longleftrightarrow> (\<exists>k < 64. bit m k)"

definition prep_inv :: "sched_env \<Rightarrow> dram_packet list \<Rightarrow> bank_prep \<Rightarrow> bool" where
  "prep_inv E queue s \<longleftrightarrow>
     (\<forall>k < 64. bit (bank_mask s) k \<longrightarrow> got_waiting E queue k) \<and>
     (some_bank (bank_mask s) \<or> \<not> found_seamless_bank s \<and> min_act_at s = MaxTick)"

lemma bit_insert_one:
  assumes "b < 64" and "k < 64"
  shows "bit (insertBits m b b 1) k \<longleftrightarrow> k = b \<or> bit m k"
  using assms bit_insertBits [of b b k m 1] by (auto simp: bit_1_iff)

lemma prep_step_ok:
  assumes ok: "sched_ok p E queue" and i: "i < ranksPerChannel p" and j: "j < banksPerRank p"
    and inv: "prep_inv E queue s"
  shows "\<exists>s'. prep_step p E queue m (i, j) s = Inr s' \<and> prep_inv E queue s' \<and>
           (some_bank (bank_mask s) \<or> got_waiting E queue (i * banksPerRank p + j) \<longrightarrow>
              some_bank (bank_mask s'))"
proof -
  let ?id = "i * banksPerRank p + j"
  have id64: "?id < 64" using bank_id_less [OF i j] ok by (simp add: sched_ok_def)
  then have id: "?id mod 2 ^ 16 = ?id" by simp
  show ?thesis
  proof (cases "got_waiting E queue ?id")
    case False
    then have "prep_step p E queue m (i, j) s = Inr s"
      unfolding prep_step_def Let_def prod.case id by (rule if_not_P)
    then show ?thesis using inv False by blast
  next
    case True
    have av: "isAvailable (se_ranks E ! i)" using got_waiting_rank [OF ok j True] .
    define bk where "bk = banks (se_ranks E ! i) ! j"
    have "bk \<in> set (banks (se_ranks E ! i))" "se_ranks E ! i \<in> set (se_ranks E)"
      using ok i j by (auto simp: bk_def sched_ok_def)
    then have act: "bank_act_at p E bk \<le> MaxTick" using ok by (auto simp: sched_ok_def)
    define seam where "seam = (max (colAllowedAt bk) (bank_act_at p E bk + tRCD p) \<le> m)"
    define s1 where "s1 = (if \<not> found_seamless_bank s \<and> (seam \<or> bank_act_at p E bk < min_act_at s)
                           then s\<lparr>bank_mask := 0\<rparr> else s)"
    define s' where "s' = (if seam \<or> (\<not> found_seamless_bank s \<and> bank_act_at p E bk \<le> min_act_at s)
      then s1\<lparr>found_seamless_bank := found_seamless_bank s \<or> seam,
              hidden_bank_prep := (bank_act_at p E bk \<le> max (tsub m (tRCD p)) (se_now E)),
              bank_mask := insertBits (bank_mask s1) ?id ?id 1,
              min_act_at := bank_act_at p E bk\<rparr> else s)"
    have "prep_step p E queue m (i, j) s = Inr s'"
      unfolding prep_step_def Let_def prod.case id s'_def s1_def seam_def bk_def
      using True av by (simp add: assertE_holds)
    moreover have sub: "bit (bank_mask s1) k \<longrightarrow> bit (bank_mask s) k" for k by (simp add: s1_def)
    have "prep_inv E queue s' \<and> some_bank (bank_mask s')"
    proof (cases "seam \<or> (\<not> found_seamless_bank s \<and> bank_act_at p E bk \<le> min_act_at s)")
      case t: True
      then have m': "bank_mask s' = insertBits (bank_mask s1) ?id ?id 1" by (simp add: s'_def)
      have "some_bank (bank_mask s')" unfolding some_bank_def m' using id64 bit_insert_one by blast
      moreover have "\<forall>k < 64. bit (bank_mask s') k \<longrightarrow> got_waiting E queue k"
        using inv sub True id64 unfolding m' prep_inv_def by (auto simp: bit_insert_one)
      ultimately show ?thesis by (simp add: prep_inv_def)
    next
      case f: False
      then have "some_bank (bank_mask s)" using inv act by (auto simp: prep_inv_def)
      moreover have "s' = s" unfolding s'_def using f by (rule if_not_P)
      ultimately show ?thesis using inv by simp
    qed
    ultimately show ?thesis by blast
  qed
qed

lemma prep_loop_ok:
  assumes "sched_ok p E queue" and "set ijs \<subseteq> set (bank_ids p)" and "prep_inv E queue s"
  shows "\<exists>s'. prep_loop p E queue m ijs s = Inr s' \<and> prep_inv E queue s' \<and>
           (some_bank (bank_mask s) \<or> (\<exists>(i, j) \<in> set ijs. got_waiting E queue (i * banksPerRank p + j)) \<longrightarrow>
              some_bank (bank_mask s'))"
  using assms
proof (induction ijs arbitrary: s)
  case Nil
  then show ?case by simp
next
  case (Cons ij ijs)
  obtain i j where ij: "ij = (i, j)" by (cases ij)
  have "i < ranksPerChannel p" "j < banksPerRank p" using Cons.prems(2) by (auto simp: bank_ids_def ij)
  from prep_step_ok [OF Cons.prems(1) this Cons.prems(3), of m]
  obtain s1 where s1: "prep_step p E queue m (i, j) s = Inr s1" "prep_inv E queue s1"
    "some_bank (bank_mask s) \<or> got_waiting E queue (i * banksPerRank p + j) \<longrightarrow> some_bank (bank_mask s1)"
    by blast
  have "set ijs \<subseteq> set (bank_ids p)" using Cons.prems(2) by simp
  from Cons.IH [OF Cons.prems(1) this s1(2)] show ?case using s1(1,3) by (auto simp: ij)
qed

text \<open>
  The mask names only banks that a packet to an available rank waits for, and at least one
  of them when there is such a packet.
\<close>

lemma minBankPrep_ok:
  assumes "sched_ok p E queue"
  shows "\<exists>m h. minBankPrep p E queue t = Inr (m, h) \<and>
           (\<forall>k < 64. bit m k \<longrightarrow> got_waiting E queue k) \<and>
           ((\<exists>dp \<in> set queue. pkt_avail E dp) \<longrightarrow> some_bank m)"
proof -
  have "prep_inv E queue prep_init" by (simp add: prep_inv_def prep_init_def)
  from prep_loop_ok [OF assms subset_refl this, of t]
  obtain s where s: "prep_loop p E queue t (bank_ids p) prep_init = Inr s" "prep_inv E queue s"
    "(\<exists>(i, j) \<in> set (bank_ids p). got_waiting E queue (i * banksPerRank p + j)) \<longrightarrow> some_bank (bank_mask s)"
    by blast
  have "\<exists>(i, j) \<in> set (bank_ids p). got_waiting E queue (i * banksPerRank p + j)"
    if "dp \<in> set queue" "pkt_avail E dp" for dp
  proof -
    have "dp_rank dp < ranksPerChannel p" "dp_bank dp < banksPerRank p"
      "bankId dp = dp_rank dp * banksPerRank p + dp_bank dp"
      using assms that(1) by (auto simp: sched_ok_def dp_wf_def mult.commute)
    then have "(dp_rank dp, dp_bank dp) \<in> set (bank_ids p)"
      "got_waiting E queue (dp_rank dp * banksPerRank p + dp_bank dp)"
      using that by (auto simp: bank_ids_def got_waiting_def list_ex_iff)
    then show ?thesis by blast
  qed
  then show ?thesis using s by (auto simp: minBankPrep_def prep_inv_def)
qed
section \<open>The scans find a packet whenever one is available\<close>

definition flags :: "scan \<Rightarrow> bool" where
  "flags s \<longleftrightarrow> found_hidden_bank s \<or> found_prepped_pkt s \<or> found_earliest_pkt s \<or>
     found_seamless_pkt s \<or> found_prepped_cpu_pkt s \<or> found_earliest_cpu_pkt s"

text \<open>
  What a scan keeps: a selected position points to a packet of an available rank, a flag is
  raised only when something is selected, and the mask is the computed one or not loaded.
\<close>

definition scan_ok :: "sched_env \<Rightarrow> dram_packet list \<Rightarrow> u64 \<Rightarrow> scan \<Rightarrow> bool" where
  "scan_ok E queue m s \<longleftrightarrow>
     (\<forall>k. sel s = Some k \<longrightarrow> k < length queue \<and> pkt_avail E (queue ! k)) \<and>
     (flags s \<longrightarrow> sel s \<noteq> None) \<and> (earliest_banks s = 0 \<or> earliest_banks s = m)"

definition row_hit :: "sched_env \<Rightarrow> dram_packet \<Rightarrow> bool" where
  "row_hit E dp \<longleftrightarrow> openRow (pkt_bank E dp) = dp_row dp"

definition choosable :: "sched_env \<Rightarrow> u64 \<Rightarrow> dram_packet \<Rightarrow> bool" where
  "choosable E m dp \<longleftrightarrow> pkt_avail E dp \<and> (row_hit E dp \<or> bits m (bankId dp) (bankId dp) \<noteq> 0)"

lemma load_prep_ok:
  assumes "scan_ok E queue m s"
  shows "\<exists>s1. load_prep (Inr (m, h)) s = Inr s1 \<and> scan_ok E queue m s1 \<and> earliest_banks s1 = m \<and>
           sel s1 = sel s \<and> flags s1 = flags s \<and> found_prepped_pkt s1 = found_prepped_pkt s \<and>
           found_earliest_pkt s1 = found_earliest_pkt s"
  using assms by (auto simp: load_prep_def scan_ok_def flags_def)

lemma take_earliest_ok:
  assumes "scan_ok E queue m s" and "i < length queue" and "pkt_avail E (queue ! i)"
  shows "scan_ok E queue m (take_earliest i s)" "sel (take_earliest i s) \<noteq> None"
    "scan_ok E queue m ((take_earliest i s)\<lparr>found_earliest_cpu_pkt := True\<rparr>)"
  using assms by (auto simp: scan_ok_def take_earliest_def flags_def)

lemma scan_ok_select:
  assumes "scan_ok E queue m s" and "i < length queue" and "pkt_avail E (queue ! i)"
  shows "scan_ok E queue m (s\<lparr>sel := Some i\<rparr>)"
    "scan_ok E queue m (s\<lparr>sel := Some i, found_prepped_pkt := True\<rparr>)"
    "scan_ok E queue m (s\<lparr>sel := Some i, found_seamless_pkt := True\<rparr>)"
    "scan_ok E queue m (s\<lparr>sel := Some i, found_prepped_cpu_pkt := True, found_prepped_pkt := True\<rparr>)"
  using assms by (auto simp: scan_ok_def)

definition scan_post :: "sched_env \<Rightarrow> dram_packet list \<Rightarrow> u64 \<Rightarrow> dram_packet list \<Rightarrow> scan \<Rightarrow> scan \<Rightarrow> bool" where
  "scan_post E queue m dps s s' \<longleftrightarrow>
     scan_ok E queue m s' \<and> (sel s \<noteq> None \<or> (\<exists>dp \<in> set dps. choosable E m dp) \<longrightarrow> sel s' \<noteq> None)"

lemma scan_post_skip:
  "scan_post E queue m dps s1 s' \<Longrightarrow> (sel s \<noteq> None \<or> choosable E m dp \<longrightarrow> sel s1 \<noteq> None) \<Longrightarrow>
     scan_post E queue m (dp # dps) s s'"
  by (auto simp: scan_post_def)

lemma flags_sel: "scan_ok E queue m s \<Longrightarrow> flags s \<Longrightarrow> sel s \<noteq> None"
  by (simp add: scan_ok_def)

lemma reorder_scan_ok:
  assumes "scan_ok E queue m s" and "queue = pre @ dps" and "i = length pre"
  shows "\<exists>s'. reorder_scan E t (Inr (m, h)) i dps s = Inr s' \<and> scan_post E queue m dps s s'"
  using assms
proof (induction dps arbitrary: pre i s)
  case Nil
  then show ?case by (simp add: scan_post_def)
next
  case (Cons dp dps)
  have i: "i < length queue" "queue ! i = dp" using Cons.prems(2,3) by (auto simp: nth_append)
  have q: "queue = (pre @ [dp]) @ dps" "Suc i = length (pre @ [dp])" using Cons.prems(2,3) by auto
  have IH: "\<exists>s'. reorder_scan E t (Inr (m, h)) (Suc i) dps s1 = Inr s' \<and> scan_post E queue m (dp # dps) s s'"
    if "scan_ok E queue m s1" "sel s \<noteq> None \<or> choosable E m dp \<longrightarrow> sel s1 \<noteq> None" for s1
    using Cons.IH [OF that(1) q] scan_post_skip that(2) by blast
  note ok = Cons.prems(1)
  show ?case
  proof (cases "pkt_avail E dp")
    case False
    then show ?thesis using IH [OF ok] by (simp add: choosable_def Let_def)
  next
    case av: True
    then have avq: "pkt_avail E (queue ! i)" using i by simp
    show ?thesis
    proof (cases "row_hit E dp")
      case hit: True
      show ?thesis
        using av hit IH [OF ok] IH [OF scan_ok_select(2) [OF ok i(1) avq]] scan_ok_select(1) [OF ok i(1) avq]
          flags_sel [OF ok]
        by (cases "colAllowedAt (pkt_bank E dp) \<le> t";
            cases "\<not> found_hidden_bank s \<and> \<not> found_prepped_pkt s")
          (auto simp: Let_def row_hit_def scan_post_def flags_def)
    next
      case miss: False
      obtain s1 where s1: "load_prep (Inr (m, h)) s = Inr s1" "scan_ok E queue m s1"
          "earliest_banks s1 = m" "sel s1 = sel s"
        using load_prep_ok [OF ok, of h] by blast
      have te: "scan_ok E queue m (take_earliest i s1)" "sel (take_earliest i s1) \<noteq> None"
        using take_earliest_ok [OF s1(2) i(1) avq] by blast+
      show ?thesis
        using av miss IH [OF ok] IH [OF s1(2)] IH [OF te(1)] te(2) s1 flags_sel [OF ok]
        by (cases "found_earliest_pkt s"; cases "bits m (bankId dp) (bankId dp) \<noteq> 0")
          (auto simp: Let_def row_hit_def choosable_def flags_def)
    qed
  qed
qed

lemma reorder_scan_cpu_ok:
  assumes "scan_ok E queue m s" and "queue = pre @ dps" and "i = length pre"
  shows "\<exists>s'. reorder_scan_cpu E t (Inr (m, h)) i dps s = Inr s' \<and> scan_post E queue m dps s s'"
  using assms
proof (induction dps arbitrary: pre i s)
  case Nil
  then show ?case by (simp add: scan_post_def)
next
  case (Cons dp dps)
  have i: "i < length queue" "queue ! i = dp" using Cons.prems(2,3) by (auto simp: nth_append)
  have q: "queue = (pre @ [dp]) @ dps" "Suc i = length (pre @ [dp])" using Cons.prems(2,3) by auto
  have IH: "\<exists>s'. reorder_scan_cpu E t (Inr (m, h)) (Suc i) dps s1 = Inr s' \<and> scan_post E queue m (dp # dps) s s'"
    if "scan_ok E queue m s1" "sel s \<noteq> None \<or> choosable E m dp \<longrightarrow> sel s1 \<noteq> None" for s1
    using Cons.IH [OF that(1) q] scan_post_skip that(2) by blast
  note ok = Cons.prems(1)
  show ?case
  proof (cases "pkt_avail E dp")
    case False
    then show ?thesis using IH [OF ok] by (simp add: choosable_def Let_def)
  next
    case av: True
    then have avq: "pkt_avail E (queue ! i)" using i by simp
    note sel = scan_ok_select [OF ok i(1) avq]
    show ?thesis
    proof (cases "row_hit E dp")
      case hit: True
      show ?thesis
      proof (cases "colAllowedAt (pkt_bank E dp) \<le> t")
        case True
        then show ?thesis
          using av hit IH [OF ok] IH [OF sel(3)] sel(1) flags_sel [OF ok]
          by (cases "is_cpu dp"; cases "found_seamless_pkt s")
            (auto simp: Let_def row_hit_def scan_post_def flags_def)
      next
        case False
        then show ?thesis
          using av hit IH [OF ok] IH [OF sel(2)] IH [OF sel(4)] flags_sel [OF ok]
          by (cases "is_cpu dp"; cases "found_prepped_pkt s")
            (auto simp: Let_def row_hit_def flags_def)
      qed
    next
      case miss: False
      obtain s1 where s1: "load_prep (Inr (m, h)) s = Inr s1" "scan_ok E queue m s1"
          "earliest_banks s1 = m" "sel s1 = sel s" "flags s1 = flags s"
          "found_earliest_pkt s1 = found_earliest_pkt s"
        using load_prep_ok [OF ok, of h] by blast
      note te = take_earliest_ok [OF s1(2) i(1) avq]
      show ?thesis
        using av miss IH [OF ok] IH [OF s1(2)] IH [OF te(1)] IH [OF te(3)] te(2) s1 flags_sel [OF ok]
        by (cases "found_earliest_cpu_pkt s \<or> found_seamless_pkt s"; cases "is_cpu dp";
            cases "bits m (bankId dp) (bankId dp) \<noteq> 0"; cases "found_earliest_pkt s")
          (auto simp: Let_def row_hit_def choosable_def flags_def)
    qed
  qed
qed

section \<open>The contract of a scheduling decision\<close>

text \<open>
  What the request loops of the controllers rely on: the decision never fails on a
  non-empty queue, only reorders it, reports a packet exactly when some packet goes to an
  available rank, and then has such a packet at the head.
\<close>

locale scheduler =
  fixes decide :: "'e \<Rightarrow> 'p list \<Rightarrow> ('p list \<times> bool) res"
    and avail :: "'e \<Rightarrow> 'p \<Rightarrow> bool"
    and ok :: "'e \<Rightarrow> 'p list \<Rightarrow> bool"
  assumes decide_law: "ok e q \<Longrightarrow> q \<noteq> [] \<Longrightarrow>
      \<exists>q' f. decide e q = Inr (q', f) \<and> mset q' = mset q \<and>
        (f \<longleftrightarrow> (\<exists>x \<in> set q. avail e x)) \<and> (f \<longrightarrow> avail e (hd q'))"
    and ok_subset: "ok e q \<Longrightarrow> set q' \<subseteq> set q \<Longrightarrow> ok e q'"
begin

lemma chosen:
  assumes "ok e q" and "q \<noteq> []" and "decide e q = Inr (q', True)"
  shows "avail e (hd q')" "hd q' \<in> set q" "mset q = add_mset (hd q') (mset (tl q'))"
    "length q = Suc (length (tl q'))" "set (tl q') \<subseteq> set q"
proof -
  have m: "mset q' = mset q" and a: "avail e (hd q')"
    using decide_law [OF assms(1,2)] assms(3) by auto
  have ne: "q' \<noteq> []" using m assms(2) by auto
  show "avail e (hd q')" by (rule a)
  show eq: "mset q = add_mset (hd q') (mset (tl q'))"
    using m ne by (metis list.collapse mset.simps(2))
  show "hd q' \<in> set q" using m ne by (metis hd_in_set mset_eq_setD)
  show "length q = Suc (length (tl q'))" using eq by (metis size_add_mset size_mset)
  show "set (tl q') \<subseteq> set q" using m ne by (metis list.set_sel(2) mset_eq_setD subsetI)
qed

lemma none_available:
  assumes "ok e q" and "q \<noteq> []" and "decide e q = Inr (q', False)" and "x \<in> set q"
  shows "\<not> avail e x"
  using decide_law [OF assms(1,2)] assms(3,4) by auto

fun serve :: "'e \<Rightarrow> nat \<Rightarrow> 'p list \<Rightarrow> 'p list \<Rightarrow> ('p list \<times> 'p list) res" where
  "serve e 0 q out = Inr (out, q)"
| "serve e (Suc n) q out =
     (if q = [] then Inr (out, q)
      else bindE (decide e q) (\<lambda>(q', f).
             if f then serve e n (tl q') (out @ [hd q']) else Inr (out, q')))"

lemma serve_all:
  assumes "ok e q" and "\<forall>x \<in> set q. avail e x" and "length q = n"
  shows "\<exists>out'. serve e n q out = Inr (out @ out', []) \<and> mset out' = mset q"
  using assms
proof (induction n arbitrary: q out)
  case 0
  then show ?case by simp
next
  case (Suc n)
  have ne: "q \<noteq> []" using Suc.prems(3) by auto
  have "\<exists>x \<in> set q. avail e x" using Suc.prems(2) ne by (cases q) auto
  then obtain q' where q': "decide e q = Inr (q', True)" using decide_law [OF Suc.prems(1) ne] by auto
  note c = chosen [OF Suc.prems(1) ne q']
  have "ok e (tl q')" using ok_subset [OF Suc.prems(1) c(5)] .
  moreover have "\<forall>x \<in> set (tl q'). avail e x" using Suc.prems(2) c(5) by auto
  moreover have "length (tl q') = n" using c(4) Suc.prems(3) by simp
  ultimately obtain out' where "serve e n (tl q') (out @ [hd q']) = Inr ((out @ [hd q']) @ out', [])"
    "mset out' = mset (tl q')" using Suc.IH [of "tl q'" "out @ [hd q']"] by blast
  then show ?case using ne q' c(3) by (intro exI [of _ "hd q' # out'"]) simp
qed

end

lemma first_pos_Some:
  "first_pos P xs = Some k \<Longrightarrow> k < length xs \<and> P (xs ! k) \<and> (\<forall>j < k. \<not> P (xs ! j))"
proof (induction xs arbitrary: k)
  case Nil
  then show ?case by simp
next
  case (Cons x xs)
  show ?case
  proof (cases "P x")
    case True
    then show ?thesis using Cons.prems by simp
  next
    case False
    then obtain k' where "k = Suc k'" "first_pos P xs = Some k'" using Cons.prems by auto
    then show ?thesis using Cons.IH [of k'] False by (auto simp: nth_Cons' less_Suc_eq_0_disj)
  qed
qed

lemma first_pos_None: "first_pos P xs = None \<longleftrightarrow> (\<forall>x \<in> set xs. \<not> P x)"
  by (induction xs) auto

definition cpu_fcfs_choice :: "sched_env \<Rightarrow> dram_packet list \<Rightarrow> nat option" where
  "cpu_fcfs_choice E queue =
     (case first_pos (\<lambda>dp. pkt_avail E dp \<and> is_cpu dp) queue of
        Some k \<Rightarrow> Some k | None \<Rightarrow> first_pos (pkt_avail E) queue)"

lemma cpu_fcfs_scan_eq:
  "cpu_fcfs_scan E i dps found =
     (case first_pos (\<lambda>dp. pkt_avail E dp \<and> is_cpu dp) dps of
        Some k \<Rightarrow> Some (i + k)
      | None \<Rightarrow> (case found of Some f \<Rightarrow> Some f
                 | None \<Rightarrow> map_option (\<lambda>k. i + k) (first_pos (pkt_avail E) dps)))"
  by (induction dps arbitrary: i found)
    (auto simp: option.map_comp comp_def split: option.splits intro!: option.map_cong0)

text \<open>The policy with priority for the CPU takes the oldest CPU packet to an available rank, else the oldest packet to one.\<close>

lemma cpu_fcfs_scan_choice: "cpu_fcfs_scan E 0 queue None = cpu_fcfs_choice E queue"
  by (cases "first_pos (pkt_avail E) queue")
    (auto simp: cpu_fcfs_scan_eq cpu_fcfs_choice_def split: option.splits)

lemma cpu_fcfs_choice_ok:
  "cpu_fcfs_choice E queue = Some k \<Longrightarrow> k < length queue \<and> pkt_avail E (queue ! k)"
  "cpu_fcfs_choice E queue = None \<longleftrightarrow> (\<forall>x \<in> set queue. \<not> pkt_avail E x)"
  by (auto simp: cpu_fcfs_choice_def first_pos_None split: option.splits dest!: first_pos_Some)

lemma scan_ok_init: "scan_ok E queue m scan_init"
  by (simp add: scan_ok_def scan_init_def flags_def)

lemma choosable_exists:
  assumes "sched_ok p E queue" and "\<exists>dp \<in> set queue. pkt_avail E dp"
    and "\<forall>k < 64. bit m k \<longrightarrow> got_waiting E queue k" and "some_bank m"
  shows "\<exists>dp \<in> set queue. choosable E m dp"
proof -
  obtain k where k: "k < 64" "bit m k" using assms(4) by (auto simp: some_bank_def)
  then obtain dp where "dp \<in> set queue" "pkt_avail E dp" "bankId dp = k"
    using assms(3) by (auto simp: got_waiting_def list_ex_iff)
  then show ?thesis using k bits_single [OF k(1)] by (auto simp: choosable_def)
qed

lemma select_pkt_contract:
  assumes "scan_post E queue m queue scan_init s" and "(\<exists>dp \<in> set queue. pkt_avail E dp) \<Longrightarrow> \<exists>dp \<in> set queue. choosable E m dp"
  shows "\<exists>q' f. select_pkt queue s = (q', f) \<and> mset q' = mset queue \<and>
           (f \<longleftrightarrow> (\<exists>x \<in> set queue. pkt_avail E x)) \<and> (f \<longrightarrow> pkt_avail E (hd q'))"
proof (cases "sel s")
  case None
  then have "\<not> (\<exists>dp \<in> set queue. pkt_avail E dp)" using assms by (auto simp: scan_post_def)
  then show ?thesis using None by (auto simp: select_pkt_def)
next
  case (Some k)
  then have "k < length queue" "pkt_avail E (queue ! k)" using assms(1) by (auto simp: scan_post_def scan_ok_def)
  then show ?thesis using Some by (auto simp: select_pkt_def)
qed

lemma reorder_contract:
  assumes "sched_ok p E queue"
  shows "\<exists>q' f. reorderQueue p E queue x = Inr (q', f) \<and> mset q' = mset queue \<and>
           (f \<longleftrightarrow> (\<exists>x \<in> set queue. pkt_avail E x)) \<and> (f \<longrightarrow> pkt_avail E (hd q'))"
    and "\<exists>q' f. reorderQueueCPUPrio p E queue x = Inr (q', f) \<and> mset q' = mset queue \<and>
           (f \<longleftrightarrow> (\<exists>x \<in> set queue. pkt_avail E x)) \<and> (f \<longrightarrow> pkt_avail E (hd q'))"
proof -
  let ?t = "min_col p E x"
  obtain m h where m: "minBankPrep p E queue ?t = Inr (m, h)"
      "\<forall>k < 64. bit m k \<longrightarrow> got_waiting E queue k" "(\<exists>dp \<in> set queue. pkt_avail E dp) \<longrightarrow> some_bank m"
    using minBankPrep_ok [OF assms, of ?t] by blast
  have ch: "(\<exists>dp \<in> set queue. pkt_avail E dp) \<Longrightarrow> \<exists>dp \<in> set queue. choosable E m dp"
    using choosable_exists [OF assms _ m(2)] m(3) by blast
  obtain s where "reorder_scan E ?t (Inr (m, h)) 0 queue scan_init = Inr s" "scan_post E queue m queue scan_init s"
    using reorder_scan_ok [OF scan_ok_init, of queue "[]" queue 0] by (metis append_Nil list.size(3))
  then show "\<exists>q' f. reorderQueue p E queue x = Inr (q', f) \<and> mset q' = mset queue \<and>
           (f \<longleftrightarrow> (\<exists>x \<in> set queue. pkt_avail E x)) \<and> (f \<longrightarrow> pkt_avail E (hd q'))"
    using select_pkt_contract [OF _ ch] m(1) by (auto simp: reorderQueue_def Let_def)
  obtain s where "reorder_scan_cpu E ?t (Inr (m, h)) 0 queue scan_init = Inr s" "scan_post E queue m queue scan_init s"
    using reorder_scan_cpu_ok [OF scan_ok_init, of queue "[]" queue 0] by (metis append_Nil list.size(3))
  then show "\<exists>q' f. reorderQueueCPUPrio p E queue x = Inr (q', f) \<and> mset q' = mset queue \<and>
           (f \<longleftrightarrow> (\<exists>x \<in> set queue. pkt_avail E x)) \<and> (f \<longrightarrow> pkt_avail E (hd q'))"
    using select_pkt_contract [OF _ ch] m(1) by (auto simp: reorderQueueCPUPrio_def Let_def)
qed

lemma chooseNext_contract:
  assumes "sched_ok p E queue" and "queue \<noteq> []"
  shows "\<exists>q' f. chooseNext p E queue x = Inr (q', f) \<and> mset q' = mset queue \<and>
           (f \<longleftrightarrow> (\<exists>x \<in> set queue. pkt_avail E x)) \<and> (f \<longrightarrow> pkt_avail E (hd q'))"
proof (cases "length queue = 1")
  case True
  then obtain dp where "queue = [dp]" by (cases queue) auto
  then show ?thesis by (simp add: chooseNext_def)
next
  case False
  then show ?thesis
  proof (cases "memSchedPolicy p")
    case fcfs
    then show ?thesis using False assms(2)
      by (auto simp: chooseNext_def first_pos_None split: option.splits dest!: first_pos_Some)
  next
    case cpuPriorityfcfs
    show ?thesis
    proof (cases "cpu_fcfs_choice E queue")
      case None
      then show ?thesis
        using cpuPriorityfcfs False assms(2) cpu_fcfs_choice_ok(2) [of E queue]
        by (auto simp: chooseNext_def cpu_fcfs_scan_choice)
    next
      case (Some k)
      then show ?thesis
        using cpuPriorityfcfs False assms(2) cpu_fcfs_choice_ok(1) [OF Some]
        by (auto simp: chooseNext_def cpu_fcfs_scan_choice)
    qed
  qed (use False assms reorder_contract in \<open>auto simp: chooseNext_def\<close>)
qed

interpretation sched: scheduler "\<lambda>(p, E, x) q. chooseNext p E q x" "\<lambda>(p, E, x). pkt_avail E"
  "\<lambda>(p, E, x). sched_ok p E"
proof unfold_locales
  fix e :: "dram_params \<times> sched_env \<times> tick" and q :: "dram_packet list"
  assume "(case e of (p, E, x) \<Rightarrow> sched_ok p E) q" "q \<noteq> []"
  then show "\<exists>q' f. (case e of (p, E, x) \<Rightarrow> \<lambda>q. chooseNext p E q x) q = Inr (q', f) \<and> mset q' = mset q \<and>
        (f \<longleftrightarrow> (\<exists>x \<in> set q. (case e of (p, E, x) \<Rightarrow> pkt_avail E) x)) \<and>
        (f \<longrightarrow> (case e of (p, E, x) \<Rightarrow> pkt_avail E) (hd q'))"
    using chooseNext_contract by (cases e) auto
next
  fix e :: "dram_params \<times> sched_env \<times> tick" and q q' :: "dram_packet list"
  assume "(case e of (p, E, x) \<Rightarrow> sched_ok p E) q" "set q' \<subseteq> set q"
  then show "(case e of (p, E, x) \<Rightarrow> sched_ok p E) q'" by (cases e) (auto simp: sched_ok_def)
qed


section \<open>Which packet is chosen\<close>

definition seamless_hit :: "sched_env \<Rightarrow> tick \<Rightarrow> dram_packet \<Rightarrow> bool" where
  "seamless_hit E t dp \<longleftrightarrow> pkt_avail E dp \<and> row_hit E dp \<and> colAllowedAt (pkt_bank E dp) \<le> t"

text \<open>First-ready first-come: the oldest row hit that needs no extra delay wins.\<close>

lemma load_prep_Inr: "\<exists>s1. load_prep (Inr mh) s = Inr s1"
  by (cases mh) (simp add: load_prep_def)

lemma reorder_scan_seamless:
  assumes "first_pos (seamless_hit E t) dps = Some k"
  shows "\<exists>s'. reorder_scan E t (Inr mh) i dps s = Inr s' \<and> sel s' = Some (i + k)"
  using assms
proof (induction dps arbitrary: i k s)
  case Nil
  then show ?case by simp
next
  case (Cons dp dps)
  show ?case
  proof (cases "seamless_hit E t dp")
    case True
    then show ?thesis using Cons.prems by (auto simp: seamless_hit_def row_hit_def Let_def)
  next
    case False
    then obtain k' where k': "k = Suc k'" "first_pos (seamless_hit E t) dps = Some k'"
      using Cons.prems by auto
    have IH: "\<exists>s'. reorder_scan E t (Inr mh) (Suc i) dps s1 = Inr s' \<and> sel s' = Some (i + k)" for s1
      using Cons.IH [OF k'(2), of "Suc i" s1] k'(1) by simp
    obtain s1 where "load_prep (Inr mh) s = Inr s1" using load_prep_Inr by blast
    then show ?thesis using False IH by (auto simp: seamless_hit_def row_hit_def Let_def)
  qed
qed

lemma reorder_scan_cpu_seamless:
  assumes "first_pos (\<lambda>dp. seamless_hit E t dp \<and> is_cpu dp) dps = Some k"
  shows "\<exists>s'. reorder_scan_cpu E t (Inr mh) i dps s = Inr s' \<and> sel s' = Some (i + k)"
  using assms
proof (induction dps arbitrary: i k s)
  case Nil
  then show ?case by simp
next
  case (Cons dp dps)
  show ?case
  proof (cases "seamless_hit E t dp \<and> is_cpu dp")
    case True
    then show ?thesis using Cons.prems by (auto simp: seamless_hit_def row_hit_def Let_def)
  next
    case False
    then obtain k' where k': "k = Suc k'" "first_pos (\<lambda>dp. seamless_hit E t dp \<and> is_cpu dp) dps = Some k'"
      using Cons.prems by auto
    have IH: "\<exists>s'. reorder_scan_cpu E t (Inr mh) (Suc i) dps s1 = Inr s' \<and> sel s' = Some (i + k)" for s1
      using Cons.IH [OF k'(2), of "Suc i" s1] k'(1) by simp
    obtain s1 where "load_prep (Inr mh) s = Inr s1" using load_prep_Inr by blast
    then show ?thesis using False IH by (auto simp: seamless_hit_def row_hit_def Let_def)
  qed
qed

lemma reorderQueue_seamless:
  assumes "sched_ok p E queue" and "first_pos (seamless_hit E (min_col p E x)) queue = Some k"
  shows "reorderQueue p E queue x = Inr (move_front k queue, True)"
proof -
  obtain mh where "minBankPrep p E queue (min_col p E x) = Inr mh" using minBankPrep_ok [OF assms(1)] by blast
  then show ?thesis
    using reorder_scan_seamless [OF assms(2), of mh 0 scan_init]
    by (auto simp: reorderQueue_def Let_def select_pkt_def)
qed

lemma reorderQueueCPUPrio_seamless:
  assumes "sched_ok p E queue"
    and "first_pos (\<lambda>dp. seamless_hit E (min_col p E x) dp \<and> is_cpu dp) queue = Some k"
  shows "reorderQueueCPUPrio p E queue x = Inr (move_front k queue, True)"
proof -
  obtain mh where "minBankPrep p E queue (min_col p E x) = Inr mh" using minBankPrep_ok [OF assms(1)] by blast
  then show ?thesis
    using reorder_scan_cpu_seamless [OF assms(2), of mh 0 scan_init]
    by (auto simp: reorderQueueCPUPrio_def Let_def select_pkt_def)
qed

end
