(* ===== verification/DRAM_Config.thy ===== *)
theory DRAM_Config
  imports DRAM_Bank Int_Math
begin

text \<open>
  The parameters of a DRAM controller: the fields of \<^verbatim>\<open>DRAMCtrlParams\<close>, which the build
  derives from \<^verbatim>\<open>src/gem5/src/mem/DRAMCtrl.py\<close>, and the derivation of the controller's
  constants with its checks in the constructor and in \<^verbatim>\<open>init\<close> of
  \<^verbatim>\<open>src/gem5/src/mem/dram_ctrl.cc\<close>. Latencies are in ticks of one picosecond.
\<close>

record dram_config =
  device_size :: nat
  device_bus_width :: nat
  burst_length :: nat
  device_rowbuffer_size :: nat
  devices_per_rank :: nat
  cfg_ranks_per_channel :: nat
  bank_groups_per_rank :: nat
  cfg_banks_per_rank :: nat
  cfg_channels :: nat
  read_buffer_size :: nat
  write_buffer_size :: nat
  write_high_thresh_perc :: nat
  write_low_thresh_perc :: nat
  min_writes_per_switch :: nat
  mem_sched_policy :: mem_sched
  addr_mapping :: addr_map
  page_policy :: page_manage
  max_accesses_per_row :: nat
  static_frontend_latency :: tick
  static_backend_latency :: tick
  cfg_tCK :: tick
  cfg_tWTR :: tick
  cfg_tRTW :: tick
  cfg_tCS :: tick
  cfg_tBURST :: tick
  cfg_tCCD_L :: tick
  cfg_tRCD :: tick
  cfg_tCL :: tick
  cfg_tRP :: tick
  cfg_tRAS :: tick
  cfg_tWR :: tick
  cfg_tRTP :: tick
  cfg_tRFC :: tick
  cfg_tREFI :: tick
  cfg_tRRD :: tick
  cfg_tRRD_L :: tick
  cfg_tXAW :: tick
  activation_limit :: nat

text \<open>The class \<^verbatim>\<open>DDR3_1600_x64\<close> with the defaults of \<^verbatim>\<open>DRAMCtrl\<close>.\<close>

definition DDR3_1600_x64 :: dram_config where
  "DDR3_1600_x64 =
     \<lparr>device_size = 512 * 1024 * 1024, device_bus_width = 8, burst_length = 8,
      device_rowbuffer_size = 1024, devices_per_rank = 8, cfg_ranks_per_channel = 1,
      bank_groups_per_rank = 0, cfg_banks_per_rank = 8, cfg_channels = 1,
      read_buffer_size = 32, write_buffer_size = 64, write_high_thresh_perc = 85,
      write_low_thresh_perc = 50, min_writes_per_switch = 16, mem_sched_policy = frfcfs,
      addr_mapping = RoRaBaCoCh, page_policy = PM_open_adaptive, max_accesses_per_row = 16,
      static_frontend_latency = 10000, static_backend_latency = 10000,
      cfg_tCK = 1250, cfg_tWTR = 7500, cfg_tRTW = 2500, cfg_tCS = 2500, cfg_tBURST = 5000,
      cfg_tCCD_L = 0, cfg_tRCD = 13750, cfg_tCL = 13750, cfg_tRP = 13750, cfg_tRAS = 35000,
      cfg_tWR = 15000, cfg_tRTP = 7500, cfg_tRFC = 260000, cfg_tREFI = 7800000, cfg_tRRD = 6000,
      cfg_tRRD_L = 0, cfg_tXAW = 30000, activation_limit = 4\<rparr>"

text \<open>The class \<^verbatim>\<open>HMC_2500_x32_Cache\<close> of \<^verbatim>\<open>DRAMCacheCtrl.py\<close>, which overrides \<^verbatim>\<open>DDR3_1600_x64_Cache\<close>.\<close>

definition HMC_2500_x32_Cache :: dram_config where
  "HMC_2500_x32_Cache = DDR3_1600_x64
     \<lparr>device_size := 4 * 1024 * 1024, device_bus_width := 64, burst_length := 8,
      device_rowbuffer_size := 2048, devices_per_rank := 1, cfg_ranks_per_channel := 8,
      cfg_banks_per_rank := 4, cfg_tCK := 800, cfg_tBURST := 3200, cfg_tRCD := 10200,
      cfg_tCL := 9900, cfg_tRP := 7700, cfg_tRAS := 21600, cfg_tRRD := 3200, activation_limit := 0,
      cfg_tRFC := 59000, cfg_tWR := 8000, cfg_tRTP := 4900, cfg_tCS := 800, cfg_tREFI := 3900000,
      page_policy := PM_close_adaptive, write_buffer_size := 32, read_buffer_size := 32,
      addr_mapping := RoRaBaCoCh, mem_sched_policy := frfcfs, write_high_thresh_perc := 36,
      write_low_thresh_perc := 18, min_writes_per_switch := 10\<rparr>"

definition fatal_if :: "bool \<Rightarrow> string \<Rightarrow> 'a res \<Rightarrow> 'a res" where
  "fatal_if b msg k = (if b then Inl (FatalError msg) else k)"

text \<open>
  The constructor. \<open>mem_size\<close> is the size of the address range and \<open>stripe\<close> the granularity
  of the channel interleaving, if there is any; \<open>capacity\<close> is that size rounded up to a power of two.
\<close>

definition DRAMCtrl_consts :: "dram_config \<Rightarrow> nat \<Rightarrow> nat option \<Rightarrow> dram_params" where
  "DRAMCtrl_consts d capacity stripe =
     (let burst = devices_per_rank d * burst_length d * device_bus_width d div 8;
          row = devices_per_rank d * device_rowbuffer_size d
      in \<lparr>burstSize = burst, columnsPerRowBuffer = row div burst,
          columnsPerStripe = (case stripe of None \<Rightarrow> 1 | Some g \<Rightarrow> g div burst),
          ranksPerChannel = cfg_ranks_per_channel d, bankGroupArch = (bank_groups_per_rank d > 0),
          banksPerRank = cfg_banks_per_rank d, channels = cfg_channels d,
          rowsPerBank = capacity div (row * cfg_banks_per_rank d * cfg_ranks_per_channel d),
          readBufferSize = read_buffer_size d, writeBufferSize = write_buffer_size d,
          writeHighThreshold = write_buffer_size d * write_high_thresh_perc d div 100,
          writeLowThreshold = write_buffer_size d * write_low_thresh_perc d div 100,
          minWritesPerSwitch = min_writes_per_switch d, tCK = cfg_tCK d, tWTR = cfg_tWTR d,
          tRTW = cfg_tRTW d, tCS = cfg_tCS d, tBURST = cfg_tBURST d, tCCD_L = cfg_tCCD_L d,
          tRCD = cfg_tRCD d, tCL = cfg_tCL d, tRP = cfg_tRP d, tRAS = cfg_tRAS d, tWR = cfg_tWR d,
          tRTP = cfg_tRTP d, tRFC = cfg_tRFC d, tREFI = cfg_tREFI d, tRRD = cfg_tRRD d,
          tRRD_L = cfg_tRRD_L d, tXAW = cfg_tXAW d, activationLimit = activation_limit d,
          memSchedPolicy = mem_sched_policy d, addrMapping = addr_mapping d, pageMgmt = page_policy d,
          maxAccessesPerRow = max_accesses_per_row d, frontendLatency = static_frontend_latency d,
          backendLatency = static_backend_latency d\<rparr>)"

definition DRAMCtrl_new :: "dram_config \<Rightarrow> nat \<Rightarrow> nat option \<Rightarrow> dram_params res" where
  "DRAMCtrl_new d mem_size stripe =
     (let p0 = DRAMCtrl_consts d 0 stripe in
      fatal_if (\<not> isPowerOf2 (word_of_nat (ranksPerChannel p0))) ''DRAM rank count is not allowed''
      (fatal_if (\<not> isPowerOf2 (word_of_nat (burstSize p0))) ''DRAM burst size is not allowed''
      (fatal_if (write_low_thresh_perc d \<ge> write_high_thresh_perc d) ''Write buffer low threshold''
      (bindE (ceilLog2 (word_of_nat mem_size)) (\<lambda>l.
       if l \<ge> 64 then Inl (Undefined ''ULL(1) << 64'')
       else
       let p = DRAMCtrl_consts d (2 ^ l) stripe; g = bank_groups_per_rank d in
       (fatal_if (tREFI p \<le> tRP p \<or> tREFI p \<le> tRFC p) ''tREFI must be larger than tRP and tRFC''
      (fatal_if (bankGroupArch p \<and> g > banksPerRank p) ''banks per rank''
      (fatal_if (bankGroupArch p \<and> banksPerRank p mod g \<noteq> 0) ''Banks per rank must be evenly divisible''
      (fatal_if (bankGroupArch p \<and> tCCD_L p \<le> tBURST p) ''tCCD_L should be larger than tBURST''
      (fatal_if (bankGroupArch p \<and> tRRD_L p < tRRD p) ''tRRD_L should be larger than tRRD''
        (Inr p)))))))))))"

text \<open>
  \<^verbatim>\<open>init\<close>: the checks of the interleaving, given as granularity and number of stripes of
  the range, against the row buffer and the cache line size of the system.
\<close>

definition DRAMCtrl_init_checks ::
  "dram_config \<Rightarrow> dram_params \<Rightarrow> bool \<Rightarrow> (nat \<times> nat) option \<Rightarrow> nat \<Rightarrow> unit res" where
  "DRAMCtrl_init_checks d p connected ilv cacheLineSize =
     (let row = devices_per_rank d * device_rowbuffer_size d in
      fatal_if (\<not> connected) ''DRAMCtrl is unconnected''
      (case ilv of
         None \<Rightarrow> Inr ()
       | Some (granularity, stripes) \<Rightarrow>
           fatal_if (channels p \<noteq> stripes) ''interleaved address stripes''
           (if addrMapping p = RoRaBaChCo then
              fatal_if (row \<noteq> granularity) ''Channel interleaving does not match RoRaBaChCo'' (Inr ())
            else
              assertE ''columnsPerStripe >= 1'' (columnsPerStripe p \<ge> 1)
              (fatal_if (cacheLineSize > granularity) ''at least as large as the cache line size''
              (fatal_if (row < granularity) ''at most as large as the row-buffer size''
              (assertE ''columnsPerStripe <= columnsPerRowBuffer'' (columnsPerStripe p \<le> columnsPerRowBuffer p)
                 (Inr ())))))))"

lemma fatal_if_eq_Inr [res_simps]: "fatal_if b msg k = Inr x \<longleftrightarrow> \<not> b \<and> k = Inr x"
  by (simp add: fatal_if_def)

lemma fatal_if_simps [simp]: "fatal_if True msg k = Inl (FatalError msg)" "fatal_if False msg k = k"
  by (simp_all add: fatal_if_def)

text \<open>The constants of the main memory of the system, 4GB of DDR3.\<close>

definition ddr3_params :: dram_params where
  "ddr3_params = DRAMCtrl_consts DDR3_1600_x64 (2 ^ 32) None"

lemmas ddr3_simps = ddr3_params_def DRAMCtrl_consts_def DDR3_1600_x64_def

lemma ddr3_fields:
  "burstSize ddr3_params = 64" "columnsPerRowBuffer ddr3_params = 128" "columnsPerStripe ddr3_params = 1" "ranksPerChannel ddr3_params = 1"
  "\<not> bankGroupArch ddr3_params" "banksPerRank ddr3_params = 8" "channels ddr3_params = 1" "rowsPerBank ddr3_params = 65536"
  "readBufferSize ddr3_params = 32" "writeBufferSize ddr3_params = 64" "writeHighThreshold ddr3_params = 54" "writeLowThreshold ddr3_params = 32"
  "minWritesPerSwitch ddr3_params = 16" "tCK ddr3_params = 1250" "tWTR ddr3_params = 7500" "tRTW ddr3_params = 2500"
  "tCS ddr3_params = 2500" "tBURST ddr3_params = 5000" "tCCD_L ddr3_params = 0" "tRCD ddr3_params = 13750"
  "tCL ddr3_params = 13750" "tRP ddr3_params = 13750" "tRAS ddr3_params = 35000" "tWR ddr3_params = 15000"
  "tRTP ddr3_params = 7500" "tRFC ddr3_params = 260000" "tREFI ddr3_params = 7800000" "tRRD ddr3_params = 6000"
  "tRRD_L ddr3_params = 0" "tXAW ddr3_params = 30000" "activationLimit ddr3_params = 4" "memSchedPolicy ddr3_params = frfcfs"
  "addrMapping ddr3_params = RoRaBaCoCh" "pageMgmt ddr3_params = PM_open_adaptive" "maxAccessesPerRow ddr3_params = 16" "frontendLatency ddr3_params = 10000"
  "backendLatency ddr3_params = 10000"
  by (simp_all add: ddr3_simps)

lemma ddr3_accepted: "DRAMCtrl_new DDR3_1600_x64 (4 * 1024 * 1024 * 1024) None = Inr ddr3_params"
  by (simp add: DRAMCtrl_new_def ddr3_simps isPowerOf2_def leastSigBit_def ceilLog2_def floorLog2_def)

end
