(* ===== verification/DRAM_Refresh.thy ===== *)
theory DRAM_Refresh
  imports DRAM_Config
begin

text \<open>
  The refresh and power state machines of a rank: the methods of \<^verbatim>\<open>DRAMCtrl::Rank\<close> in
  \<^verbatim>\<open>src/gem5/src/mem/dram_ctrl.cc\<close>. The two things a rank reads of its controller, the rank
  of the last burst and whether the request event is scheduled, are arguments; that a rank
  wakes up the request loop is part of the result. The energy numbers of DRAMPower and
  the statistics are left out; its command log is kept.
\<close>

section \<open>Operations\<close>

definition Rank_init :: "dram_params \<Rightarrow> nat \<Rightarrow> nat \<Rightarrow> rank" where
  "Rank_init p groups i =
     \<lparr>pwrStateTrans = PWR_IDLE, pwrState = PWR_IDLE, pwrStateTick = 0, refreshState = REF_IDLE,
      refreshDueAt = 0, rank_no = i,
      banks = map (\<lambda>b. Bank_init\<lparr>bank_no := b, bankgr := if bankGroupArch p then b mod groups else b\<rparr>)
                [0 ..< banksPerRank p],
      numBanksActive = 0, actTicks = replicate (activationLimit p) 0, activateEvent = None,
      prechargeEvent = None, refreshEvent = None, powerEvent = None, powerCmds = []\<rparr>"

definition rank_startup :: "tick \<Rightarrow> rank \<Rightarrow> tick \<Rightarrow> rank res" where
  "rank_startup now rk ref_tick =
     assertE ''ref_tick > curTick()'' (ref_tick > now)
       (bindE (ev_schedule now (refreshEvent rk) ref_tick) (\<lambda>e.
         Inr (rk\<lparr>pwrStateTick := now, refreshEvent := e\<rparr>)))"

definition rank_suspend :: "rank \<Rightarrow> rank res" where
  "rank_suspend rk = bindE (ev_deschedule (refreshEvent rk)) (\<lambda>e. Inr (rk\<lparr>refreshEvent := e\<rparr>))"

definition checkDrainDone :: "tick \<Rightarrow> rank \<Rightarrow> rank res" where
  "checkDrainDone now rk =
     (if refreshState rk = REF_DRAIN then
        bindE (ev_schedule now (refreshEvent rk) now) (\<lambda>e.
          Inr (rk\<lparr>refreshState := REF_PRE, refreshEvent := e\<rparr>))
      else Inr rk)"

definition schedulePowerEvent :: "tick \<Rightarrow> rank \<Rightarrow> power_state \<Rightarrow> tick \<Rightarrow> rank res" where
  "schedulePowerEvent now rk pwr t =
     assertE ''tick >= curTick()'' (t \<ge> now)
       (if \<not> scheduled (powerEvent rk) then
          bindE (ev_schedule now (powerEvent rk) t) (\<lambda>e. Inr (rk\<lparr>pwrStateTrans := pwr, powerEvent := e\<rparr>))
        else Inl (PanicError ''Scheduled power event with scheduled event''))"

text \<open>A handler runs when its event fires: the event is no longer scheduled.\<close>

definition processActivateEvent :: "tick \<Rightarrow> rank \<Rightarrow> rank res" where
  "processActivateEvent now rk0 =
     (let rk = rk0\<lparr>activateEvent := None\<rparr> in
      if pwrState rk \<noteq> PWR_ACT then schedulePowerEvent now rk PWR_ACT now else Inr rk)"

definition processPrechargeEvent :: "tick \<Rightarrow> rank \<Rightarrow> rank res" where
  "processPrechargeEvent now rk0 =
     (let rk = rk0\<lparr>prechargeEvent := None\<rparr> in
      if numBanksActive rk = 0 then schedulePowerEvent now rk PWR_IDLE now else Inr rk)"

definition refresh_pre_at :: "tick \<Rightarrow> rank \<Rightarrow> tick" where
  "refresh_pre_at now rk = fold (\<lambda>bk t. max (preAllowedAt bk) t) (banks rk) now"

definition refresh_bank :: "dram_params \<Rightarrow> tick \<Rightarrow> tick \<Rightarrow> tick \<Rightarrow> nat \<Rightarrow> rank \<Rightarrow> rank res" where
  "refresh_bank p now off pre_at b rk =
     (if openRow (banks rk ! b) \<noteq> NO_ROW then prechargeBank p now off rk b pre_at False
      else Inr (upd_bank b (\<lambda>bk. bk\<lparr>actAllowedAt := max (actAllowedAt bk) (pre_at + tRP p),
                                    preAllowedAt := max (preAllowedAt bk) pre_at\<rparr>) rk))"

fun refresh_banks :: "dram_params \<Rightarrow> tick \<Rightarrow> tick \<Rightarrow> tick \<Rightarrow> nat list \<Rightarrow> rank \<Rightarrow> rank res" where
  "refresh_banks p now off pre_at [] rk = Inr rk"
| "refresh_banks p now off pre_at (b # bs) rk =
     bindE (refresh_bank p now off pre_at b rk) (refresh_banks p now off pre_at bs)"

text \<open>The branch \<^verbatim>\<open>REF_PRE\<close>: precharge all banks, or go straight to the refresh when the rank is idle.\<close>

definition refresh_pre :: "dram_params \<Rightarrow> tick \<Rightarrow> tick \<Rightarrow> rank \<Rightarrow> rank res" where
  "refresh_pre p now off rk =
     bindE (if pwrState rk \<noteq> PWR_IDLE then
              let pre_at = refresh_pre_at now rk in
              bindE (refresh_banks p now off pre_at [0 ..< length (banks rk)] rk) (\<lambda>rk1.
                Inr (power_cmd p off PREA 0 pre_at rk1))
            else schedulePowerEvent now rk PWR_REF now) (\<lambda>rk1.
     let rk2 = rk1\<lparr>refreshState := REF_RUN\<rparr> in
     assertE ''numBanksActive == 0'' (numBanksActive rk2 = 0) (Inr rk2))"

text \<open>The branch \<^verbatim>\<open>REF_RUN\<close>: the refresh itself.\<close>

definition refresh_run :: "dram_params \<Rightarrow> tick \<Rightarrow> tick \<Rightarrow> rank \<Rightarrow> rank res" where
  "refresh_run p now off rk =
     assertE ''numBanksActive == 0'' (numBanksActive rk = 0)
     (assertE ''pwrState == PWR_REF'' (pwrState rk = PWR_REF)
     (let ref_done_at = now + tRFC p;
          rk1 = rk\<lparr>banks := map (\<lambda>bk. bk\<lparr>actAllowedAt := ref_done_at\<rparr>) (banks rk)\<rparr>;
          rk2 = power_cmd p off REF 0 now rk1
      in if refreshDueAt rk2 + tREFI p < ref_done_at then
           Inl (FatalError ''Refresh was delayed so long we cannot catch up'')
         else
           bindE (ev_schedule now (refreshEvent rk2) (tsub (refreshDueAt rk2 + tREFI p) (tRP p))) (\<lambda>e.
           let rk3 = rk2\<lparr>refreshEvent := e\<rparr> in
           assertE ''!powerEvent.scheduled()'' (\<not> scheduled (powerEvent rk3))
             (schedulePowerEvent now rk3 PWR_IDLE ref_done_at))))"

definition processRefreshEvent ::
  "dram_params \<Rightarrow> tick \<Rightarrow> tick \<Rightarrow> nat \<Rightarrow> bool \<Rightarrow> rank \<Rightarrow> rank res" where
  "processRefreshEvent p now off activeRank nextReqScheduled rk0 =
     (let rk1 = (if refreshState rk0 = REF_IDLE
                 then rk0\<lparr>refreshDueAt := now, refreshState := REF_DRAIN\<rparr> else rk0) in
      if refreshState rk1 = REF_DRAIN \<and> rank_no rk1 = activeRank \<and> nextReqScheduled then Inr rk1
      else
        let rk2 = (if refreshState rk1 = REF_DRAIN then rk1\<lparr>refreshState := REF_PRE\<rparr> else rk1) in
        if refreshState rk2 = REF_PRE then refresh_pre p now off rk2
        else if refreshState rk2 = REF_RUN then refresh_run p now off rk2
        else Inr rk2)"

text \<open>The event that fires is taken off the queue first; the call from the power machine does not do this.\<close>

definition fireRefreshEvent ::
  "dram_params \<Rightarrow> tick \<Rightarrow> tick \<Rightarrow> nat \<Rightarrow> bool \<Rightarrow> rank \<Rightarrow> rank res" where
  "fireRefreshEvent p now off activeRank nextReqScheduled rk =
     processRefreshEvent p now off activeRank nextReqScheduled (rk\<lparr>refreshEvent := None\<rparr>)"

text \<open>The boolean of the result says that the request event is to be scheduled at the current tick.\<close>

definition processPowerEvent ::
  "dram_params \<Rightarrow> tick \<Rightarrow> tick \<Rightarrow> nat \<Rightarrow> bool \<Rightarrow> rank \<Rightarrow> (rank \<times> bool) res" where
  "processPowerEvent p now off activeRank nextReqScheduled rk0 =
     (let prev_state = pwrState rk0;
          rk1 = rk0\<lparr>powerEvent := None, pwrState := pwrStateTrans rk0, pwrStateTick := now\<rparr>
      in
      bindE (if pwrState rk1 = PWR_IDLE then
               if prev_state = PWR_REF then
                 Inr (rk1\<lparr>refreshState := REF_IDLE\<rparr>, \<not> nextReqScheduled)
               else
                 assertE ''prev_state == PWR_ACT'' (prev_state = PWR_ACT)
                 (if refreshState rk1 = REF_RUN then
                    assertE ''!powerEvent.scheduled()'' (\<not> scheduled (powerEvent rk1))
                      (Inr (rk1\<lparr>pwrState := PWR_REF\<rparr>, False))
                  else Inr (rk1, False))
             else Inr (rk1, False)) (\<lambda>(rk2, kick).
      if pwrState rk2 = PWR_REF then
        assertE ''refreshState == REF_RUN'' (refreshState rk2 = REF_RUN)
          (bindE (processRefreshEvent p now off activeRank (nextReqScheduled \<or> kick) rk2) (\<lambda>rk3. Inr (rk3, kick)))
      else Inr (rk2, kick)))"

section \<open>Precharging all banks\<close>

lemma refresh_pre_at_ge:
  "now \<le> refresh_pre_at now rk" "bk \<in> set (banks rk) \<Longrightarrow> preAllowedAt bk \<le> refresh_pre_at now rk"
proof -
  have fold_ge: "t \<le> fold (\<lambda>bk t. max (preAllowedAt bk) t) bs t" for bs :: "bank list" and t
  proof (induction bs arbitrary: t)
    case (Cons b bs)
    show ?case using order_trans [OF max.cobounded2 Cons.IH [of "max (preAllowedAt b) t"]] by simp
  qed simp
  have "\<forall>bk \<in> set bs. preAllowedAt bk \<le> fold (\<lambda>bk t. max (preAllowedAt bk) t) bs t"
    for bs :: "bank list" and t
  proof (induction bs arbitrary: t)
    case (Cons b bs)
    then show ?case using fold_ge [of "max (preAllowedAt b) t" bs] by auto
  qed simp
  then show "bk \<in> set (banks rk) \<Longrightarrow> preAllowedAt bk \<le> refresh_pre_at now rk"
    by (auto simp: refresh_pre_at_def)
  show "now \<le> refresh_pre_at now rk" using fold_ge by (simp add: refresh_pre_at_def)
qed

lemma act_times_upd:
  "b < length (banks rk) \<Longrightarrow>
     act_times (upd_bank b f rk) = (act_times rk)[b := actAllowedAt (f (banks rk ! b))]"
  by (simp add: act_times_def upd_bank_def map_update)

lemma rank_inv_raise:
  assumes "rank_inv p rk" and "b < length (banks rk)"
    and "openRow (f (banks rk ! b)) = openRow (banks rk ! b)"
    and "actAllowedAt (banks rk ! b) \<le> actAllowedAt (f (banks rk ! b))"
  shows "rank_inv p (upd_bank b f rk)" "open_rows (upd_bank b f rk) = open_rows rk"
proof -
  show rows: "open_rows (upd_bank b f rk) = open_rows rk"
    using assms(2,3) by (auto simp: open_rows_def nth_list_update intro: nth_equalityI)
  have "\<exists>a \<in> set (act_times rk). a \<le> a'" if "a' \<in> set (act_times (upd_bank b f rk))" for a'
  proof -
    have "a' = actAllowedAt (f (banks rk ! b)) \<or> a' \<in> set (act_times rk)"
      using that set_update_subset_insert assms(2) by (fastforce simp: act_times_upd)
    moreover have "actAllowedAt (banks rk ! b) \<in> set (act_times rk)" using assms(2) by (simp add: act_times_def)
    ultimately show ?thesis using assms(4) by auto
  qed
  then have "act_window p (actTicks rk) (act_times (upd_bank b f rk))"
    using assms(1) by (auto simp: rank_inv_def intro: act_window_mono)
  then show "rank_inv p (upd_bank b f rk)" using assms(1) rows by (simp add: rank_inv_def)
qed

lemma refresh_bank_ok:
  assumes "rank_inv p rk" and "b < length (banks rk)" and "now \<le> pre_at"
  shows "\<exists>rk'. refresh_bank p now off pre_at b rk = Inr rk' \<and> rank_inv p rk' \<and>
           open_rows rk' = (open_rows rk)[b := NO_ROW]"
proof (cases "openRow (banks rk ! b) = NO_ROW")
  case True
  let ?f = "\<lambda>bk. bk\<lparr>actAllowedAt := max (actAllowedAt bk) (pre_at + tRP p),
                    preAllowedAt := max (preAllowedAt bk) pre_at\<rparr>"
  have "rank_inv p (upd_bank b ?f rk)" "open_rows (upd_bank b ?f rk) = open_rows rk"
    using rank_inv_raise [OF assms(1,2), of ?f] by auto
  then show ?thesis using True assms(2) by (simp add: refresh_bank_def open_rows_same)
next
  case False
  then show ?thesis
    using prechargeBank_ok [OF assms(1,2) False assms(3), of off False] by (auto simp: refresh_bank_def)
qed

lemma refresh_banks_ok:
  assumes "rank_inv p rk" and "set bs \<subseteq> {0 ..< length (banks rk)}" and "now \<le> pre_at"
  shows "\<exists>rk'. refresh_banks p now off pre_at bs rk = Inr rk' \<and> rank_inv p rk' \<and>
           length (banks rk') = length (banks rk) \<and>
           (\<forall>i < length (banks rk). open_rows rk' ! i = (if i \<in> set bs then NO_ROW else open_rows rk ! i))"
  using assms
proof (induction bs arbitrary: rk)
  case Nil
  then show ?case by simp
next
  case (Cons b bs)
  have "b < length (banks rk)" using Cons.prems(2) by simp
  from refresh_bank_ok [OF Cons.prems(1) this Cons.prems(3), of off]
  obtain rk1 where r: "refresh_bank p now off pre_at b rk = Inr rk1" "rank_inv p rk1"
    "open_rows rk1 = (open_rows rk)[b := NO_ROW]" by blast
  have l: "length (banks rk1) = length (banks rk)" using r(3) by (metis length_list_update length_open_rows)
  have "set bs \<subseteq> {0 ..< length (banks rk1)}" using Cons.prems(2) l by simp
  from Cons.IH [OF r(2) this Cons.prems(3)] obtain rk2 where
    "refresh_banks p now off pre_at bs rk1 = Inr rk2" "rank_inv p rk2" "length (banks rk2) = length (banks rk1)"
    "\<forall>i < length (banks rk1). open_rows rk2 ! i = (if i \<in> set bs then NO_ROW else open_rows rk1 ! i)" by blast
  then show ?case using r l by (auto simp: nth_list_update simp del: open_rows_nth)
qed

lemma all_closed_count: "(\<forall>i < length xs. xs ! i = NO_ROW) \<Longrightarrow> count_if (\<lambda>r. r \<noteq> NO_ROW) xs = 0"
  by (auto simp: count_if_def in_set_conv_nth filter_empty_conv)

text \<open>Before a refresh, all banks of an active rank are precharged: no assertion fails, no bank keeps an open row, and the rank waits for the refresh to run.\<close>

lemma refresh_pre_active:
  assumes "rank_inv p rk" and "pwrState rk \<noteq> PWR_IDLE"
  shows "\<exists>rk'. refresh_pre p now off rk = Inr rk' \<and> rank_inv p rk' \<and> numBanksActive rk' = 0 \<and>
           (\<forall>bk \<in> set (banks rk'). openRow bk = NO_ROW) \<and> refreshState rk' = REF_RUN"
proof -
  let ?t = "refresh_pre_at now rk"
  obtain rk1 where r: "refresh_banks p now off ?t [0 ..< length (banks rk)] rk = Inr rk1" "rank_inv p rk1"
      "length (banks rk1) = length (banks rk)" "\<forall>i < length (banks rk). open_rows rk1 ! i = NO_ROW"
    using refresh_banks_ok [OF assms(1) _ refresh_pre_at_ge(1) [of now rk], of "[0 ..< length (banks rk)]" off]
    by (auto simp del: open_rows_nth)
  have zero: "numBanksActive rk1 = 0"
    using r(2-4) all_closed_count [of "open_rows rk1"] by (simp add: rank_inv_def)
  let ?rk' = "(power_cmd p off PREA 0 ?t rk1)\<lparr>refreshState := REF_RUN\<rparr>"
  have "refresh_pre p now off rk = Inr ?rk'" using assms(2) r(1) zero by (simp add: refresh_pre_def Let_def)
  moreover have "rank_inv p ?rk'" using r(2) by (simp add: rank_inv_def open_rows_def act_times_def)
  moreover have "\<forall>bk \<in> set (banks ?rk'). openRow bk = NO_ROW"
    using r(3,4) by (auto simp: in_set_conv_nth)
  ultimately show ?thesis using zero by auto
qed

section \<open>The refresh itself\<close>

lemma Rank_init_inv: "rank_inv p (Rank_init p g i)"
proof -
  have "open_rows (Rank_init p g i) = replicate (banksPerRank p) NO_ROW"
    by (simp add: Rank_init_def open_rows_def Bank_init_def comp_def map_replicate_const)
  moreover have "sorted_wrt (\<ge>) (replicate n (0 :: nat))" for n by (induction n) auto
  ultimately show ?thesis by (auto simp: rank_inv_def act_window_def Rank_init_def)
qed

text \<open>
  A refresh that starts in time blocks every bank for tRFC, plans the next refresh relative
  to the tick this one was due, and the return to idle at its end; one that starts too late
  stops the simulation.
\<close>

definition refresh_in_time :: "dram_params \<Rightarrow> tick \<Rightarrow> rank \<Rightarrow> bool" where
  "refresh_in_time p now rk \<longleftrightarrow>
     now + tRFC p \<le> refreshDueAt rk + tREFI p \<and> now + tRP p \<le> refreshDueAt rk + tREFI p"

lemma refresh_run_ok:
  assumes "numBanksActive rk = 0" and "pwrState rk = PWR_REF" and "refreshEvent rk = None"
    and "powerEvent rk = None" and "refresh_in_time p now rk"
  shows "\<exists>rk'. refresh_run p now off rk = Inr rk' \<and>
           banks rk' = map (\<lambda>bk. bk\<lparr>actAllowedAt := now + tRFC p\<rparr>) (banks rk) \<and>
           refreshEvent rk' = Some (refreshDueAt rk + tREFI p - tRP p) \<and>
           powerEvent rk' = Some (now + tRFC p) \<and> pwrStateTrans rk' = PWR_IDLE \<and>
           pwrState rk' = PWR_REF \<and> refreshState rk' = refreshState rk \<and>
           numBanksActive rk' = 0 \<and> actTicks rk' = actTicks rk"
proof -
  have "tsub (refreshDueAt rk + tREFI p) (tRP p) = refreshDueAt rk + tREFI p - tRP p"
    using assms(5) by (simp add: refresh_in_time_def tsub_le)
  moreover have "now \<le> refreshDueAt rk + tREFI p - tRP p" using assms(5) unfolding refresh_in_time_def by linarith
  ultimately show ?thesis
    using assms by (simp add: refresh_run_def Let_def schedulePowerEvent_def ev_schedule_def refresh_in_time_def)
qed

text \<open>A refresh that cannot end before the next one is due stops the simulation with an error.\<close>

lemma refresh_run_too_late:
  assumes "numBanksActive rk = 0" and "pwrState rk = PWR_REF" and "refreshDueAt rk + tREFI p < now + tRFC p"
  shows "refresh_run p now off rk = Inl (FatalError ''Refresh was delayed so long we cannot catch up'')"
  using assms by (simp add: refresh_run_def Let_def)

lemma refresh_run_inv:
  assumes "rank_inv p rk" and "refresh_run p now off rk = Inr rk'"
    and "\<forall>t \<in> set (actTicks rk). t + tXAW p \<le> now + tRFC p"
  shows "rank_inv p rk'"
proof -
  have f: "banks rk' = map (\<lambda>bk. bk\<lparr>actAllowedAt := now + tRFC p\<rparr>) (banks rk)"
    "numBanksActive rk' = numBanksActive rk" "actTicks rk' = actTicks rk"
    using assms(2) by (auto simp: refresh_run_def Let_def res_simps schedulePowerEvent_def split: if_splits)
  have rows: "open_rows rk' = open_rows rk" using f(1) by (simp add: open_rows_def comp_def)
  have times: "a = now + tRFC p" if "a \<in> set (act_times rk')" for a
    using that f(1) by (auto simp: act_times_def)
  have "act_window p (actTicks rk) (act_times rk')"
    unfolding act_window_def
  proof (intro conjI ballI impI)
    show "sorted_wrt (\<ge>) (actTicks rk)" using assms(1) by (simp add: rank_inv_def act_window_def)
    fix a assume a: "a \<in> set (act_times rk')"
    show "t \<le> a" if "t \<in> set (actTicks rk)" for t using times [OF a] assms(3) that by auto
    show "last (actTicks rk) + tXAW p \<le> a" if "actTicks rk \<noteq> []"
      using times [OF a] assms(3) that by simp
  qed
  then show ?thesis using assms(1) f rows by (simp add: rank_inv_def)
qed

text \<open>
  A whole refresh of an idle rank: the refresh event fires, the power machine enters the
  refresh state at the same tick, and leaves it tRFC later, when the rank is available
  again and wakes up the request loop.
\<close>

definition refresh_cycle :: "dram_params \<Rightarrow> tick \<Rightarrow> tick \<Rightarrow> nat \<Rightarrow> bool \<Rightarrow> rank \<Rightarrow> (rank \<times> bool) res" where
  "refresh_cycle p now off ar nr rk =
     bindE (fireRefreshEvent p now off ar nr rk) (\<lambda>rk1.
     bindE (processPowerEvent p now off ar nr rk1) (\<lambda>(rk2, _).
     processPowerEvent p (now + tRFC p) off ar nr rk2))"


section \<open>Properties of banks and bursts\<close>


text \<open>C5: an activate at a time the bank allows never breaks the activation window: the oldest
  activate of the window is at least tXAW in the past, the panic of the window check is not reached,
  and every bank of the rank now waits tRRD (tRRD\_L in the same bank group) after this activate.\<close>

theorem activate_in_window:
  assumes "rank_inv p rk" and "b < length (banks rk)" and "openRow (banks rk ! b) = NO_ROW" and "row \<noteq> NO_ROW"
    and "actAllowedAt (banks rk ! b) \<le> act_tick" and "now \<le> act_tick"
  shows "(actTicks rk \<noteq> [] \<longrightarrow> last (actTicks rk) \<noteq> 0 \<longrightarrow> last (actTicks rk) + tXAW p \<le> act_tick) \<and>
         (\<exists>rk'. activateBank p now off rk b act_tick row = Inr rk' \<and> rank_inv p rk' \<and>
           open_rows rk' = (open_rows rk)[b := row] \<and>
           (\<forall>i < length (banks rk). act_tick + (if bankGroupArch p \<and> bankgr (banks rk ! b) = bankgr (banks rk ! i)
              then tRRD_L p else tRRD p) \<le> actAllowedAt (banks rk' ! i)))"
proof
  have "actAllowedAt (banks rk ! b) \<in> set (act_times rk)" using assms(2) by (simp add: act_times_def)
  then show "actTicks rk \<noteq> [] \<longrightarrow> last (actTicks rk) \<noteq> 0 \<longrightarrow> last (actTicks rk) + tXAW p \<le> act_tick"
    using assms(1,5) act_window_bound(2) unfolding rank_inv_def by blast
qed (use activateBank_ok [OF assms] in blast)

subsection \<open>The properties at a concrete rank\<close>

definition ddr3_rank :: rank where
  "ddr3_rank = Rank_init ddr3_params 0 0"

definition ddr3_burst :: burst_state where
  "ddr3_burst = \<lparr>bs_ranks = [ddr3_rank], bs_busBusyUntil = 50000, bs_activeRank = 0\<rparr>"

definition ddr3_read :: dram_packet where
  "ddr3_read = \<lparr>entryTime = 0, dp_readyTime = 0, dp_pkt = new_packet 0 (setPhys 64 64 (Some 0)) ReadReq, requestAddr = 0,
     dp_isRead = True, isFill = False, contextId = 0, dp_rank = 0, dp_bank = 2, dp_row = 5, bankId = 2, dp_addr = 64,
     dp_size = 64, burstHelper = None\<rparr>"

lemma ddr3_rank_bank:
  "length (banks ddr3_rank) = 8"
  "i < 8 \<Longrightarrow> banks ddr3_rank ! i = Bank_init\<lparr>bank_no := i, bankgr := i\<rparr>"
  "rank_inv ddr3_params ddr3_rank"
  unfolding ddr3_rank_def by (simp_all add: Rank_init_inv) (simp_all add: Rank_init_def ddr3_fields)


lemma activate_in_window_witness:
  "\<exists>rk'. activateBank ddr3_params 100 0 ddr3_rank 3 100 7 = Inr rk' \<and> rank_inv ddr3_params rk' \<and>
     open_rows rk' = (open_rows ddr3_rank)[3 := 7]"
  using activate_in_window [of ddr3_params ddr3_rank 3 7 100 100 0]
  by (auto simp: ddr3_rank_bank Bank_init_def NO_ROW_def)


end
