(* ===== verification/Abstract_Mem.thy ===== *)
theory Abstract_Mem
  imports Packet
begin

text \<open>
  The memory behind the controllers: \<^verbatim>\<open>src/gem5/src/mem/abstract_mem.hh\<close> and
  \<^verbatim>\<open>src/gem5/src/mem/abstract_mem.cc\<close>. The memory holds one contiguous range of bytes, or
  none when it is configured without storage, and the reservations of load-locked and
  store-conditional. Waking up the CPU of a lost reservation is a log entry. Words are
  compared in the byte order of a little-endian host.
\<close>

unbundle bit_operations_syntax

section \<open>Operations\<close>

record memory =
  mem_start :: addr
  mem_size :: nat
  pmem :: "u8 list option"
  lockedAddrList :: "(addr \<times> nat) list"
  wakeups :: "nat list"

definition lock_mask :: "addr \<Rightarrow> addr" where
  "lock_mask paddr = paddr AND NOT 0xf"

text \<open>\<^verbatim>\<open>Request::contextId()\<close> does not check that a context has been set; the constructors leave zero.\<close>

definition contextId_of :: "request \<Rightarrow> nat" where
  "contextId_of r = (case req_context r of None \<Rightarrow> 0 | Some c \<Rightarrow> c)"

fun update_lock :: "nat \<Rightarrow> addr \<Rightarrow> (addr \<times> nat) list \<Rightarrow> (addr \<times> nat) list option" where
  "update_lock c a [] = None"
| "update_lock c a ((b, d) # ls) =
     (if d = c then Some ((a, d) # ls) else map_option (\<lambda>ls'. (b, d) # ls') (update_lock c a ls))"

definition trackLoadLocked :: "memory \<Rightarrow> packet \<Rightarrow> memory res" where
  "trackLoadLocked m pkt =
     (let c = contextId_of (req pkt); paddr = lock_mask (req_paddr (req pkt)) in
      case update_lock c paddr (lockedAddrList m) of
        Some ls \<Rightarrow> Inr (m\<lparr>lockedAddrList := ls\<rparr>)
      | None \<Rightarrow> Inr (m\<lparr>lockedAddrList := (paddr, c) # lockedAddrList m\<rparr>))"

definition setExtraData :: "packet \<Rightarrow> u64 \<Rightarrow> packet" where
  "setExtraData pkt v = pkt\<lparr>req := (req pkt)\<lparr>req_extraData := v\<rparr>\<rparr>"

definition checkLockedAddrList :: "memory \<Rightarrow> packet \<Rightarrow> (memory \<times> packet \<times> bool) res" where
  "checkLockedAddrList m pkt =
     (let paddr = lock_mask (req_paddr (req pkt)) in
      bindE (if isLLSC pkt then
               let ok = list_ex (\<lambda>l. l = (paddr, contextId_of (req pkt))) (lockedAddrList m)
               in Inr (setExtraData pkt (if ok then 1 else 0), ok)
             else Inr (pkt, True)) (\<lambda>(pkt1, allowStore).
      if allowStore then
        Inr (m\<lparr>lockedAddrList := filter (\<lambda>l. fst l \<noteq> paddr) (lockedAddrList m),
               wakeups := wakeups m @ map snd (filter (\<lambda>l. fst l = paddr) (lockedAddrList m))\<rparr>, pkt1, True)
      else Inr (m, pkt1, False)))"

definition writeOK :: "memory \<Rightarrow> packet \<Rightarrow> (memory \<times> packet \<times> bool) res" where
  "writeOK m pkt =
     (if lockedAddrList m = [] then
        if isLLSC pkt then Inr (m, setExtraData pkt 0, False) else Inr (m, pkt, True)
      else checkLockedAddrList m pkt)"

definition in_range :: "memory \<Rightarrow> packet \<Rightarrow> bool" where
  "in_range m pkt \<longleftrightarrow>
     mem_start m \<le> pkt_addr pkt \<and>
     unat (pkt_addr pkt + (word_of_nat (pkt_size pkt) - 1)) < unat (mem_start m) + mem_size m"

definition mem_off :: "memory \<Rightarrow> packet \<Rightarrow> nat" where
  "mem_off m pkt = unat (pkt_addr pkt - mem_start m)"

definition mem_read :: "memory \<Rightarrow> packet \<Rightarrow> packet res" where
  "mem_read m pkt =
     (case pmem m of None \<Rightarrow> Inr pkt
      | Some bytes \<Rightarrow>
          bindE (getPtr pkt) (\<lambda>buf.
          bindE (memcpy buf 0 bytes (mem_off m pkt) (pkt_size pkt)) (\<lambda>buf'.
          Inr (pkt\<lparr>pdata := Some buf'\<rparr>))))"

definition mem_write :: "memory \<Rightarrow> packet \<Rightarrow> u8 list \<Rightarrow> memory res" where
  "mem_write m pkt src =
     (case pmem m of None \<Rightarrow> Inr m
      | Some bytes \<Rightarrow>
          bindE (memcpy bytes (mem_off m pkt) src 0 (pkt_size pkt)) (\<lambda>bytes'.
          Inr (m\<lparr>pmem := Some bytes'\<rparr>)))"

definition le_bytes :: "nat \<Rightarrow> u64 \<Rightarrow> u8 list" where
  "le_bytes n w = map (\<lambda>i. ucast (drop_bit (8 * i) w)) [0 ..< n]"

definition swap_access :: "memory \<Rightarrow> packet \<Rightarrow> (memory \<times> packet) res" where
  "swap_access m pkt =
     (case pmem m of None \<Rightarrow> Inl (PanicError ''Swap only works if there is real memory'')
      | Some bytes \<Rightarrow>
          bindE (getPtr pkt) (\<lambda>overwrite_val.
          bindE (mem_read m pkt) (\<lambda>pkt1.
          bindE (if req_condswap (req pkt) then
                   if pkt_size pkt = 8 \<or> pkt_size pkt = 4 then
                     Inr (take (pkt_size pkt) (drop (mem_off m pkt) bytes) =
                          le_bytes (pkt_size pkt) (req_extraData (req pkt)))
                   else Inl (PanicError ''Invalid size for conditional read/write'')
                 else Inr True) (\<lambda>overwrite_mem.
          if overwrite_mem then bindE (mem_write m pkt overwrite_val) (\<lambda>m'. Inr (m', pkt1))
          else Inr (m, pkt1)))))"

definition store_data :: "memory \<Rightarrow> packet \<Rightarrow> bool \<Rightarrow> (memory \<times> packet) res" where
  "store_data m pkt ok =
     (if ok \<and> pmem m \<noteq> None then
        bindE (getPtr pkt) (\<lambda>buf. bindE (mem_write m pkt buf) (\<lambda>m'. Inr (m', pkt)))
      else Inr (m, pkt))"

text \<open>The branches of \<^verbatim>\<open>access\<close>, before the packet is turned into a response.\<close>

definition access_branch :: "memory \<Rightarrow> packet \<Rightarrow> (memory \<times> packet) res" where
  "access_branch m pkt =
     (if cmd pkt = SwapReq then swap_access m pkt
      else if isRead pkt then
        assertE ''!pkt->isWrite()'' (\<not> isWrite pkt)
          (bindE (if isLLSC pkt then trackLoadLocked m pkt else Inr m) (\<lambda>m1.
           bindE (mem_read m1 pkt) (\<lambda>pkt1. Inr (m1, pkt1))))
      else if isInvalidate pkt then Inr (m, pkt)
      else if isWrite pkt then
        bindE (writeOK m pkt) (\<lambda>(m1, pkt1, ok). store_data m1 pkt1 ok)
      else Inl (PanicError ''unimplemented''))"

definition access :: "memory \<Rightarrow> packet \<Rightarrow> (memory \<times> packet) res" where
  "access m pkt =
     (if flag_memInhibit pkt then Inr (m, pkt)
      else if cmd pkt = CleanEvict then Inr (m, pkt)
      else
        assertE ''AddrRange(addr, addr + size - 1).isSubset(range)'' (in_range m pkt)
        (bindE (access_branch m pkt) (\<lambda>(m', pkt').
          if needsResponse pkt' then bindE (makeResponse pkt') (\<lambda>pkt''. Inr (m', pkt''))
          else Inr (m', pkt'))))"

definition functionalAccess :: "memory \<Rightarrow> packet \<Rightarrow> (memory \<times> packet) res" where
  "functionalAccess m pkt =
     assertE ''AddrRange(addr, addr + size - 1).isSubset(range)'' (in_range m pkt)
     (if isRead pkt then
        bindE (mem_read m pkt) (\<lambda>pkt1. bindE (makeResponse pkt1) (\<lambda>pkt2. Inr (m, pkt2)))
      else if isWrite pkt then
        bindE (case pmem m of None \<Rightarrow> Inr m
               | Some _ \<Rightarrow> bindE (getPtr pkt) (mem_write m pkt)) (\<lambda>m1.
        bindE (makeResponse pkt) (\<lambda>pkt2. Inr (m1, pkt2)))
      else if isPrint pkt then Inr (m, pkt)
      else Inl (PanicError ''AbstractMemory: unimplemented functional command''))"

section \<open>Reservations\<close>

text \<open>Each context holds at most one reservation.\<close>

definition locks_ok :: "memory \<Rightarrow> bool" where
  "locks_ok m \<longleftrightarrow> distinct (map snd (lockedAddrList m))"

lemma update_lock_None: "update_lock c a ls = None \<longleftrightarrow> c \<notin> snd ` set ls"
  by (induction c a ls rule: update_lock.induct) auto

lemma update_lock_snd: "update_lock c a ls = Some ls' \<Longrightarrow> map snd ls' = map snd ls"
  by (induction c a ls arbitrary: ls' rule: update_lock.induct) (auto split: if_splits)

lemma update_lock_set:
  assumes "update_lock c a ls = Some ls'" and "distinct (map snd ls)"
  shows "set ls' = insert (a, c) {l \<in> set ls. snd l \<noteq> c}"
  using assms
proof (induction c a ls arbitrary: ls' rule: update_lock.induct)
  case (2 c a b d ls)
  then show ?case by (cases "d = c") (auto simp: image_iff)
qed simp

lemma trackLoadLocked_ok:
  assumes "trackLoadLocked m pkt = Inr m'" and "locks_ok m" and "contextId_of (req pkt) = c"
  shows "locks_ok m'"
    and "set (lockedAddrList m') =
           insert (lock_mask (req_paddr (req pkt)), c) {l \<in> set (lockedAddrList m). snd l \<noteq> c}"
    and "pmem m' = pmem m" and "mem_start m' = mem_start m" and "mem_size m' = mem_size m"
proof -
  let ?a = "lock_mask (req_paddr (req pkt))"
  have h: "m' = m\<lparr>lockedAddrList := lockedAddrList m'\<rparr> \<and> locks_ok m' \<and>
    set (lockedAddrList m') = insert (?a, c) {l \<in> set (lockedAddrList m). snd l \<noteq> c}"
  proof (cases "update_lock c ?a (lockedAddrList m)")
    case None
    then have fresh: "c \<notin> snd ` set (lockedAddrList m)" by (simp add: update_lock_None)
    then have "{l \<in> set (lockedAddrList m). snd l \<noteq> c} = set (lockedAddrList m)" by force
    then show ?thesis
      using None fresh assms by (auto simp: trackLoadLocked_def Let_def locks_ok_def)
  next
    case (Some ls)
    then show ?thesis
      using assms update_lock_snd [OF Some] update_lock_set [OF Some]
      by (auto simp: trackLoadLocked_def Let_def locks_ok_def)
  qed
  show "locks_ok m'" "set (lockedAddrList m') = insert (?a, c) {l \<in> set (lockedAddrList m). snd l \<noteq> c}"
    using h by blast+
  show "pmem m' = pmem m" "mem_start m' = mem_start m" "mem_size m' = mem_size m"
    by (subst h [THEN conjunct1], simp)+
qed

lemma writeOK_store:
  assumes "writeOK m pkt = Inr (m', pkt', ok)" and "\<not> isLLSC pkt"
  shows "ok" "pkt' = pkt"
    "lockedAddrList m' = filter (\<lambda>l. fst l \<noteq> lock_mask (req_paddr (req pkt))) (lockedAddrList m)"
    "pmem m' = pmem m" "mem_start m' = mem_start m" "mem_size m' = mem_size m"
  using assms by (auto simp: writeOK_def checkLockedAddrList_def Let_def split: if_splits)

lemma writeOK_sc:
  assumes "writeOK m pkt = Inr (m', pkt', ok)" and "isLLSC pkt" and "contextId_of (req pkt) = c"
  defines "a \<equiv> lock_mask (req_paddr (req pkt))"
  shows "ok \<longleftrightarrow> (a, c) \<in> set (lockedAddrList m)"
    "pkt' = setExtraData pkt (if ok then 1 else 0)"
    "lockedAddrList m' = (if ok then filter (\<lambda>l. fst l \<noteq> a) (lockedAddrList m) else lockedAddrList m)"
    "pmem m' = pmem m" "mem_start m' = mem_start m" "mem_size m' = mem_size m"
proof -
  have "ok = ((a, c) \<in> set (lockedAddrList m)) \<and> pkt' = setExtraData pkt (if ok then 1 else 0) \<and>
    lockedAddrList m' = (if ok then filter (\<lambda>l. fst l \<noteq> a) (lockedAddrList m) else lockedAddrList m) \<and>
    pmem m' = pmem m \<and> mem_start m' = mem_start m \<and> mem_size m' = mem_size m"
  proof (cases "lockedAddrList m = []")
    case True
    then show ?thesis using assms(1,2) by (auto simp: writeOK_def)
  next
    case False
    then show ?thesis
      using assms(1-3)
      by (cases "(a, c) \<in> set (lockedAddrList m)")
        (auto simp: writeOK_def checkLockedAddrList_def Let_def contextId_of_def list_ex_iff a_def)
  qed
  then show "ok \<longleftrightarrow> (a, c) \<in> set (lockedAddrList m)"
    "pkt' = setExtraData pkt (if ok then 1 else 0)"
    "lockedAddrList m' = (if ok then filter (\<lambda>l. fst l \<noteq> a) (lockedAddrList m) else lockedAddrList m)"
    "pmem m' = pmem m" "mem_start m' = mem_start m" "mem_size m' = mem_size m"
    by blast+
qed

text \<open>
  The three kinds of access that matter for reservations. A swap writes memory through
  another path and is none of them.
\<close>

definition load_locked :: "packet \<Rightarrow> nat \<Rightarrow> addr \<Rightarrow> bool" where
  "load_locked pkt c a \<longleftrightarrow>
     isRead pkt \<and> isLLSC pkt \<and> contextId_of (req pkt) = c \<and> lock_mask (req_paddr (req pkt)) = a"

definition plain_store :: "packet \<Rightarrow> addr \<Rightarrow> bool" where
  "plain_store pkt a \<longleftrightarrow>
     \<not> flag_memInhibit pkt \<and> cmd pkt \<noteq> CleanEvict \<and> cmd pkt \<noteq> SwapReq \<and> isWrite pkt \<and> \<not> isRead pkt \<and>
     \<not> isInvalidate pkt \<and> \<not> isLLSC pkt \<and> lock_mask (req_paddr (req pkt)) = a"

definition store_cond :: "packet \<Rightarrow> nat \<Rightarrow> addr \<Rightarrow> bool" where
  "store_cond pkt c a \<longleftrightarrow>
     \<not> flag_memInhibit pkt \<and> cmd pkt = StoreCondReq \<and> contextId_of (req pkt) = c \<and>
     lock_mask (req_paddr (req pkt)) = a"

lemma mem_write_frame:
  "mem_write m pkt src = Inr m' \<Longrightarrow> lockedAddrList m' = lockedAddrList m"
  by (auto simp: mem_write_def res_simps split: option.splits)

lemma store_data_frame:
  "store_data m pkt ok = Inr (m', pkt') \<Longrightarrow> lockedAddrList m' = lockedAddrList m \<and> pkt' = pkt"
  by (auto simp: store_data_def res_simps mem_write_frame split: if_splits)

lemma branch_write:
  assumes "access_branch m pkt = Inr (m', pkt')" and "cmd pkt \<noteq> SwapReq" and "\<not> isRead pkt"
    and "\<not> isInvalidate pkt"
  obtains m1 p1 ok where "writeOK m pkt = Inr (m1, p1, ok)" "store_data m1 p1 ok = Inr (m', pkt')"
    "lockedAddrList m' = lockedAddrList m1" "pkt' = p1"
proof -
  obtain m1 p1 ok where "writeOK m pkt = Inr (m1, p1, ok)" "store_data m1 p1 ok = Inr (m', pkt')"
    using assms by (auto simp: access_branch_def res_simps split: if_splits)
  then show ?thesis using that store_data_frame by blast
qed

lemma swap_access_frame:
  "swap_access m pkt = Inr (m', pkt') \<Longrightarrow> lockedAddrList m' = lockedAddrList m"
  by (auto simp: swap_access_def res_simps mem_write_frame split: option.splits if_splits)

lemma access_via_branch:
  assumes "access m pkt = Inr (m', pkt')" and "\<not> flag_memInhibit pkt" and "cmd pkt \<noteq> CleanEvict"
  shows "\<exists>pkt1. access_branch m pkt = Inr (m', pkt1) \<and> req pkt' = req pkt1"
  using assms by (auto simp: access_def res_simps split: if_splits)

lemma writeOK_locks_subset:
  assumes "writeOK m pkt = Inr (m', pkt', ok)"
  shows "set (lockedAddrList m') \<subseteq> set (lockedAddrList m)" "locks_ok m \<Longrightarrow> locks_ok m'"
proof -
  have "lockedAddrList m' = lockedAddrList m \<or>
        lockedAddrList m' = filter (\<lambda>l. fst l \<noteq> lock_mask (req_paddr (req pkt))) (lockedAddrList m)"
    using assms by (auto simp: writeOK_def checkLockedAddrList_def Let_def res_simps split: if_splits)
  then show "set (lockedAddrList m') \<subseteq> set (lockedAddrList m)" "locks_ok m \<Longrightarrow> locks_ok m'"
    by (auto simp: locks_ok_def distinct_map_filter)
qed

lemma access_branch_locks:
  assumes "access_branch m pkt = Inr (m', pkt')" and "locks_ok m"
  shows "locks_ok m'"
    and "\<not> load_locked pkt c a \<Longrightarrow> (a, c) \<notin> set (lockedAddrList m) \<Longrightarrow> (a, c) \<notin> set (lockedAddrList m')"
proof -
  have "locks_ok m' \<and> (\<not> load_locked pkt c a \<longrightarrow> (a, c) \<notin> set (lockedAddrList m) \<longrightarrow>
          (a, c) \<notin> set (lockedAddrList m'))"
  proof (cases "cmd pkt = SwapReq")
    case True
    then show ?thesis using assms swap_access_frame by (auto simp: access_branch_def locks_ok_def)
  next
    case sw: False
    show ?thesis
    proof (cases "isRead pkt")
      case rd: True
      show ?thesis
      proof (cases "isLLSC pkt")
        case True
        then have t: "trackLoadLocked m pkt = Inr m'"
          using assms(1) sw rd by (auto simp: access_branch_def res_simps)
        show ?thesis
          using trackLoadLocked_ok [OF t assms(2) refl] rd True by (auto simp: load_locked_def)
      next
        case False
        then show ?thesis using assms sw rd by (auto simp: access_branch_def res_simps)
      qed
    next
      case nr: False
      show ?thesis
      proof (cases "isInvalidate pkt")
        case True
        then show ?thesis using assms sw nr by (auto simp: access_branch_def)
      next
        case False
        obtain m1 p1 ok where w: "writeOK m pkt = Inr (m1, p1, ok)" "lockedAddrList m' = lockedAddrList m1"
          using branch_write [OF assms(1) sw nr False] by blast
        show ?thesis using writeOK_locks_subset [OF w(1)] w(2) assms(2) by (auto simp: locks_ok_def)
      qed
    qed
  qed
  then show "locks_ok m'"
    and "\<not> load_locked pkt c a \<Longrightarrow> (a, c) \<notin> set (lockedAddrList m) \<Longrightarrow> (a, c) \<notin> set (lockedAddrList m')"
    by blast+
qed

lemma access_locks:
  assumes "access m pkt = Inr (m', pkt')" and "locks_ok m"
  shows "locks_ok m'"
    and "\<not> load_locked pkt c a \<Longrightarrow> (a, c) \<notin> set (lockedAddrList m) \<Longrightarrow> (a, c) \<notin> set (lockedAddrList m')"
proof -
  have "m' = m \<or> (\<exists>pkt1. access_branch m pkt = Inr (m', pkt1))"
    using assms(1) access_via_branch [OF assms(1)] by (auto simp: access_def split: if_splits)
  then show "locks_ok m'"
    and "\<not> load_locked pkt c a \<Longrightarrow> (a, c) \<notin> set (lockedAddrList m) \<Longrightarrow> (a, c) \<notin> set (lockedAddrList m')"
    using access_branch_locks assms(2) by blast+
qed

lemma plain_store_clears:
  assumes "access m pkt = Inr (m', pkt')" and "plain_store pkt a"
  shows "(a, c) \<notin> set (lockedAddrList m')"
proof -
  obtain pkt1 where b: "access_branch m pkt = Inr (m', pkt1)"
    using access_via_branch [OF assms(1)] assms(2) by (auto simp: plain_store_def)
  obtain m1 p1 ok where w: "writeOK m pkt = Inr (m1, p1, ok)" "lockedAddrList m' = lockedAddrList m1"
    using branch_write [OF b] assms(2) unfolding plain_store_def by metis
  show ?thesis
    using writeOK_store(3) [OF w(1)] w(2) assms(2) by (auto simp: plain_store_def)
qed

lemma store_cond_fails:
  assumes "access m pkt = Inr (m', pkt')" and "store_cond pkt c a" and "(a, c) \<notin> set (lockedAddrList m)"
  shows "req_extraData (req pkt') = 0" "pmem m' = pmem m"
proof -
  have k: "isWrite pkt" "\<not> isRead pkt" "\<not> isInvalidate pkt" "isLLSC pkt" "cmd pkt \<noteq> SwapReq" "cmd pkt \<noteq> CleanEvict"
    using assms(2) by (auto simp: store_cond_def pkt_attr_defs cmd_defs)
  obtain pkt1 where b: "access_branch m pkt = Inr (m', pkt1)" "req pkt' = req pkt1"
    using access_via_branch [OF assms(1)] assms(2) k by (auto simp: store_cond_def)
  obtain m1 p1 ok where w: "writeOK m pkt = Inr (m1, p1, ok)" and st: "store_data m1 p1 ok = Inr (m', pkt1)"
    using branch_write [OF b(1) k(5,2,3)] by blast
  have "contextId_of (req pkt) = c" "lock_mask (req_paddr (req pkt)) = a" using assms(2) by (auto simp: store_cond_def)
  note sc = writeOK_sc [OF w k(4) this(1), unfolded this(2)]
  have "\<not> ok" using sc(1) assms(3) by simp
  then have "m' = m1" "pkt1 = p1" using st by (auto simp: store_data_def)
  then show "req_extraData (req pkt') = 0" "pmem m' = pmem m"
    using sc \<open>\<not> ok\<close> b(2) by (simp_all add: setExtraData_def)
qed

text \<open>A run of accesses, one after the other.\<close>

fun run :: "memory \<Rightarrow> packet list \<Rightarrow> memory res" where
  "run m [] = Inr m"
| "run m (p # ps) = bindE (access m p) (\<lambda>(m', _). run m' ps)"

lemma run_no_lock:
  assumes "run m ps = Inr m'" and "locks_ok m" and "\<forall>p \<in> set ps. \<not> load_locked p c a"
    and "(a, c) \<notin> set (lockedAddrList m)"
  shows "(a, c) \<notin> set (lockedAddrList m')"
  using assms
proof (induction ps arbitrary: m)
  case Nil
  then show ?case by simp
next
  case (Cons p ps)
  obtain m1 p1 where a: "access m p = Inr (m1, p1)" "run m1 ps = Inr m'"
    using Cons.prems(1) by (auto simp: res_simps)
  show ?case
    using Cons.IH [OF a(2)] access_locks [OF a(1) Cons.prems(2)] Cons.prems(3,4) by simp
qed

section \<open>Memory contents\<close>

lemma memcpy_full:
  assumes "length buf = n" and "s + n \<le> length src"
  shows "memcpy buf 0 src s n = Inr (take n (drop s src))"
  using assms by (simp add: memcpy_def)

lemma mem_write_read:
  assumes "mem_write m w src = Inr m'" and "pmem m = Some bytes" and "length src = pkt_size w"
    and "pkt_addr r = pkt_addr w" and "pkt_size r = pkt_size w" and "pdata r = Some buf"
    and "length buf = pkt_size r"
  shows "mem_read m' r = Inr (r\<lparr>pdata := Some src\<rparr>)"
proof -
  let ?o = "mem_off m w" and ?n = "pkt_size w"
  have fit: "?o + ?n \<le> length bytes"
    and m': "m' = m\<lparr>pmem := Some (take ?o bytes @ src @ drop (?o + ?n) bytes)\<rparr>"
    using assms(1-3) by (auto simp: mem_write_def memcpy_def split: if_splits)
  have o: "mem_off m' r = ?o" using assms(4) by (simp add: mem_off_def m')
  have "take ?n (drop ?o (take ?o bytes @ src @ drop (?o + ?n) bytes)) = src"
    using fit assms(3) by simp
  moreover have "?o + ?n \<le> length (take ?o bytes @ src @ drop (?o + ?n) bytes)"
    using fit assms(3) by simp
  ultimately show ?thesis
    using assms(5-7) o m' memcpy_full [of buf ?n ?o] by (simp add: mem_read_def getPtr_def)
qed

lemma mem_write_other:
  assumes "mem_write m w src = Inr m'" and "pmem m = Some bytes" and "length src = pkt_size w"
    and "i < mem_off m w \<or> mem_off m w + pkt_size w \<le> i" and "i < length bytes"
  shows "\<exists>bytes'. pmem m' = Some bytes' \<and> bytes' ! i = bytes ! i"
  using assms nth_memcpy [of bytes "mem_off m w" src 0 "pkt_size w" _ i]
  by (auto simp: mem_write_def res_simps)

lemma access_store:
  assumes "access m w = Inr (m', w')" and "plain_store w a" and "pmem m = Some bytes"
  obtains m1 src where "pdata w = Some src" "mem_write m1 w src = Inr m'" "pmem m1 = pmem m"
    "mem_start m1 = mem_start m"
proof -
  obtain pkt1 where b: "access_branch m w = Inr (m', pkt1)"
    using access_via_branch [OF assms(1)] assms(2) by (auto simp: plain_store_def)
  have k: "cmd w \<noteq> SwapReq" "\<not> isRead w" "\<not> isInvalidate w" "\<not> isLLSC w"
    using assms(2) by (auto simp: plain_store_def)
  obtain m1 p1 ok where w: "writeOK m w = Inr (m1, p1, ok)" "store_data m1 p1 ok = Inr (m', pkt1)"
    using branch_write [OF b k(1-3)] by blast
  note st = writeOK_store [OF w(1) k(4)]
  obtain src where "pdata w = Some src" "mem_write m1 w src = Inr m'"
    using w(2) st assms(3) by (auto simp: store_data_def res_simps getPtr_def split: option.splits if_splits)
  then show ?thesis using that st by blast
qed

lemma access_plain_read:
  assumes "access m r = Inr (m', r')" and "cmd r = ReadReq" and "\<not> flag_memInhibit r"
  shows "m' = m" "\<exists>r1. mem_read m r = Inr r1 \<and> pdata r' = pdata r1"
proof -
  have k: "isRead r" "\<not> isWrite r" "\<not> isLLSC r" using assms(2) by (simp_all add: pkt_attr_defs cmd_defs)
  have "access_branch m r = bindE (mem_read m r) (\<lambda>p. Inr (m, p))"
    using k assms(2) by (simp add: access_branch_def)
  then show "m' = m" "\<exists>r1. mem_read m r = Inr r1 \<and> pdata r' = pdata r1"
    using assms by (auto simp: access_def res_simps split: if_splits)
qed

section \<open>Properties\<close>

text \<open>C29: a store conditional fails and leaves the memory as it is, when after the last load
  linked of its context to the granule there was a plain store to the granule, whatever other
  accesses came in between.\<close>

theorem store_conditional_fails:
  assumes "locks_ok m" and "access m st = Inr (m1, st')" and "plain_store st a"
    and "run m1 ps = Inr m2" and "\<forall>p \<in> set ps. \<not> load_locked p c a"
    and "access m2 sc = Inr (m3, sc')" and "store_cond sc c a"
  shows "req_extraData (req sc') = 0 \<and> pmem m3 = pmem m2"
proof -
  have "locks_ok m1" using access_locks(1) [OF assms(2,1)] .
  moreover have "(a, c) \<notin> set (lockedAddrList m1)" using plain_store_clears [OF assms(2,3)] .
  ultimately have "(a, c) \<notin> set (lockedAddrList m2)" using run_no_lock [OF assms(4) _ assms(5)] by blast
  then show ?thesis using store_cond_fails [OF assms(6,7)] by simp
qed


text \<open>C36: an atomic swap leaves every reservation in place, though it writes: a store
  conditional after it can still succeed.\<close>

theorem swap_keeps_reservations:
  assumes "access m pkt = Inr (m', pkt')" and "cmd pkt = SwapReq" and "\<not> flag_memInhibit pkt"
  shows "lockedAddrList m' = lockedAddrList m"
  using assms swap_access_frame by (auto simp: access_def access_branch_def res_simps split: if_splits)

subsection \<open>The properties at a concrete memory\<close>

definition mem16 :: memory where
  "mem16 = \<lparr>mem_start = 0, mem_size = 16, pmem = Some (replicate 16 0), lockedAddrList = [(0, 0)], wakeups = []\<rparr>"

definition byte_req :: "command \<Rightarrow> nat \<Rightarrow> u8 \<Rightarrow> packet" where
  "byte_req c cid b = (new_packet 0 (setPhys 4 1 (Some cid)) c)\<lparr>pdata := Some [b]\<rparr>"

definition mem16_stored :: memory where
  "mem16_stored = mem16\<lparr>pmem := Some (replicate 4 0 @ [7] @ replicate 11 0), lockedAddrList := [], wakeups := [0]\<rparr>"

lemmas mem16_simps = mem16_def mem16_stored_def byte_req_def packet_simps access_def access_branch_def in_range_def
  writeOK_def checkLockedAddrList_def lock_mask_def store_data_def getPtr_def mem_write_def mem_read_def memcpy_def
  mem_off_def makeResponse_def swap_access_def

lemma mem16_store:
  "access mem16 (byte_req WriteReq 1 7) = Inr (mem16_stored, (byte_req WriteReq 1 7)\<lparr>cmd := WriteResp\<rparr>)"
  by (simp add: mem16_simps)

lemma mem16_sc:
  "access mem16_stored (byte_req StoreCondReq 0 9) =
     Inr (mem16_stored, (setExtraData (byte_req StoreCondReq 0 9) 0)\<lparr>cmd := StoreCondResp\<rparr>)"
  by (simp add: mem16_simps setExtraData_def)

lemma store_conditional_fails_witness:
  "\<exists>m1 st' m3 sc'. access mem16 (byte_req WriteReq 1 7) = Inr (m1, st') \<and>
     access m1 (byte_req StoreCondReq 0 9) = Inr (m3, sc') \<and> req_extraData (req sc') = 0 \<and> pmem m3 = pmem m1"
proof -
  have "req_extraData (req ((setExtraData (byte_req StoreCondReq 0 9) 0)\<lparr>cmd := StoreCondResp\<rparr>)) = 0 \<and>
      pmem mem16_stored = pmem mem16_stored"
    by (rule store_conditional_fails [OF _ mem16_store _ _ _ mem16_sc, where a = 0 and ps = "[]" and c = 0])
      (simp_all add: locks_ok_def plain_store_def store_cond_def contextId_of_def mem16_simps)
  then show ?thesis using mem16_store mem16_sc by blast
qed


lemma swap_keeps_reservations_witness:
  "\<exists>m' p'. access mem16 (byte_req SwapReq 1 7) = Inr (m', p') \<and> pmem m' \<noteq> pmem mem16 \<and>
     (0, 0) \<in> set (lockedAddrList m')"
proof -
  let ?m = "mem16\<lparr>pmem := Some (replicate 4 0 @ [7] @ replicate 11 0)\<rparr>"
  have s: "access mem16 (byte_req SwapReq 1 7) = Inr (?m, (byte_req SwapReq 1 0)\<lparr>cmd := SwapResp\<rparr>)"
    by (simp add: mem16_simps)
  have "lockedAddrList ?m = lockedAddrList mem16"
    by (rule swap_keeps_reservations [OF s]) (simp_all add: mem16_simps)
  moreover have "(replicate 4 0 @ [7] @ replicate 11 0) ! 4 \<noteq> (replicate 16 0 :: u8 list) ! 4"
    by (simp add: nth_append)
  then have "pmem ?m \<noteq> pmem mem16" by (auto simp: mem16_def)
  ultimately show ?thesis using s by (metis list.set_intros(1) mem16_def memory.select_convs(4))
qed

end
