(* ===== verification/MSHR.thy ===== *)
theory MSHR
  imports Packet
begin

text \<open>
  Miss status holding registers: \<^verbatim>\<open>src/gem5/src/mem/cache/mshr.hh\<close> and
  \<^verbatim>\<open>src/gem5/src/mem/cache/mshr.cc\<close>. A register keeps the requests (targets) that wait
  for one block, and a second list of targets deferred until the current request
  has been answered. A call on the register of a cache further up, found through
  the sender-state stack of a packet, is a message \<open>upstream_msg\<close> in the result: the
  upstream register handles it with \<open>setDownstreamPending\<close> or
  \<open>mshr_clearDownstreamPending\<close>.
\<close>

section \<open>Targets\<close>

datatype source = FromCPU | FromSnoop | FromPrefetcher

record target =
  recvTime :: tick
  t_readyTime :: tick
  t_order :: nat
  t_pkt :: packet
  t_source :: source
  markedPending :: bool

record target_list =
  tgts :: "target list"
  tl_needsExclusive :: bool
  tl_hasUpgrade :: bool

datatype upstream_msg = SetDownstreamPending "nat \<times> nat" | ClearDownstreamPending "nat \<times> nat"

definition empty_targets :: target_list where
  "empty_targets = \<lparr>tgts = [], tl_needsExclusive = False, tl_hasUpgrade = False\<rparr>"

definition resetFlags :: "target_list \<Rightarrow> target_list" where
  "resetFlags ts = ts\<lparr>tl_needsExclusive := False, tl_hasUpgrade := False\<rparr>"

definition isReset :: "target_list \<Rightarrow> bool" where
  "isReset ts \<longleftrightarrow> \<not> tl_needsExclusive ts \<and> \<not> tl_hasUpgrade ts"

definition tl_add ::
  "tick \<Rightarrow> target_list \<Rightarrow> packet \<Rightarrow> tick \<Rightarrow> nat \<Rightarrow> source \<Rightarrow> bool \<Rightarrow> target_list \<times> upstream_msg list" where
  "tl_add now ts pkt rt ord src markPending =
     (let ts1 = (if src \<noteq> FromSnoop then
                   ts\<lparr>tl_needsExclusive := tl_needsExclusive ts \<or> needsExclusive pkt,
                      tl_hasUpgrade := tl_hasUpgrade ts \<or> isUpgrade pkt \<or> cmd pkt = StoreCondReq\<rparr>
                 else ts);
          msgs = (if markPending then
                    (case findNextMSHR (senderState pkt) of
                       Some r \<Rightarrow> [SetDownstreamPending r] | None \<Rightarrow> [])
                  else [])
      in (ts1\<lparr>tgts := tgts ts1 @ [\<lparr>recvTime = now, t_readyTime = rt, t_order = ord, t_pkt = pkt,
                                t_source = src, markedPending = markPending\<rparr>]\<rparr>, msgs))"

definition replaceUpgrade :: "packet \<Rightarrow> packet" where
  "replaceUpgrade pkt =
     (if cmd pkt = UpgradeReq then pkt\<lparr>cmd := ReadExReq\<rparr>
      else if cmd pkt = SCUpgradeReq then pkt\<lparr>cmd := SCUpgradeFailReq\<rparr>
      else if cmd pkt = StoreCondReq then pkt\<lparr>cmd := StoreCondFailReq\<rparr>
      else pkt)"

definition replaceUpgrades :: "target_list \<Rightarrow> target_list" where
  "replaceUpgrades ts =
     (if \<not> tl_hasUpgrade ts then ts
      else ts\<lparr>tgts := map (\<lambda>t. t\<lparr>t_pkt := replaceUpgrade (t_pkt t)\<rparr>) (tgts ts), tl_hasUpgrade := False\<rparr>)"

definition target_clear :: "target \<Rightarrow> upstream_msg list" where
  "target_clear t =
     (if markedPending t then
        (case findNextMSHR (senderState (t_pkt t)) of
           Some r \<Rightarrow> [ClearDownstreamPending r] | None \<Rightarrow> [])
      else [])"

definition tl_clearDownstreamPending :: "target_list \<Rightarrow> upstream_msg list" where
  "tl_clearDownstreamPending ts = concat (map target_clear (tgts ts))"

text \<open>
  \<^verbatim>\<open>pkt->checkFunctional(t.pkt)\<close> on every target until one satisfies the request; a
  functional write changes the data of the targets it passes.
\<close>

fun tl_checkFunctional :: "packet \<Rightarrow> target list \<Rightarrow> (packet \<times> target list \<times> bool) res" where
  "tl_checkFunctional p [] = Inr (p, [], False)"
| "tl_checkFunctional p (t # ts) =
     bindE (checkFunctional_pkt p (t_pkt t)) (\<lambda>(p', o', b).
       if b then Inr (p', t\<lparr>t_pkt := o'\<rparr> # ts, True)
       else bindE (tl_checkFunctional p' ts) (\<lambda>(p'', ts', b').
              Inr (p'', t\<lparr>t_pkt := o'\<rparr> # ts', b')))"

section \<open>Registers\<close>

record mshr =
  readyTime :: tick
  isUncacheable :: bool
  downstreamPending :: bool
  pendingDirty :: bool
  postInvalidate :: bool
  postDowngrade :: bool
  order :: nat
  blkAddr :: addr
  blkSize :: nat
  isSecure :: bool
  inService :: bool
  isForward :: bool
  threadNum :: int
  targets :: target_list
  deferredTargets :: target_list

definition MSHR_init :: mshr where
  "MSHR_init =
     \<lparr>readyTime = 0, isUncacheable = False, downstreamPending = False, pendingDirty = False,
      postInvalidate = False, postDowngrade = False, order = 0, blkAddr = 0, blkSize = 0,
      isSecure = False, inService = False, isForward = False, threadNum = - 1,
      targets = empty_targets, deferredTargets = empty_targets\<rparr>"

definition getNumTargets :: "mshr \<Rightarrow> nat" where
  "getNumTargets m = length (tgts (targets m)) + length (tgts (deferredTargets m))"

definition hasTargets :: "mshr \<Rightarrow> bool" where
  "hasTargets m \<longleftrightarrow> tgts (targets m) \<noteq> []"

definition getTarget :: "mshr \<Rightarrow> target res" where
  "getTarget m = assertE ''hasTargets()'' (hasTargets m) (Inr (hd (tgts (targets m))))"

definition popTarget :: "mshr \<Rightarrow> mshr" where
  "popTarget m = m\<lparr>targets := (targets m)\<lparr>tgts := tl (tgts (targets m))\<rparr>\<rparr>"

definition isForwardNoResponse :: "mshr \<Rightarrow> bool" where
  "isForwardNoResponse m \<longleftrightarrow>
     getNumTargets m = 1 \<and>
     (case tgts (targets m) of [] \<Rightarrow> False
      | t # _ \<Rightarrow> t_source t = FromCPU \<and> \<not> needsResponse (t_pkt t))"

definition mshr_allocate ::
  "tick \<Rightarrow> mshr \<Rightarrow> addr \<Rightarrow> nat \<Rightarrow> packet \<Rightarrow> tick \<Rightarrow> nat \<Rightarrow> (mshr \<times> upstream_msg list) res" where
  "mshr_allocate now m blk_addr blk_size tgt when_ready ord =
     assertE ''targets.isReset()'' (isReset (targets m))
       (let src = (if cmd tgt = HardPFReq then FromPrefetcher else FromCPU);
            (ts, msgs) = tl_add now (targets m) tgt when_ready ord src True
        in assertE ''deferredTargets.isReset()'' (isReset (deferredTargets m))
             (Inr (m\<lparr>blkAddr := blk_addr, blkSize := blk_size, isSecure := pkt_secure tgt,
                     readyTime := when_ready, order := ord, isForward := False,
                     isUncacheable := req_uncacheable (req tgt), inService := False,
                     downstreamPending := False, threadNum := 0, targets := ts\<rparr>, msgs)))"

definition setDownstreamPending :: "mshr \<Rightarrow> mshr res" where
  "setDownstreamPending m =
     assertE ''!mshr->downstreamPending'' (\<not> downstreamPending m) (Inr (m\<lparr>downstreamPending := True\<rparr>))"

definition mshr_clearDownstreamPending :: "mshr \<Rightarrow> (mshr \<times> upstream_msg list) res" where
  "mshr_clearDownstreamPending m =
     assertE ''downstreamPending'' (downstreamPending m)
       (Inr (m\<lparr>downstreamPending := False\<rparr>, tl_clearDownstreamPending (targets m)))"

text \<open>The boolean result says that the register is finished and is to be deallocated.\<close>

definition mshr_markInService :: "mshr \<Rightarrow> bool \<Rightarrow> (mshr \<times> upstream_msg list \<times> bool) res" where
  "mshr_markInService m pending_dirty_resp =
     assertE ''!inService'' (\<not> inService m)
       (if isForwardNoResponse m then
          assertE ''getNumTargets() == 1'' (getNumTargets m = 1) (Inr (popTarget m, [], True))
        else
          Inr (m\<lparr>inService := True,
                 pendingDirty := tl_needsExclusive (targets m) \<or> pending_dirty_resp,
                 postInvalidate := False, postDowngrade := False\<rparr>,
               if downstreamPending m then [] else tl_clearDownstreamPending (targets m),
               False))"

definition mshr_deallocate :: "mshr \<Rightarrow> mshr res" where
  "mshr_deallocate m =
     assertE ''targets.empty()'' (tgts (targets m) = [])
       (assertE ''deferredTargets.isReset()'' (isReset (deferredTargets m))
         (Inr (m\<lparr>targets := resetFlags (targets m), inService := False\<rparr>)))"

text \<open>
  \<open>hasPostInvalidate\<close>, \<open>isPendingDirty\<close> and \<open>hasPostDowngrade\<close> assert \<open>inService\<close>; each
  of their calls below stands under a test of \<open>inService\<close>.
\<close>

definition must_defer :: "mshr \<Rightarrow> packet \<Rightarrow> bool" where
  "must_defer m pkt \<longleftrightarrow>
     inService m \<and>
     (tgts (deferredTargets m) \<noteq> [] \<or> postInvalidate m \<or>
      (needsExclusive pkt \<and> (\<not> pendingDirty m \<or> postDowngrade m \<or> isForward m)))"

definition allocateTarget ::
  "tick \<Rightarrow> mshr \<Rightarrow> packet \<Rightarrow> tick \<Rightarrow> nat \<Rightarrow> (mshr \<times> upstream_msg list) res" where
  "allocateTarget now m pkt whenReady ord =
     assertE ''pkt->cmd != MemCmd::HardPFReq'' (cmd pkt \<noteq> HardPFReq)
       (assertE ''!_isUncacheable'' (\<not> isUncacheable m)
         (if must_defer m pkt then
            let pkt' = (if postInvalidate m then replaceUpgrade pkt else pkt);
                (ts, msgs) = tl_add now (deferredTargets m) pkt' whenReady ord FromCPU True
            in Inr (m\<lparr>deferredTargets := ts\<rparr>, msgs)
          else
            let (ts, msgs) = tl_add now (targets m) pkt whenReady ord FromCPU (\<not> inService m)
            in Inr (m\<lparr>targets := ts\<rparr>, msgs)))"

text \<open>
  \<open>fresh\<close> is the identity of the packet that \<^verbatim>\<open>new Packet\<close> makes. The result carries the
  snooping packet with the flags the register sets on it.
\<close>

definition snoop_save ::
  "tick \<Rightarrow> nat \<Rightarrow> mshr \<Rightarrow> packet \<Rightarrow> nat \<Rightarrow> (mshr \<times> packet \<times> upstream_msg list) res" where
  "snoop_save now fresh m pkt ord =
     bindE (if pendingDirty m then
              bindE (assertMemInhibit pkt) (\<lambda>pkt1.
                Inr (copy_packet fresh pkt True True, pkt1\<lparr>flag_supplyExclusive := True\<rparr>))
            else Inr (new_packet fresh (req pkt) (cmd pkt), pkt))
       (\<lambda>(cp_pkt, pkt1).
         let (ts, msgs) = tl_add now (targets m) cp_pkt now ord FromSnoop
                            (downstreamPending m \<and> tl_needsExclusive (targets m))
         in Inr (m\<lparr>targets := ts,
                   postInvalidate := postInvalidate m \<or> needsExclusive pkt\<rparr>, pkt1, msgs))"

definition handleSnoop ::
  "tick \<Rightarrow> nat \<Rightarrow> mshr \<Rightarrow> packet \<Rightarrow> nat \<Rightarrow> (mshr \<times> packet \<times> upstream_msg list \<times> bool) res" where
  "handleSnoop now fresh m pkt ord =
     (if \<not> inService m \<or> (flag_expressSnoop pkt \<and> downstreamPending m) then
        Inr ((if needsExclusive pkt then
                m\<lparr>targets := replaceUpgrades (targets m),
                  deferredTargets := replaceUpgrades (deferredTargets m)\<rparr>
              else m), pkt, [], False)
      else
        let m1 = (if needsExclusive pkt then
                    m\<lparr>deferredTargets := replaceUpgrades (deferredTargets m)\<rparr> else m)
        in
        if postInvalidate m1 then Inr (m1, pkt, [], True)
        else
          bindE (if pendingDirty m1 \<or> isInvalidate pkt then snoop_save now fresh m1 pkt ord
                 else Inr (m1, pkt, []))
            (\<lambda>(m2, pkt2, msgs).
              if \<not> needsExclusive pkt \<and> \<not> req_uncacheable (req pkt) then
                Inr (m2\<lparr>postDowngrade := True\<rparr>, pkt2\<lparr>flag_shared := True\<rparr>, msgs, True)
              else Inr (m2, pkt2, msgs, True)))"

definition promoteDeferredTargets :: "tick \<Rightarrow> mshr \<Rightarrow> (mshr \<times> bool) res" where
  "promoteDeferredTargets now m =
     assertE ''targets.empty()'' (tgts (targets m) = [])
       (case tgts (deferredTargets m) of
          [] \<Rightarrow> Inr (m, False)
        | t # _ \<Rightarrow>
            Inr (m\<lparr>targets := deferredTargets m, deferredTargets := resetFlags (targets m),
                   order := t_order t, readyTime := max now (t_readyTime t)\<rparr>, True))"

definition handleFill :: "mshr \<Rightarrow> packet \<Rightarrow> (mshr \<times> upstream_msg list) res" where
  "handleFill m pkt =
     (if flag_shared pkt then Inr (m, [])
      else assertE ''inService'' (inService m)
        (if \<not> (postInvalidate m \<or> postDowngrade m) \<and> tl_needsExclusive (deferredTargets m) then
           assertE ''!targets.needsExclusive'' (\<not> tl_needsExclusive (targets m))
             (assertE ''!downstreamPending'' (\<not> downstreamPending m)
               (Inr (m\<lparr>targets := (targets m)\<lparr>tl_needsExclusive := True,
                                            tgts := tgts (targets m) @ tgts (deferredTargets m)\<rparr>,
                       deferredTargets := resetFlags ((deferredTargets m)\<lparr>tgts := []\<rparr>)\<rparr>,
                     tl_clearDownstreamPending (deferredTargets m))))
         else Inr (m, [])))"

definition mshr_checkFunctional :: "mshr \<Rightarrow> packet \<Rightarrow> (mshr \<times> packet \<times> bool) res" where
  "mshr_checkFunctional m pkt =
     (if isPrint pkt then
        bindE (checkFunctional pkt (blkAddr m) (isSecure m) (blkSize m) None)
          (\<lambda>(pkt', _, _). Inr (m, pkt', False))
      else
        bindE (tl_checkFunctional pkt (tgts (targets m))) (\<lambda>(p1, ts, b).
          let m1 = m\<lparr>targets := (targets m)\<lparr>tgts := ts\<rparr>\<rparr> in
          if b then Inr (m1, p1, True)
          else bindE (tl_checkFunctional p1 (tgts (deferredTargets m))) (\<lambda>(p2, ds, b').
                 Inr (m1\<lparr>deferredTargets := (deferredTargets m)\<lparr>tgts := ds\<rparr>\<rparr>, p2, b'))))"

section \<open>Target flags\<close>

text \<open>
  The two flags of a target list cover its targets that do not come from a snoop: an
  exclusive request sets \<open>tl_needsExclusive\<close>, an upgrade or a store-conditional sets
  \<open>tl_hasUpgrade\<close>. The flags may stay set after the target that set them is gone.
\<close>

definition is_upgrade_like :: "packet \<Rightarrow> bool" where
  "is_upgrade_like p \<longleftrightarrow> cmd p = UpgradeReq \<or> cmd p = SCUpgradeReq \<or> cmd p = StoreCondReq"

definition tl_wf :: "target_list \<Rightarrow> bool" where
  "tl_wf ts \<longleftrightarrow>
     (\<forall>t \<in> set (tgts ts). t_source t \<noteq> FromSnoop \<longrightarrow>
        (needsExclusive (t_pkt t) \<longrightarrow> tl_needsExclusive ts) \<and>
        (is_upgrade_like (t_pkt t) \<longrightarrow> tl_hasUpgrade ts))"

definition mshr_wf :: "mshr \<Rightarrow> bool" where
  "mshr_wf m \<longleftrightarrow> tl_wf (targets m) \<and> tl_wf (deferredTargets m)"

lemma upgrade_like_cases:
  "is_upgrade_like p \<Longrightarrow> isUpgrade p \<or> cmd p = StoreCondReq"
  by (auto simp: is_upgrade_like_def isUpgrade_def cmd_defs)

lemma replaceUpgrade_not_upgrade [simp]: "\<not> is_upgrade_like (replaceUpgrade p)"
  by (simp add: replaceUpgrade_def is_upgrade_like_def)

lemma replaceUpgrade_attrs [simp]:
  "needsExclusive (replaceUpgrade p) = needsExclusive p"
  "needsResponse (replaceUpgrade p) = needsResponse p"
  "isRequest (replaceUpgrade p) = isRequest p"
  by (simp_all add: replaceUpgrade_def pkt_attr_defs cmd_defs)

lemma replaceUpgrade_frame [simp]:
  "pkt_id (replaceUpgrade p) = pkt_id p" "pkt_addr (replaceUpgrade p) = pkt_addr p"
  "pkt_size (replaceUpgrade p) = pkt_size p" "senderState (replaceUpgrade p) = senderState p"
  "req (replaceUpgrade p) = req p" "pdata (replaceUpgrade p) = pdata p"
  by (simp_all add: replaceUpgrade_def)

lemma tl_wf_empty [simp]: "tl_wf empty_targets"
  by (simp add: tl_wf_def empty_targets_def)

lemma tl_wf_nil: "tgts ts = [] \<Longrightarrow> tl_wf ts"
  by (simp add: tl_wf_def)

lemma tl_wf_add: "tl_wf ts \<Longrightarrow> tl_wf (fst (tl_add now ts pkt rt ord src mp))"
  by (auto simp: tl_wf_def tl_add_def Let_def dest: upgrade_like_cases)

lemma tl_wf_replaceUpgrades: "tl_wf ts \<Longrightarrow> tl_wf (replaceUpgrades ts)"
  by (auto simp: tl_wf_def replaceUpgrades_def)

lemma tl_wf_pop: "tl_wf ts \<Longrightarrow> tl_wf (ts\<lparr>tgts := tl (tgts ts)\<rparr>)"
  by (cases "tgts ts") (auto simp: tl_wf_def)

lemma replaceUpgrades_none_left:
  assumes "tl_wf ts" and "t \<in> set (tgts (replaceUpgrades ts))" and "t_source t \<noteq> FromSnoop"
  shows "\<not> is_upgrade_like (t_pkt t)"
  using assms by (auto simp: tl_wf_def replaceUpgrades_def split: if_splits)

lemma replaceUpgrades_length [simp]: "length (tgts (replaceUpgrades ts)) = length (tgts ts)"
  by (simp add: replaceUpgrades_def)

lemma replaceUpgrades_ids [simp]:
  "map (\<lambda>t. pkt_id (t_pkt t)) (tgts (replaceUpgrades ts)) = map (\<lambda>t. pkt_id (t_pkt t)) (tgts ts)"
  by (simp add: replaceUpgrades_def)

lemma mshr_wf_init [simp]: "mshr_wf MSHR_init"
  by (simp add: mshr_wf_def MSHR_init_def)

lemma mshr_wf_allocate:
  "mshr_wf m \<Longrightarrow> mshr_allocate now m a sz p t n = Inr (m', msgs) \<Longrightarrow> mshr_wf m'"
  using tl_wf_add [of "targets m" now p t n "if cmd p = HardPFReq then FromPrefetcher else FromCPU" True]
  by (auto simp: mshr_wf_def mshr_allocate_def res_simps Let_def split: prod.splits)

lemma mshr_wf_allocateTarget:
  "mshr_wf m \<Longrightarrow> allocateTarget now m p t n = Inr (m', msgs) \<Longrightarrow> mshr_wf m'"
  using tl_wf_add [of "targets m" now p t n FromCPU "\<not> inService m"]
    tl_wf_add [of "deferredTargets m" now p t n FromCPU True]
    tl_wf_add [of "deferredTargets m" now "replaceUpgrade p" t n FromCPU True]
  by (auto simp: mshr_wf_def allocateTarget_def res_simps Let_def split: prod.splits if_splits)

lemma mshr_wf_markInService:
  "mshr_wf m \<Longrightarrow> mshr_markInService m d = Inr (m', msgs, b) \<Longrightarrow> mshr_wf m'"
  by (auto simp: mshr_wf_def mshr_markInService_def popTarget_def res_simps tl_wf_pop split: if_splits)

lemma mshr_wf_promote:
  "mshr_wf m \<Longrightarrow> promoteDeferredTargets now m = Inr (m', b) \<Longrightarrow> mshr_wf m'"
  by (auto simp: mshr_wf_def promoteDeferredTargets_def res_simps resetFlags_def
      intro: tl_wf_nil split: list.splits)

lemma snoop_save_frame:
  assumes "snoop_save now fresh m pkt ord = Inr (m', pkt', msgs)"
  shows "deferredTargets m' = deferredTargets m" "inService m' = inService m"
    "readyTime m' = readyTime m" "postInvalidate m' = (postInvalidate m \<or> needsExclusive pkt)"
    "\<exists>q mp. targets m' = fst (tl_add now (targets m) q now ord FromSnoop mp)"
  using assms by (auto simp: snoop_save_def res_simps Let_def case_prod_beta split: if_splits) blast+

lemma mshr_wf_snoop_save:
  "mshr_wf m \<Longrightarrow> snoop_save now fresh m pkt ord = Inr (m', pkt', msgs) \<Longrightarrow> mshr_wf m'"
  using snoop_save_frame [of now fresh m pkt ord m' pkt' msgs] tl_wf_add
  by (auto simp: mshr_wf_def)

lemma mshr_wf_handleSnoop:
  assumes "mshr_wf m" and "handleSnoop now fresh m pkt ord = Inr (m', pkt', msgs, b)"
  shows "mshr_wf m'"
proof (cases "\<not> inService m \<or> (flag_expressSnoop pkt \<and> downstreamPending m)")
  case True
  then show ?thesis
    using assms by (auto simp: handleSnoop_def mshr_wf_def tl_wf_replaceUpgrades split: if_splits)
next
  case False
  define m1 where "m1 = (if needsExclusive pkt then
     m\<lparr>deferredTargets := replaceUpgrades (deferredTargets m)\<rparr> else m)"
  have wf1: "mshr_wf m1" using assms(1) by (simp add: m1_def mshr_wf_def tl_wf_replaceUpgrades)
  show ?thesis
  proof (cases "postInvalidate m1")
    case True
    then show ?thesis using False assms(2) wf1 by (auto simp: handleSnoop_def m1_def [symmetric] Let_def)
  next
    case np: False
    obtain m2 pkt2 ms where s: "(if pendingDirty m1 \<or> isInvalidate pkt
        then snoop_save now fresh m1 pkt ord else Inr (m1, pkt, [])) = Inr (m2, pkt2, ms)"
      and m': "m' = m2 \<or> m' = m2\<lparr>postDowngrade := True\<rparr>"
      using False np assms(2)
      by (auto simp: handleSnoop_def m1_def [symmetric] Let_def res_simps split: if_splits prod.splits)
    have "mshr_wf m2" using s wf1 mshr_wf_snoop_save by (auto split: if_splits)
    with m' show ?thesis by (auto simp: mshr_wf_def)
  qed
qed

text \<open>
  A snoop that takes the block away before the register's request is issued leaves no
  upgrade in the register: each becomes a request that also fetches the data.
\<close>


text \<open>
  Once an invalidating snoop has been recorded, every later target is deferred and
  carries no upgrade, so it is served by a new request after the response.
\<close>

text \<open>Once a miss in service has been invalidated, every further access to the block is deferred: the targets that the response will serve stay as they are, and the new target is no upgrade.\<close>

lemma after_invalidate_deferred:
  assumes "inService m" and "postInvalidate m"
    and "allocateTarget now m pkt rt ord = Inr (m', msgs)"
  shows "targets m' = targets m \<and>
         (\<exists>t. tgts (deferredTargets m') = tgts (deferredTargets m) @ [t] \<and>
              t_pkt t = replaceUpgrade pkt \<and> markedPending t)"
  using assms
  by (auto simp: allocateTarget_def must_defer_def res_simps Let_def tl_add_def case_prod_beta)

section \<open>Pending marks of upstream registers\<close>

text \<open>
  \<open>marks\<close> lists the upstream registers that the targets of a list have marked. Adding a
  target sends the message that marks its register, and clearing sends one message for
  every mark, so the marks sent and the marks cleared are the same list.
\<close>

definition target_marks :: "target \<Rightarrow> (nat \<times> nat) list" where
  "target_marks t =
     (if markedPending t then
        (case findNextMSHR (senderState (t_pkt t)) of Some r \<Rightarrow> [r] | None \<Rightarrow> [])
      else [])"

definition marks :: "target_list \<Rightarrow> (nat \<times> nat) list" where
  "marks ts = concat (map target_marks (tgts ts))"

lemma clear_is_marks: "tl_clearDownstreamPending ts = map ClearDownstreamPending (marks ts)"
proof -
  have "target_clear t = map ClearDownstreamPending (target_marks t)" for t
    by (simp add: target_clear_def target_marks_def split: option.splits)
  then show ?thesis
    by (simp add: tl_clearDownstreamPending_def marks_def map_concat comp_def cong: map_cong)
qed

lemma tl_add_marks:
  assumes "tl_add now ts pkt rt ord src mp = (ts', msgs)"
  shows "\<exists>rs. msgs = map SetDownstreamPending rs \<and> marks ts' = marks ts @ rs"
  using assms
  by (auto simp: tl_add_def Let_def marks_def target_marks_def split: option.splits if_splits)

lemma tl_add_tgts:
  assumes "tl_add now ts pkt rt ord src mp = (ts', msgs)"
  shows "tgts ts' = tgts ts @ [\<lparr>recvTime = now, t_readyTime = rt, t_order = ord, t_pkt = pkt,
                                t_source = src, markedPending = mp\<rparr>]"
  using assms by (auto simp: tl_add_def Let_def split: if_splits)

text \<open>The targets that join a register before it is issued, one after the other.\<close>

fun add_targets ::
  "tick \<Rightarrow> mshr \<Rightarrow> (packet \<times> tick \<times> nat) list \<Rightarrow> (mshr \<times> upstream_msg list) res" where
  "add_targets now m [] = Inr (m, [])"
| "add_targets now m ((p, rt, n) # ps) =
     bindE (allocateTarget now m p rt n) (\<lambda>(m1, ms1).
     bindE (add_targets now m1 ps) (\<lambda>(m2, ms2). Inr (m2, ms1 @ ms2)))"

lemma allocateTarget_unissued:
  assumes "\<not> inService m" and "allocateTarget now m p rt n = Inr (m', msgs)"
  shows "\<exists>rs. msgs = map SetDownstreamPending rs \<and>
              marks (targets m') = marks (targets m) @ rs"
    and "\<not> inService m'" and "downstreamPending m' = downstreamPending m"
    and "deferredTargets m' = deferredTargets m"
    and "length (tgts (targets m')) = Suc (length (tgts (targets m)))"
proof -
  let ?r = "tl_add now (targets m) p rt n FromCPU True"
  have ts: "?r = (fst ?r, msgs)" and m': "m' = m\<lparr>targets := fst ?r\<rparr>"
    using assms by (auto simp: allocateTarget_def must_defer_def res_simps case_prod_beta)
  show "\<exists>rs. msgs = map SetDownstreamPending rs \<and>
             marks (targets m') = marks (targets m) @ rs"
    using tl_add_marks [OF ts] by (simp add: m')
  show "\<not> inService m'" "downstreamPending m' = downstreamPending m"
    "deferredTargets m' = deferredTargets m"
    using assms(1) by (simp_all add: m')
  show "length (tgts (targets m')) = Suc (length (tgts (targets m)))"
    using tl_add_tgts [OF ts] by (simp add: m')
qed

lemma add_targets_marks:
  assumes "\<not> inService m" and "add_targets now m ps = Inr (m', msgs)"
  shows "\<exists>rs. msgs = map SetDownstreamPending rs \<and>
              marks (targets m') = marks (targets m) @ rs"
    and "\<not> inService m'" and "downstreamPending m' = downstreamPending m"
  using assms
proof (induction ps arbitrary: m msgs)
  case Nil
  {
    case 1 then show ?case by auto
  next
    case 2 then show ?case by auto
  next
    case 3 then show ?case by auto
  }
next
  case (Cons q ps)
  obtain p rt n where q: "q = (p, rt, n)" by (cases q) auto
  {
    case 1
    then obtain m1 ms1 ms2 where h: "allocateTarget now m p rt n = Inr (m1, ms1)"
      "add_targets now m1 ps = Inr (m', ms2)" "msgs = ms1 @ ms2"
      by (auto simp: q res_simps)
    show ?case
      using allocateTarget_unissued [OF 1(1) h(1)] Cons.IH(1) [OF _ h(2)] h(3) by auto
  next
    case 2
    then obtain m1 ms1 ms2 where h: "allocateTarget now m p rt n = Inr (m1, ms1)"
      "add_targets now m1 ps = Inr (m', ms2)"
      by (auto simp: q res_simps)
    show ?case
      using allocateTarget_unissued [OF 2(1) h(1)] Cons.IH(2) [OF _ h(2)] by auto
  next
    case 3
    then obtain m1 ms1 ms2 where h: "allocateTarget now m p rt n = Inr (m1, ms1)"
      "add_targets now m1 ps = Inr (m', ms2)"
      by (auto simp: q res_simps)
    show ?case
      using allocateTarget_unissued [OF 3(1) h(1)] Cons.IH(3) [OF _ h(2)] by auto
  }
qed

lemma issue_clears_marks:
  assumes "\<not> downstreamPending m" and "mshr_markInService m d = Inr (m', msgs, False)"
  shows "msgs = map ClearDownstreamPending (marks (targets m)) \<and> inService m'"
  using assms by (auto simp: mshr_markInService_def clear_is_marks res_simps split: if_splits)

section \<open>Properties\<close>


text \<open>A read that an upstream register, number 3 of queue 1, is waiting for.\<close>

definition upstream_read :: packet where
  "upstream_read = (new_packet 0 (setPhys 64 64 (Some 0)) ReadReq)\<lparr>senderState := [MSHRRef 1 3]\<rparr>"



end
