(* ===== verification/MSHR_Queue.thy ===== *)
theory MSHR_Queue
  imports MSHR
begin

text \<open>
  The queue of miss status holding registers: \<^verbatim>\<open>src/gem5/src/mem/cache/mshr_queue.hh\<close>
  and \<^verbatim>\<open>src/gem5/src/mem/cache/mshr_queue.cc\<close>. A pointer to a register is its index in
  \<open>registers\<close>; the iterators \<^verbatim>\<open>readyIter\<close> and \<^verbatim>\<open>allocIter\<close> of a register stand for its
  position in the ready and the allocated list, so that erasing through them removes
  the index from the list, and is undefined when it is not there.
\<close>

section \<open>State and operations\<close>

record mshr_queue =
  numEntries :: int
  numReserve :: int
  demandReserve :: int
  registers :: "mshr list"
  allocatedList :: "nat list"
  readyList :: "nat list"
  freeList :: "nat list"
  allocated :: int
  inServiceEntries :: int
  q_index :: nat
  q_drainState :: drain_state
  q_drainSignals :: nat
  upstreamMsgs :: "upstream_msg list"

definition MSHRQueue_init :: "int \<Rightarrow> int \<Rightarrow> int \<Rightarrow> nat \<Rightarrow> mshr_queue" where
  "MSHRQueue_init num_entries reserve demand_reserve idx =
     (let n = num_entries + reserve - 1 in
      \<lparr>numEntries = n, numReserve = reserve, demandReserve = demand_reserve,
       registers = replicate (nat n) MSHR_init, allocatedList = [], readyList = [],
       freeList = [0 ..< nat n], allocated = 0, inServiceEntries = 0, q_index = idx,
       q_drainState = Running, q_drainSignals = 0, upstreamMsgs = []\<rparr>)"

abbreviation reg :: "mshr_queue \<Rightarrow> nat \<Rightarrow> mshr" where
  "reg q i \<equiv> registers q ! i"

definition upd_reg :: "mshr_queue \<Rightarrow> nat \<Rightarrow> mshr \<Rightarrow> mshr_queue" where
  "upd_reg q i m = q\<lparr>registers := (registers q)[i := m]\<rparr>"

definition matches :: "mshr \<Rightarrow> addr \<Rightarrow> bool \<Rightarrow> bool" where
  "matches m blk_addr is_secure \<longleftrightarrow>
     \<not> isUncacheable m \<and> blkAddr m = blk_addr \<and> isSecure m = is_secure"

definition findMatch :: "mshr_queue \<Rightarrow> addr \<Rightarrow> bool \<Rightarrow> nat option" where
  "findMatch q blk_addr is_secure =
     find (\<lambda>i. matches (reg q i) blk_addr is_secure) (allocatedList q)"

definition findMatches :: "mshr_queue \<Rightarrow> addr \<Rightarrow> bool \<Rightarrow> nat list" where
  "findMatches q blk_addr is_secure =
     filter (\<lambda>i. matches (reg q i) blk_addr is_secure) (allocatedList q)"

definition findPending :: "mshr_queue \<Rightarrow> addr \<Rightarrow> bool \<Rightarrow> nat option" where
  "findPending q blk_addr is_secure =
     find (\<lambda>i. blkAddr (reg q i) = blk_addr \<and> isSecure (reg q i) = is_secure) (readyList q)"

fun checkFunctional_list ::
  "mshr_queue \<Rightarrow> packet \<Rightarrow> addr \<Rightarrow> nat list \<Rightarrow> (mshr_queue \<times> packet \<times> bool) res" where
  "checkFunctional_list q pkt blk_addr [] = Inr (q, pkt, False)"
| "checkFunctional_list q pkt blk_addr (i # is) =
     (if blkAddr (reg q i) = blk_addr then
        bindE (mshr_checkFunctional (reg q i) pkt) (\<lambda>(m, pkt', b).
          if b then Inr (upd_reg q i m, pkt', True)
          else checkFunctional_list (upd_reg q i m) pkt' blk_addr is)
      else checkFunctional_list q pkt blk_addr is)"

definition q_checkFunctional ::
  "mshr_queue \<Rightarrow> packet \<Rightarrow> addr \<Rightarrow> (mshr_queue \<times> packet \<times> bool) res" where
  "q_checkFunctional q pkt blk_addr = checkFunctional_list q pkt blk_addr (allocatedList q)"

text \<open>
  \<^verbatim>\<open>addToReadyList\<close>: at the end when nothing in the list is ready later than the new
  register, otherwise before the first register that is.
\<close>

fun insert_before_later :: "(nat \<Rightarrow> tick) \<Rightarrow> nat \<Rightarrow> nat list \<Rightarrow> nat list res" where
  "insert_before_later rt i [] = Inl (AssertFail ''false'')"
| "insert_before_later rt i (j # js) =
     (if rt j > rt i then Inr (i # j # js)
      else bindE (insert_before_later rt i js) (\<lambda>js'. Inr (j # js')))"

definition addToReadyList :: "mshr_queue \<Rightarrow> nat \<Rightarrow> mshr_queue res" where
  "addToReadyList q i =
     (if readyList q = [] \<or> readyTime (reg q (last (readyList q))) \<le> readyTime (reg q i)
      then Inr (q\<lparr>readyList := readyList q @ [i]\<rparr>)
      else bindE (insert_before_later (\<lambda>j. readyTime (reg q j)) i (readyList q)) (\<lambda>rl.
             Inr (q\<lparr>readyList := rl\<rparr>)))"

definition q_allocate ::
  "tick \<Rightarrow> mshr_queue \<Rightarrow> addr \<Rightarrow> nat \<Rightarrow> packet \<Rightarrow> tick \<Rightarrow> nat \<Rightarrow> (mshr_queue \<times> nat) res" where
  "q_allocate now q blk_addr blk_size pkt when_ready ord =
     (case freeList q of
        [] \<Rightarrow> Inl (AssertFail ''!freeList.empty()'')
      | i # fl \<Rightarrow>
          assertE ''mshr->getNumTargets() == 0'' (getNumTargets (reg q i) = 0)
            (bindE (mshr_allocate now (reg q i) blk_addr blk_size pkt when_ready ord) (\<lambda>(m, msgs).
             bindE (addToReadyList
                      ((upd_reg q i m)\<lparr>freeList := fl, allocatedList := allocatedList q @ [i],
                                       upstreamMsgs := upstreamMsgs q @ msgs\<rparr>) i) (\<lambda>q1.
             Inr (q1\<lparr>allocated := allocated q1 + 1\<rparr>, i)))))"

definition erase :: "nat \<Rightarrow> nat list \<Rightarrow> nat list res" where
  "erase i xs = (if i \<in> set xs then Inr (remove1 i xs) else Inl (Undefined ''list::erase''))"

definition deallocateOne :: "mshr_queue \<Rightarrow> nat \<Rightarrow> mshr_queue res" where
  "deallocateOne q i =
     bindE (erase i (allocatedList q)) (\<lambda>al.
     let q1 = q\<lparr>allocatedList := al, freeList := i # freeList q, allocated := allocated q - 1\<rparr> in
     bindE (if inService (reg q i) then Inr (q1\<lparr>inServiceEntries := inServiceEntries q - 1\<rparr>)
            else bindE (erase i (readyList q)) (\<lambda>rl. Inr (q1\<lparr>readyList := rl\<rparr>))) (\<lambda>q2.
     bindE (mshr_deallocate (reg q i)) (\<lambda>m.
     let q3 = upd_reg q2 i m in
     Inr (if q_drainState q3 = Draining \<and> allocated q3 = 0
          then q3\<lparr>q_drainSignals := q_drainSignals q3 + 1\<rparr> else q3))))"

definition q_deallocate :: "mshr_queue \<Rightarrow> nat \<Rightarrow> mshr_queue res" where
  "q_deallocate q i = deallocateOne q i"

definition moveToFront :: "mshr_queue \<Rightarrow> nat \<Rightarrow> mshr_queue res" where
  "moveToFront q i =
     (if \<not> inService (reg q i)
      then bindE (erase i (readyList q)) (\<lambda>rl. Inr (q\<lparr>readyList := i # rl\<rparr>))
      else Inr q)"

definition q_markInService :: "mshr_queue \<Rightarrow> nat \<Rightarrow> bool \<Rightarrow> mshr_queue res" where
  "q_markInService q i pending_dirty_resp =
     bindE (mshr_markInService (reg q i) pending_dirty_resp) (\<lambda>(m, msgs, done).
     let q1 = (upd_reg q i m)\<lparr>upstreamMsgs := upstreamMsgs q @ msgs\<rparr> in
     if done then q_deallocate q1 i
     else bindE (erase i (readyList q1)) (\<lambda>rl.
            Inr (q1\<lparr>readyList := rl, inServiceEntries := inServiceEntries q1 + 1\<rparr>)))"

definition markPending :: "mshr_queue \<Rightarrow> nat \<Rightarrow> mshr_queue res" where
  "markPending q i =
     assertE ''mshr->inService'' (inService (reg q i))
       (addToReadyList
          ((upd_reg q i ((reg q i)\<lparr>inService := False\<rparr>))
             \<lparr>inServiceEntries := inServiceEntries q - 1\<rparr>) i)"

definition havePending :: "mshr_queue \<Rightarrow> bool" where
  "havePending q \<longleftrightarrow> readyList q \<noteq> []"

definition isFull :: "mshr_queue \<Rightarrow> bool" where
  "isFull q \<longleftrightarrow> allocated q > numEntries q - numReserve q"

definition canPrefetch :: "mshr_queue \<Rightarrow> bool" where
  "canPrefetch q \<longleftrightarrow> allocated q < numEntries q - (numReserve q + demandReserve q)"

definition q_getNextMSHR :: "tick \<Rightarrow> mshr_queue \<Rightarrow> nat option" where
  "q_getNextMSHR now q =
     (case readyList q of [] \<Rightarrow> None
      | i # _ \<Rightarrow> if readyTime (reg q i) > now then None else Some i)"

definition q_nextMSHRReadyTime :: "mshr_queue \<Rightarrow> tick" where
  "q_nextMSHRReadyTime q = (case readyList q of [] \<Rightarrow> MaxTick | i # _ \<Rightarrow> readyTime (reg q i))"

definition forceDeallocateTarget :: "tick \<Rightarrow> mshr_queue \<Rightarrow> nat \<Rightarrow> (mshr_queue \<times> bool) res" where
  "forceDeallocateTarget now q i =
     assertE ''mshr->hasTargets()'' (hasTargets (reg q i))
       (let m = popTarget (reg q i) in
        bindE (if hasTargets m then Inr (upd_reg q i m)
               else bindE (promoteDeferredTargets now m) (\<lambda>(m', promoted).
                      if promoted then Inr (upd_reg q i m')
                      else deallocateOne (upd_reg q i m') i)) (\<lambda>q1.
        Inr (q1, isFull q \<and> \<not> isFull q1)))"

text \<open>
  \<^verbatim>\<open>squash\<close> walks the allocated list; \<^verbatim>\<open>deallocateOne\<close> returns the iterator after the
  register it removes, so the walk visits every register that was in the list once.
  The inner loop pops targets under an assertion that only thread 0 passes.
\<close>

definition squash_one :: "mshr_queue \<Rightarrow> int \<Rightarrow> nat \<Rightarrow> mshr_queue res" where
  "squash_one q tn i =
     (if threadNum (reg q i) = tn then
        assertE ''0 == threadNum'' (hasTargets (reg q i) \<longrightarrow> 0 = tn)
          (let m = (reg q i)\<lparr>targets := (targets (reg q i))\<lparr>tgts := []\<rparr>\<rparr> in
           assertE ''mshr->getNumTargets()==0'' (getNumTargets m = 0)
             (if \<not> inService m then deallocateOne (upd_reg q i m) i else Inr (upd_reg q i m)))
      else Inr q)"

fun squash_list :: "mshr_queue \<Rightarrow> int \<Rightarrow> nat list \<Rightarrow> mshr_queue res" where
  "squash_list q tn [] = Inr q"
| "squash_list q tn (i # is) = bindE (squash_one q tn i) (\<lambda>q1. squash_list q1 tn is)"

definition squash :: "mshr_queue \<Rightarrow> int \<Rightarrow> mshr_queue res" where
  "squash q tn = squash_list q tn (allocatedList q)"

definition q_drain :: "mshr_queue \<Rightarrow> drain_state" where
  "q_drain q = (if allocated q = 0 then Drained else Draining)"

section \<open>The ready list is a stable priority queue\<close>

lemma insert_before_later_eq:
  "\<exists>j \<in> set js. rt j > rt i \<Longrightarrow> insert_before_later rt i js = Inr (insert_stable rt i js)"
  by (induction js) (auto simp: insert_stable_def res_simps)

definition ready_sorted :: "mshr_queue \<Rightarrow> bool" where
  "ready_sorted q \<longleftrightarrow> sorted (map (\<lambda>i. readyTime (reg q i)) (readyList q))"

text \<open>The insertion never runs off the list, and keeps registers of equal ready time in order of arrival.\<close>

lemma addToReadyList_stable:
  assumes "ready_sorted q"
  shows "addToReadyList q i =
           Inr (q\<lparr>readyList := insert_stable (\<lambda>j. readyTime (reg q j)) i (readyList q)\<rparr>)"
proof (cases "readyList q = [] \<or> readyTime (reg q (last (readyList q))) \<le> readyTime (reg q i)")
  case True
  then have "\<forall>j \<in> set (readyList q). readyTime (reg q j) \<le> readyTime (reg q i)"
    using sorted_last_max [OF assms [unfolded ready_sorted_def]] order_trans by fastforce
  then show ?thesis using True by (simp add: addToReadyList_def insert_stable_last)
next
  case False
  then have "\<exists>j \<in> set (readyList q). readyTime (reg q j) > readyTime (reg q i)"
    by (intro bexI [of _ "last (readyList q)"]) auto
  then show ?thesis using False by (auto simp: addToReadyList_def insert_before_later_eq)
qed

lemma insert_before_later_mset:
  "insert_before_later rt i js = Inr js' \<Longrightarrow> mset js' = add_mset i (mset js)"
  by (induction js arbitrary: js') (auto simp: res_simps split: if_splits)

lemma addToReadyList_perm:
  assumes "addToReadyList q i = Inr q'"
  shows "\<exists>rl. q' = q\<lparr>readyList := rl\<rparr> \<and> mset rl = add_mset i (mset (readyList q))"
  using assms insert_before_later_mset
  by (auto simp: addToReadyList_def res_simps split: if_splits)

lemma addToReadyList_succeeds: "\<exists>q'. addToReadyList q i = Inr q'"
proof (cases "readyList q = [] \<or> readyTime (reg q (last (readyList q))) \<le> readyTime (reg q i)")
  case True
  then show ?thesis by (simp add: addToReadyList_def)
next
  case False
  then have "\<exists>j \<in> set (readyList q). readyTime (reg q j) > readyTime (reg q i)"
    by (intro bexI [of _ "last (readyList q)"]) auto
  then show ?thesis using False by (auto simp: addToReadyList_def insert_before_later_eq)
qed

section \<open>The queue invariant\<close>

definition free_reg :: "mshr \<Rightarrow> bool" where
  "free_reg m \<longleftrightarrow> getNumTargets m = 0 \<and> isReset (targets m) \<and> isReset (deferredTargets m) \<and> \<not> inService m"

text \<open>
  Every register is in exactly one of the free and the allocated list, the ready list
  holds the allocated registers whose request has not been issued, the two counters
  count the lists, and a free register is empty.
\<close>

definition q_inv :: "mshr_queue \<Rightarrow> bool" where
  "q_inv q \<longleftrightarrow>
     int (length (registers q)) = numEntries q \<and>
     distinct (freeList q @ allocatedList q) \<and>
     set (freeList q @ allocatedList q) = {0 ..< length (registers q)} \<and>
     distinct (readyList q) \<and>
     set (readyList q) = {i \<in> set (allocatedList q). \<not> inService (reg q i)} \<and>
     allocated q = int (length (allocatedList q)) \<and>
     inServiceEntries q = int (length (allocatedList q)) - int (length (readyList q)) \<and>
     (\<forall>i \<in> set (freeList q). free_reg (reg q i))"

lemma reg_upd_reg [simp]:
  "i < length (registers q) \<Longrightarrow> reg (upd_reg q i m) j = (if j = i then m else reg q j)"
  by (simp add: upd_reg_def nth_list_update)

lemma upd_reg_frame [simp]:
  "length (registers (upd_reg q i m)) = length (registers q)"
  "allocatedList (upd_reg q i m) = allocatedList q" "readyList (upd_reg q i m) = readyList q"
  "freeList (upd_reg q i m) = freeList q" "allocated (upd_reg q i m) = allocated q"
  "inServiceEntries (upd_reg q i m) = inServiceEntries q" "numEntries (upd_reg q i m) = numEntries q"
  "numReserve (upd_reg q i m) = numReserve q" "demandReserve (upd_reg q i m) = demandReserve q"
  "q_drainState (upd_reg q i m) = q_drainState q" "upstreamMsgs (upd_reg q i m) = upstreamMsgs q"
  "q_drainSignals (upd_reg q i m) = q_drainSignals q" "q_index (upd_reg q i m) = q_index q"
  by (simp_all add: upd_reg_def)

lemma q_inv_init:
  assumes "0 \<le> n + r - 1"
  shows "q_inv (MSHRQueue_init n r d idx)"
  using assms
  by (auto simp: q_inv_def MSHRQueue_init_def Let_def free_reg_def MSHR_init_def getNumTargets_def
      empty_targets_def isReset_def)

lemma ready_sorted_init [simp]: "ready_sorted (MSHRQueue_init n r d idx)"
  by (simp add: ready_sorted_def MSHRQueue_init_def Let_def)

lemma q_inv_allocated_lt: "q_inv q \<Longrightarrow> i \<in> set (allocatedList q) \<Longrightarrow> i < length (registers q)"
  by (auto simp: q_inv_def)

lemma q_inv_counts:
  assumes "q_inv q"
  shows "int (length (freeList q)) = numEntries q - allocated q"
    and "int (length (filter (\<lambda>i. inService (reg q i)) (allocatedList q))) = inServiceEntries q"
proof -
  have "length (freeList q @ allocatedList q) = length (registers q)"
    using assms distinct_card [of "freeList q @ allocatedList q"] by (simp add: q_inv_def)
  then show "int (length (freeList q)) = numEntries q - allocated q"
    using assms by (simp add: q_inv_def)
  have "set (readyList q) = set (filter (\<lambda>i. \<not> inService (reg q i)) (allocatedList q))"
    and "distinct (readyList q)" and "distinct (allocatedList q)"
    using assms by (auto simp: q_inv_def)
  then have "length (readyList q) = length (filter (\<lambda>i. \<not> inService (reg q i)) (allocatedList q))"
    by (metis distinct_card distinct_filter)
  moreover have "length (filter (\<lambda>i. inService (reg q i)) (allocatedList q)) +
      length (filter (\<lambda>i. \<not> inService (reg q i)) (allocatedList q)) = length (allocatedList q)"
    by (rule sum_length_filter_compl)
  ultimately show "int (length (filter (\<lambda>i. inService (reg q i)) (allocatedList q))) = inServiceEntries q"
    using assms by (simp add: q_inv_def)
qed

lemma not_full_free:
  assumes "q_inv q" and "\<not> isFull q" and "0 < numReserve q"
  shows "freeList q \<noteq> []"
  using q_inv_counts(1) [OF assms(1)] assms(2,3) by (auto simp: isFull_def)
section \<open>Every operation keeps the invariant\<close>

lemma int_length_remove1: "x \<in> set xs \<Longrightarrow> int (length (remove1 x xs)) = int (length xs) - 1"
  by (induction xs) auto

lemma mshr_allocate_frame:
  assumes "mshr_allocate now m a sz p t n = Inr (m', msgs)"
  shows "\<not> inService m'" "readyTime m' = t" "blkAddr m' = a" "isSecure m' = pkt_secure p"
    "isUncacheable m' = req_uncacheable (req p)" "order m' = n"
    "deferredTargets m' = deferredTargets m"
    "map t_pkt (tgts (targets m')) = map t_pkt (tgts (targets m)) @ [p]"
  using assms by (auto simp: mshr_allocate_def res_simps Let_def case_prod_beta tl_add_def)

lemma q_allocate_shape:
  assumes "q_allocate now q a sz p t n = Inr (q', i)"
  shows "\<exists>fl m msgs rl.
           freeList q = i # fl \<and> getNumTargets (reg q i) = 0 \<and>
           mshr_allocate now (reg q i) a sz p t n = Inr (m, msgs) \<and>
           mset rl = add_mset i (mset (readyList q)) \<and>
           q' = (upd_reg q i m)\<lparr>freeList := fl, allocatedList := allocatedList q @ [i],
                  upstreamMsgs := upstreamMsgs q @ msgs, readyList := rl, allocated := allocated q + 1\<rparr>"
  using assms
  by (auto simp: q_allocate_def res_simps split: list.splits dest!: addToReadyList_perm)

lemma q_inv_allocate:
  assumes "q_inv q" and "q_allocate now q a sz p t n = Inr (q', i)"
  shows "q_inv q'"
proof -
  obtain fl m msgs rl where h: "freeList q = i # fl"
    "mshr_allocate now (reg q i) a sz p t n = Inr (m, msgs)"
    "mset rl = add_mset i (mset (readyList q))"
    and q': "q' = (upd_reg q i m)\<lparr>freeList := fl, allocatedList := allocatedList q @ [i],
                    upstreamMsgs := upstreamMsgs q @ msgs, readyList := rl, allocated := allocated q + 1\<rparr>"
    using q_allocate_shape [OF assms(2)] by auto
  have i: "i < length (registers q)" "i \<notin> set (allocatedList q)" "i \<notin> set fl"
    using assms(1) h(1) by (auto simp: q_inv_def)
  have rl: "set rl = insert i (set (readyList q))" "length rl = Suc (length (readyList q))"
    using h(3) by (metis set_mset_add_mset_insert set_mset_mset, metis size_add_mset size_mset)
  have "i \<notin> set (readyList q)" using i assms(1) by (auto simp: q_inv_def)
  then have "distinct rl" using assms(1) h(3)
    by (metis distinct.simps(2) mset.simps(2) mset_eq_imp_distinct_iff q_inv_def)
  then show ?thesis
    using assms(1) h(1) i rl mshr_allocate_frame(1) [OF h(2)]
    by (auto simp: q_inv_def q' nth_list_update upd_reg_def)
qed

lemma q_allocate_succeeds:
  assumes "q_inv q" and "freeList q \<noteq> []"
  shows "\<exists>q' i. q_allocate now q a sz p t n = Inr (q', i)"
proof -
  obtain i fl where fl: "freeList q = i # fl" using assms(2) by (cases "freeList q") auto
  then have "free_reg (reg q i)" using assms(1) by (simp add: q_inv_def)
  then obtain m msgs where "mshr_allocate now (reg q i) a sz p t n = Inr (m, msgs)"
    by (auto simp: mshr_allocate_def free_reg_def case_prod_beta Let_def)
  moreover obtain q1 where
    "addToReadyList ((upd_reg q i m)\<lparr>freeList := fl, allocatedList := allocatedList q @ [i],
                       upstreamMsgs := upstreamMsgs q @ msgs\<rparr>) i = Inr q1"
    using addToReadyList_succeeds by blast
  ultimately show ?thesis
    using fl \<open>free_reg (reg q i)\<close> by (simp add: q_allocate_def free_reg_def)
qed

lemma ready_sorted_upd:
  assumes "i < length (registers q)" and "i \<notin> set (readyList q)" and "ready_sorted q"
  shows "ready_sorted (upd_reg q i m)"
proof -
  have "map (\<lambda>j. readyTime (reg (upd_reg q i m) j)) (readyList q) =
        map (\<lambda>j. readyTime (reg q j)) (readyList q)"
    using assms(1,2) by auto
  then show ?thesis using assms(3) by (simp only: ready_sorted_def upd_reg_frame)
qed

lemma addToReadyList_sorted:
  "ready_sorted q \<Longrightarrow> addToReadyList q i = Inr q' \<Longrightarrow> ready_sorted q'"
  using sorted_insert_stable [of "\<lambda>j. readyTime (reg q j)" "readyList q" i]
  by (auto simp: addToReadyList_stable) (simp add: ready_sorted_def)

lemma ready_sorted_allocate:
  assumes "q_inv q" and "ready_sorted q" and "q_allocate now q a sz p t n = Inr (q', i)"
  shows "ready_sorted q'"
proof -
  obtain fl m msgs q1 where h: "freeList q = i # fl"
    "addToReadyList ((upd_reg q i m)\<lparr>freeList := fl, allocatedList := allocatedList q @ [i],
                       upstreamMsgs := upstreamMsgs q @ msgs\<rparr>) i = Inr q1"
    "q' = q1\<lparr>allocated := allocated q1 + 1\<rparr>"
    using assms(3) by (auto simp: q_allocate_def res_simps split: list.splits)
  have "i < length (registers q)" "i \<notin> set (readyList q)"
    using assms(1) h(1) by (auto simp: q_inv_def)
  then have "ready_sorted (upd_reg q i m)" using assms(2) by (intro ready_sorted_upd)
  then have "ready_sorted ((upd_reg q i m)\<lparr>freeList := fl, allocatedList := allocatedList q @ [i],
                       upstreamMsgs := upstreamMsgs q @ msgs\<rparr>)"
    by (simp add: ready_sorted_def)
  from addToReadyList_sorted [OF this h(2)] show ?thesis by (simp add: ready_sorted_def h(3))
qed

lemma deallocateOne_shape:
  assumes "deallocateOne q i = Inr q'"
  shows "\<exists>m k. i \<in> set (allocatedList q) \<and> tgts (targets (reg q i)) = [] \<and>
           isReset (deferredTargets (reg q i)) \<and>
           m = (reg q i)\<lparr>targets := resetFlags (targets (reg q i)), inService := False\<rparr> \<and>
           (\<not> inService (reg q i) \<longrightarrow> i \<in> set (readyList q)) \<and>
           q' = (upd_reg q i m)
                  \<lparr>allocatedList := remove1 i (allocatedList q), freeList := i # freeList q,
                   allocated := allocated q - 1,
                   readyList := (if inService (reg q i) then readyList q else remove1 i (readyList q)),
                   inServiceEntries := (if inService (reg q i) then inServiceEntries q - 1
                                        else inServiceEntries q),
                   q_drainSignals := k\<rparr>"
  using assms
  by (auto simp: deallocateOne_def erase_def mshr_deallocate_def res_simps Let_def upd_reg_def
      intro!: exI [of _ "q_drainSignals q'"] mshr_queue.equality split: if_splits)

lemma q_inv_deallocate:
  assumes "q_inv q" and "deallocateOne q i = Inr q'" and "tgts (deferredTargets (reg q i)) = []"
  shows "q_inv q'"
proof -
  obtain m k where h: "i \<in> set (allocatedList q)" "tgts (targets (reg q i)) = []"
    "isReset (deferredTargets (reg q i))"
    "m = (reg q i)\<lparr>targets := resetFlags (targets (reg q i)), inService := False\<rparr>"
    "\<not> inService (reg q i) \<longrightarrow> i \<in> set (readyList q)"
    and q': "q' = (upd_reg q i m)
                  \<lparr>allocatedList := remove1 i (allocatedList q), freeList := i # freeList q,
                   allocated := allocated q - 1,
                   readyList := (if inService (reg q i) then readyList q else remove1 i (readyList q)),
                   inServiceEntries := (if inService (reg q i) then inServiceEntries q - 1
                                        else inServiceEntries q),
                   q_drainSignals := k\<rparr>"
    using deallocateOne_shape [OF assms(2)] by auto
  have i: "i < length (registers q)" using q_inv_allocated_lt [OF assms(1) h(1)] .
  have free: "free_reg m"
    using h assms(3) by (simp add: free_reg_def getNumTargets_def resetFlags_def isReset_def)
  have nr: "inService (reg q i) \<Longrightarrow> i \<notin> set (readyList q)"
    using assms(1) by (auto simp: q_inv_def)
  show ?thesis
    using assms(1) h(1,5) i free nr
    by (cases "inService (reg q i)") (auto simp: q_inv_def q' upd_reg_def nth_list_update int_length_remove1)
qed

lemma deallocateOne_succeeds:
  assumes "q_inv q" and "i \<in> set (allocatedList q)" and "tgts (targets (reg q i)) = []"
    and "isReset (deferredTargets (reg q i))"
  shows "\<exists>q'. deallocateOne q i = Inr q'"
  using assms by (auto simp: deallocateOne_def erase_def mshr_deallocate_def q_inv_def Let_def res_simps)

lemma ready_sorted_deallocate:
  assumes "q_inv q" and "ready_sorted q" and "deallocateOne q i = Inr q'"
  shows "ready_sorted q'"
proof -
  obtain m k where h: "i \<in> set (allocatedList q)"
    "m = (reg q i)\<lparr>targets := resetFlags (targets (reg q i)), inService := False\<rparr>"
    and r: "readyList q' = (if inService (reg q i) then readyList q else remove1 i (readyList q))"
    and rg: "registers q' = (registers q)[i := m]"
    using deallocateOne_shape [OF assms(3)] by (auto simp: upd_reg_def)
  have i: "i < length (registers q)" using q_inv_allocated_lt [OF assms(1) h(1)] .
  have rt: "readyTime (reg q' j) = readyTime (reg q j)" for j
    using i by (simp add: rg h(2) nth_list_update)
  have "sorted (map (\<lambda>i. readyTime (reg q i)) (remove1 i (readyList q)))"
    using assms(2) by (simp add: ready_sorted_def sorted_map_remove1)
  then show ?thesis using assms(2) by (simp add: ready_sorted_def rt r)
qed

lemma q_markInService_cases:
  assumes "q_markInService q i d = Inr q'"
  obtains (forwarded) "\<not> inService (reg q i)" "isForwardNoResponse (reg q i)"
      "deallocateOne ((upd_reg q i (popTarget (reg q i)))\<lparr>upstreamMsgs := upstreamMsgs q\<rparr>) i = Inr q'"
  | (issued) m msgs where "\<not> inService (reg q i)" "\<not> isForwardNoResponse (reg q i)"
      "mshr_markInService (reg q i) d = Inr (m, msgs, False)" "inService m"
      "readyTime m = readyTime (reg q i)" "i \<in> set (readyList q)"
      "q' = (upd_reg q i m)\<lparr>upstreamMsgs := upstreamMsgs q @ msgs, readyList := remove1 i (readyList q),
                              inServiceEntries := inServiceEntries q + 1\<rparr>"
proof (cases "isForwardNoResponse (reg q i)")
  case True
  then show ?thesis
    using assms forwarded
    by (auto simp: q_markInService_def mshr_markInService_def q_deallocate_def Let_def res_simps)
next
  case False
  then show ?thesis
    using assms issued
    by (auto simp: q_markInService_def mshr_markInService_def erase_def Let_def res_simps split: if_splits)
qed

lemma q_inv_upd_same:
  assumes "q_inv q" and "i \<in> set (allocatedList q)" and "inService m = inService (reg q i)"
  shows "q_inv (upd_reg q i m)"
  using assms q_inv_allocated_lt [OF assms(1,2)]
  by (auto simp: q_inv_def upd_reg_def nth_list_update)

lemma q_inv_msgs [simp]: "q_inv (q\<lparr>upstreamMsgs := ms\<rparr>) = q_inv q"
  by (simp add: q_inv_def)

lemma popTarget_frame [simp]:
  "inService (popTarget m) = inService m" "readyTime (popTarget m) = readyTime m"
  "deferredTargets (popTarget m) = deferredTargets m" "blkAddr (popTarget m) = blkAddr m"
  "isSecure (popTarget m) = isSecure m" "isUncacheable (popTarget m) = isUncacheable m"
  "tgts (targets (popTarget m)) = tl (tgts (targets m))"
  by (simp_all add: popTarget_def)

lemma isForwardNoResponse_targets:
  "isForwardNoResponse m \<Longrightarrow> length (tgts (targets m)) = 1 \<and> tgts (deferredTargets m) = []"
  by (auto simp: isForwardNoResponse_def getNumTargets_def split: list.splits)

lemma q_inv_markInService:
  assumes "q_inv q" and "i \<in> set (allocatedList q)" and "q_markInService q i d = Inr q'"
  shows "q_inv q'"
  using assms(3)
proof (cases rule: q_markInService_cases)
  case forwarded
  let ?q1 = "(upd_reg q i (popTarget (reg q i)))\<lparr>upstreamMsgs := upstreamMsgs q\<rparr>"
  have "q_inv ?q1" using assms(1,2) by (simp add: q_inv_upd_same)
  moreover have "tgts (deferredTargets (reg ?q1 i)) = []"
    using isForwardNoResponse_targets [OF forwarded(2)] q_inv_allocated_lt [OF assms(1,2)]
    by (simp add: upd_reg_def)
  ultimately show ?thesis using forwarded(3) q_inv_deallocate by blast
next
  case (issued m msgs)
  then show ?thesis
    using assms(1,2) q_inv_allocated_lt [OF assms(1,2)]
    by (auto simp: q_inv_def upd_reg_def nth_list_update int_length_remove1)
qed

lemma q_inv_markPending:
  assumes "q_inv q" and "i \<in> set (allocatedList q)" and "markPending q i = Inr q'"
  shows "q_inv q'"
proof -
  obtain rl where ins: "inService (reg q i)" and rl: "mset rl = add_mset i (mset (readyList q))"
    and q': "q' = (upd_reg q i ((reg q i)\<lparr>inService := False\<rparr>))
                    \<lparr>inServiceEntries := inServiceEntries q - 1, readyList := rl\<rparr>"
    using assms(3) by (auto simp: markPending_def res_simps dest!: addToReadyList_perm)
  have set_rl: "set rl = insert i (set (readyList q))" "length rl = Suc (length (readyList q))"
    using rl by (metis set_mset_add_mset_insert set_mset_mset, metis size_add_mset size_mset)
  have "i \<notin> set (readyList q)" using ins assms(1) by (auto simp: q_inv_def)
  then have "distinct rl" using assms(1) rl
    by (metis distinct.simps(2) mset.simps(2) mset_eq_imp_distinct_iff q_inv_def)
  then show ?thesis
    using assms(1,2) set_rl ins q_inv_allocated_lt [OF assms(1,2)] by (auto simp: q_inv_def q' upd_reg_def nth_list_update)
qed

lemma q_inv_moveToFront:
  assumes "q_inv q" and "moveToFront q i = Inr q'"
  shows "q_inv q'"
  using assms
  by (auto simp: moveToFront_def erase_def q_inv_def res_simps int_length_remove1 split: if_splits)

lemma find_append:
  "find P (xs @ ys) = (case find P xs of None \<Rightarrow> find P ys | Some x \<Rightarrow> Some x)"
  by (induction xs) auto

lemma sorted_remove1_ready:
  "ready_sorted q \<Longrightarrow> sorted (map (\<lambda>j. readyTime (reg q j)) (remove1 i (readyList q)))"
  by (simp add: ready_sorted_def sorted_map_remove1)

lemma ready_sorted_upd_same:
  assumes "i < length (registers q)" and "readyTime m = readyTime (reg q i)" and "ready_sorted q"
  shows "ready_sorted (upd_reg q i m)"
proof -
  have "readyTime (reg (upd_reg q i m) j) = readyTime (reg q j)" for j
    using assms(1,2) by simp
  then show ?thesis using assms(3) by (simp add: ready_sorted_def)
qed

lemma ready_sorted_markInService:
  assumes "q_inv q" and "ready_sorted q" and "i \<in> set (allocatedList q)"
    and "q_markInService q i d = Inr q'"
  shows "ready_sorted q'"
  using assms(4)
proof (cases rule: q_markInService_cases)
  case forwarded
  let ?q1 = "(upd_reg q i (popTarget (reg q i)))\<lparr>upstreamMsgs := upstreamMsgs q\<rparr>"
  have "q_inv ?q1" using assms(1,3) by (simp add: q_inv_upd_same)
  moreover have "ready_sorted (upd_reg q i (popTarget (reg q i)))"
    using q_inv_allocated_lt [OF assms(1,3)] assms(2) by (simp add: ready_sorted_upd_same)
  then have "ready_sorted ?q1" by (simp add: ready_sorted_def)
  ultimately show ?thesis using forwarded(3) ready_sorted_deallocate by blast
next
  case (issued m msgs)
  have i: "i < length (registers q)" using q_inv_allocated_lt [OF assms(1,3)] .
  have "readyTime (reg q' j) = readyTime (reg q j)" for j
    using i issued(5) by (simp add: issued(7))
  then show ?thesis
    using sorted_remove1_ready [OF assms(2), of i] by (simp add: ready_sorted_def issued(7))
qed

lemma ready_sorted_markPending:
  assumes "q_inv q" and "ready_sorted q" and "i \<in> set (allocatedList q)"
    and "markPending q i = Inr q'"
  shows "ready_sorted q'"
proof -
  let ?q1 = "(upd_reg q i ((reg q i)\<lparr>inService := False\<rparr>))\<lparr>inServiceEntries := inServiceEntries q - 1\<rparr>"
  have "ready_sorted (upd_reg q i ((reg q i)\<lparr>inService := False\<rparr>))"
    using q_inv_allocated_lt [OF assms(1,3)] assms(2) by (simp add: ready_sorted_upd_same)
  then have "ready_sorted ?q1" by (simp add: ready_sorted_def)
  then show ?thesis
    using assms(4) addToReadyList_sorted by (auto simp: markPending_def res_simps)
qed

lemma promote_frame:
  assumes "promoteDeferredTargets now m = Inr (m', b)"
  shows "inService m' = inService m" "b \<longleftrightarrow> tgts (deferredTargets m) \<noteq> []"
    "\<not> b \<Longrightarrow> m' = m" "tgts (targets m) = []"
    "b \<Longrightarrow> tgts (targets m') = tgts (deferredTargets m) \<and> tgts (deferredTargets m') = []"
    "blkAddr m' = blkAddr m" "isSecure m' = isSecure m" "isUncacheable m' = isUncacheable m"
  using assms by (auto simp: promoteDeferredTargets_def res_simps resetFlags_def split: list.splits)

lemma q_inv_forceDeallocateTarget:
  assumes "q_inv q" and "i \<in> set (allocatedList q)"
    and "forceDeallocateTarget now q i = Inr (q', b)"
  shows "q_inv q'"
proof (cases "hasTargets (popTarget (reg q i))")
  case True
  then show ?thesis
    using assms by (auto simp: forceDeallocateTarget_def res_simps Let_def q_inv_upd_same)
next
  case False
  obtain m' p where pr: "promoteDeferredTargets now (popTarget (reg q i)) = Inr (m', p)"
    and q': "if p then q' = upd_reg q i m' else deallocateOne (upd_reg q i m') i = Inr q'"
  proof (cases "promoteDeferredTargets now (popTarget (reg q i))")
    case (Inl e)
    then show ?thesis using assms(3) False by (simp add: forceDeallocateTarget_def res_simps Let_def)
  next
    case (Inr r)
    then show ?thesis
      using assms(3) False that [of "fst r" "snd r"]
      by (cases r) (simp add: forceDeallocateTarget_def res_simps Let_def split: if_splits)
  qed
  have inv1: "q_inv (upd_reg q i m')"
    using assms(1,2) promote_frame(1) [OF pr] by (simp add: q_inv_upd_same)
  have "\<not> p \<Longrightarrow> tgts (deferredTargets (reg (upd_reg q i m') i)) = []"
    using promote_frame(2,3) [OF pr] q_inv_allocated_lt [OF assms(1,2)] by simp
  then show ?thesis
    using q' inv1 q_inv_deallocate [OF inv1] by (cases p) auto
qed

lemma squash_one_inv:
  assumes "q_inv q" and "i \<in> set (allocatedList q)" and "squash_one q tn i = Inr q'"
  shows "q_inv q' \<and> (\<forall>j. j \<noteq> i \<longrightarrow> j \<in> set (allocatedList q) \<longrightarrow> j \<in> set (allocatedList q'))"
proof (cases "threadNum (reg q i) = tn")
  case False
  then show ?thesis using assms by (simp add: squash_one_def)
next
  case True
  let ?m = "(reg q i)\<lparr>targets := (targets (reg q i))\<lparr>tgts := []\<rparr>\<rparr>"
  have n: "getNumTargets ?m = 0"
    and q': "if inService ?m then q' = upd_reg q i ?m else deallocateOne (upd_reg q i ?m) i = Inr q'"
    using assms(3) True by (auto simp: squash_one_def res_simps Let_def split: if_splits)
  have inv1: "q_inv (upd_reg q i ?m)" using assms(1,2) by (simp add: q_inv_upd_same)
  have d: "tgts (deferredTargets (reg (upd_reg q i ?m) i)) = []"
    using n q_inv_allocated_lt [OF assms(1,2)] by (simp add: getNumTargets_def)
  show ?thesis
  proof (cases "inService ?m")
    case True
    then show ?thesis using q' inv1 by simp
  next
    case False
    then have dq: "deallocateOne (upd_reg q i ?m) i = Inr q'" using q' by simp
    show ?thesis
      using q_inv_deallocate [OF inv1 dq d] deallocateOne_shape [OF dq] by auto
  qed
qed

lemma squash_list_inv:
  assumes "q_inv q" and "distinct is" and "set is \<subseteq> set (allocatedList q)"
    and "squash_list q tn is = Inr q'"
  shows "q_inv q'"
  using assms
proof (induction "is" arbitrary: q)
  case Nil
  then show ?case by simp
next
  case (Cons i "is")
  obtain q1 where s: "squash_one q tn i = Inr q1" "squash_list q1 tn is = Inr q'"
    using Cons.prems(4) by (auto simp: res_simps)
  have "q_inv q1 \<and> (\<forall>j. j \<noteq> i \<longrightarrow> j \<in> set (allocatedList q) \<longrightarrow> j \<in> set (allocatedList q1))"
    using squash_one_inv [OF Cons.prems(1) _ s(1)] Cons.prems(3) by simp
  moreover have "i \<notin> set is" "distinct is" using Cons.prems(2) by auto
  moreover from calculation have "set is \<subseteq> set (allocatedList q1)" using Cons.prems(3) by auto
  ultimately show ?case using Cons.IH [OF _ _ _ s(2)] by simp
qed

lemma q_inv_squash: "q_inv q \<Longrightarrow> squash q tn = Inr q' \<Longrightarrow> q_inv q'"
  using squash_list_inv [of q "allocatedList q" tn q'] by (auto simp: squash_def q_inv_def)

section \<open>The contract the controllers rely on\<close>

text \<open>
  A pool of registers, each bound to at most one key, as its clients see it: a search
  returns the first live register bound to a key, an allocation adds one live register
  at the end and leaves the others, a release removes one.
\<close>

locale miss_pool =
  fixes inv :: "'q \<Rightarrow> bool"
    and full :: "'q \<Rightarrow> bool"
    and live :: "'q \<Rightarrow> nat list"
    and key :: "'q \<Rightarrow> nat \<Rightarrow> 'k option"
    and search :: "'q \<Rightarrow> 'k \<Rightarrow> nat option"
    and vkey :: "'v \<Rightarrow> 'k option"
    and alloc :: "'q \<Rightarrow> 'v \<Rightarrow> ('q \<times> nat) res"
    and release :: "'q \<Rightarrow> nat \<Rightarrow> 'q res"
    and idle :: "'q \<Rightarrow> nat \<Rightarrow> bool"
  assumes search_law: "search q k = find (\<lambda>i. key q i = Some k) (live q)"
    and live_distinct: "inv q \<Longrightarrow> distinct (live q)"
    and alloc_total: "inv q \<Longrightarrow> \<not> full q \<Longrightarrow> \<exists>q' i. alloc q v = Inr (q', i)"
    and alloc_law: "inv q \<Longrightarrow> alloc q v = Inr (q', i) \<Longrightarrow>
          inv q' \<and> i \<notin> set (live q) \<and> live q' = live q @ [i] \<and> key q' i = vkey v \<and>
          (\<forall>j \<in> set (live q). key q' j = key q j)"
    and release_law: "inv q \<Longrightarrow> i \<in> set (live q) \<Longrightarrow> idle q i \<Longrightarrow> release q i = Inr q' \<Longrightarrow>
          inv q' \<and> live q' = remove1 i (live q) \<and> (\<forall>j \<in> set (live q'). key q' j = key q j)"
begin

definition keys_unique :: "'q \<Rightarrow> bool" where
  "keys_unique q \<longleftrightarrow> (\<forall>i \<in> set (live q). \<forall>j \<in> set (live q). key q i \<noteq> None \<longrightarrow> key q i = key q j \<longrightarrow> i = j)"

lemma search_None: "search q k = None \<longleftrightarrow> (\<forall>i \<in> set (live q). key q i \<noteq> Some k)"
  by (auto simp: search_law find_None_iff)

lemma search_Some: "search q k = Some i \<Longrightarrow> i \<in> set (live q) \<and> key q i = Some k"
  by (auto simp: search_law find_Some_iff in_set_conv_nth)

lemma search_after_alloc:
  assumes "inv q" and "alloc q v = Inr (q', i)" and "vkey v = Some k" and "search q k = None"
  shows "search q' k = Some i"
proof -
  have l: "live q' = live q @ [i]" "key q' i = Some k" "\<forall>j \<in> set (live q). key q' j = key q j"
    using alloc_law [OF assms(1,2)] assms(3) by auto
  have "\<forall>j \<in> set (live q). key q' j \<noteq> Some k" using assms(4) l(3) by (simp add: search_None)
  then have "find (\<lambda>j. key q' j = Some k) (live q) = None" by (simp add: find_None_iff)
  then show ?thesis using l by (simp add: search_law find_append)
qed

lemma search_alloc_other:
  assumes "inv q" and "alloc q v = Inr (q', i)" and "vkey v \<noteq> Some k"
  shows "search q' k = search q k"
proof -
  have l: "live q' = live q @ [i]" "key q' i = vkey v" "\<forall>j \<in> set (live q). key q' j = key q j"
    using alloc_law [OF assms(1,2)] by auto
  have "find (\<lambda>j. key q' j = Some k) (live q) = find (\<lambda>j. key q j = Some k) (live q)"
    using l(3) by (intro find_cong) auto
  then show ?thesis using l assms(3) by (simp add: search_law find_append split: option.splits)
qed

lemma keys_unique_alloc:
  assumes "inv q" and "keys_unique q" and "alloc q v = Inr (q', i)"
    and "\<And>k. vkey v = Some k \<Longrightarrow> search q k = None"
  shows "keys_unique q'"
proof -
  have l: "live q' = live q @ [i]" "key q' i = vkey v" "\<forall>j \<in> set (live q). key q' j = key q j"
    using alloc_law [OF assms(1,3)] by auto
  have n: "vkey v \<noteq> None \<Longrightarrow> j \<in> set (live q) \<Longrightarrow> key q j \<noteq> vkey v" for j
    using assms(4) by (auto simp: search_None)
  have "a = b" if "a \<in> set (live q')" "b \<in> set (live q')" "key q' a \<noteq> None" "key q' a = key q' b" for a b
  proof (cases "a = i \<or> b = i")
    case True
    then show ?thesis using that n l by (metis Un_iff empty_iff insert_iff list.set set_append)
  next
    case False
    then have "a \<in> set (live q)" "b \<in> set (live q)" using that l(1) by auto
    then show ?thesis using that assms(2) l(3) unfolding keys_unique_def by metis
  qed
  then show ?thesis unfolding keys_unique_def by blast
qed

lemma keys_unique_release:
  assumes "inv q" and "keys_unique q" and "i \<in> set (live q)" and "idle q i" and "release q i = Inr q'"
  shows "keys_unique q'"
proof -
  have l: "live q' = remove1 i (live q)" and k: "\<And>j. j \<in> set (live q') \<Longrightarrow> key q' j = key q j"
    using release_law [OF assms(1,3,4,5)] by auto
  have "set (live q') \<subseteq> set (live q)" by (simp add: l set_remove1_subset)
  then show ?thesis
    using assms(2) k unfolding keys_unique_def by (metis subsetD)
qed

lemma search_after_release:
  assumes "inv q" and "keys_unique q" and "i \<in> set (live q)" and "idle q i" and "release q i = Inr q'"
    and "key q i = Some k"
  shows "search q' k = None"
proof -
  have l: "live q' = remove1 i (live q)" "\<forall>j \<in> set (live q'). key q' j = key q j"
    using release_law [OF assms(1,3,4,5)] by auto
  have "j \<in> set (live q) \<and> j \<noteq> i" if "j \<in> set (live q')" for j
    using that live_distinct [OF assms(1)] by (simp add: l(1))
  moreover have "j = i" if "j \<in> set (live q)" "key q j = Some k" for j
    using assms(2,3,6) that unfolding keys_unique_def by (metis option.distinct(1))
  ultimately have "key q j \<noteq> Some k" if "j \<in> set (live q')" for j using that by blast
  then show ?thesis using l(2) by (simp add: search_None)
qed

end


text \<open>The queue of registers is such a pool; a register of an uncacheable request has no key.\<close>

definition reg_key :: "mshr_queue \<Rightarrow> nat \<Rightarrow> (addr \<times> bool) option" where
  "reg_key q i = (if isUncacheable (reg q i) then None else Some (blkAddr (reg q i), isSecure (reg q i)))"

definition search_key :: "mshr_queue \<Rightarrow> addr \<times> bool \<Rightarrow> nat option" where
  "search_key q k = findMatch q (fst k) (snd k)"

type_synonym alloc_args = "tick \<times> addr \<times> nat \<times> packet \<times> tick \<times> nat"

fun alloc_key :: "alloc_args \<Rightarrow> (addr \<times> bool) option" where
  "alloc_key (now, a, sz, p, t, n) =
     (if req_uncacheable (req p) then None else Some (a, pkt_secure p))"

fun alloc_reg :: "mshr_queue \<Rightarrow> alloc_args \<Rightarrow> (mshr_queue \<times> nat) res" where
  "alloc_reg q (now, a, sz, p, t, n) = q_allocate now q a sz p t n"

definition pool_full :: "mshr_queue \<Rightarrow> bool" where
  "pool_full q \<longleftrightarrow> freeList q = []"

definition pool_idle :: "mshr_queue \<Rightarrow> nat \<Rightarrow> bool" where
  "pool_idle q i \<longleftrightarrow> tgts (deferredTargets (reg q i)) = []"

lemma q_allocate_reg:
  assumes "q_inv q" and "q_allocate now q a sz p t n = Inr (q', i)"
  shows "i \<notin> set (allocatedList q)" "allocatedList q' = allocatedList q @ [i]"
    "\<And>j. j \<noteq> i \<Longrightarrow> reg q' j = reg q j"
    "\<exists>m msgs. mshr_allocate now (reg q i) a sz p t n = Inr (m, msgs) \<and> reg q' i = m"
    "i < length (registers q)"
proof -
  obtain fl m msgs rl where h: "freeList q = i # fl"
    "mshr_allocate now (reg q i) a sz p t n = Inr (m, msgs)"
    and q': "q' = (upd_reg q i m)\<lparr>freeList := fl, allocatedList := allocatedList q @ [i],
                    upstreamMsgs := upstreamMsgs q @ msgs, readyList := rl, allocated := allocated q + 1\<rparr>"
    using q_allocate_shape [OF assms(2)] by auto
  show i: "i \<notin> set (allocatedList q)" "i < length (registers q)"
    using assms(1) h(1) by (auto simp: q_inv_def)
  show "allocatedList q' = allocatedList q @ [i]" "\<And>j. j \<noteq> i \<Longrightarrow> reg q' j = reg q j"
    using i by (simp_all add: q')
  show "\<exists>m msgs. mshr_allocate now (reg q i) a sz p t n = Inr (m, msgs) \<and> reg q' i = m"
    using h(2) i by (simp add: q')
qed

lemma deallocateOne_key:
  assumes "deallocateOne q i = Inr q'" and "i < length (registers q)"
  shows "allocatedList q' = remove1 i (allocatedList q)" "reg_key q' j = reg_key q j"
proof -
  obtain m where "m = (reg q i)\<lparr>targets := resetFlags (targets (reg q i)), inService := False\<rparr>"
    and "registers q' = (registers q)[i := m]" and al: "allocatedList q' = remove1 i (allocatedList q)"
    using deallocateOne_shape [OF assms(1)] by (auto simp: upd_reg_def)
  then show "reg_key q' j = reg_key q j"
    using assms(2) by (cases "j = i") (simp_all add: reg_key_def)
  show "allocatedList q' = remove1 i (allocatedList q)" by (rule al)
qed

interpretation mq: miss_pool q_inv pool_full allocatedList reg_key search_key alloc_key alloc_reg
  deallocateOne pool_idle
proof unfold_locales
  fix q and k :: "addr \<times> bool"
  show "search_key q k = find (\<lambda>i. reg_key q i = Some k) (allocatedList q)"
    by (cases k) (auto simp: search_key_def findMatch_def reg_key_def matches_def intro!: find_cong)
next
  fix q assume "q_inv q"
  then show "distinct (allocatedList q)" by (simp add: q_inv_def)
next
  fix q v assume "q_inv q" "\<not> pool_full q"
  then show "\<exists>q' i. alloc_reg q v = Inr (q', i)"
    by (cases v) (auto simp: pool_full_def q_allocate_succeeds)
next
  fix q v q' i assume a: "q_inv q" "alloc_reg q v = Inr (q', i)"
  obtain now ad sz p t n where v: "v = (now, ad, sz, p, t, n)" by (cases v) auto
  have al: "q_allocate now q ad sz p t n = Inr (q', i)" using a(2) by (simp add: v)
  show "q_inv q' \<and> i \<notin> set (allocatedList q) \<and> allocatedList q' = allocatedList q @ [i] \<and>
        reg_key q' i = alloc_key v \<and> (\<forall>j \<in> set (allocatedList q). reg_key q' j = reg_key q j)"
    using q_inv_allocate [OF a(1) al] q_allocate_reg [OF a(1) al] mshr_allocate_frame
    by (auto simp: reg_key_def v) metis+
next
  fix q i q' assume a: "q_inv q" "i \<in> set (allocatedList q)" "pool_idle q i" "deallocateOne q i = Inr q'"
  show "q_inv q' \<and> allocatedList q' = remove1 i (allocatedList q) \<and>
        (\<forall>j \<in> set (allocatedList q'). reg_key q' j = reg_key q j)"
    using q_inv_deallocate [OF a(1,4)] a(3) deallocateOne_key [OF a(4) q_inv_allocated_lt [OF a(1,2)]]
    by (simp add: pool_idle_def)
qed

section \<open>Reachable queues\<close>

text \<open>
  One step of a queue under its clients: each operation of the queue, and each operation
  of a register that a client calls through a pointer into the queue. A client releases a
  register only when no deferred target is left in it.
\<close>

inductive q_step :: "mshr_queue \<Rightarrow> mshr_queue \<Rightarrow> bool" where
  step_allocate: "q_allocate now q a sz p t n = Inr (q', i) \<Longrightarrow> q_step q q'"
| step_deallocate: "pool_idle q i \<Longrightarrow> q_deallocate q i = Inr q' \<Longrightarrow> q_step q q'"
| step_issue: "i \<in> set (allocatedList q) \<Longrightarrow> q_markInService q i d = Inr q' \<Longrightarrow> q_step q q'"
| step_pending: "i \<in> set (allocatedList q) \<Longrightarrow> markPending q i = Inr q' \<Longrightarrow> q_step q q'"
| step_front: "moveToFront q i = Inr q' \<Longrightarrow> q_step q q'"
| step_force: "i \<in> set (allocatedList q) \<Longrightarrow> forceDeallocateTarget now q i = Inr (q', b) \<Longrightarrow> q_step q q'"
| step_squash: "squash q tn = Inr q' \<Longrightarrow> q_step q q'"
| step_target: "i \<in> set (allocatedList q) \<Longrightarrow> allocateTarget now (reg q i) p t n = Inr (m, msgs) \<Longrightarrow>
    q_step q ((upd_reg q i m)\<lparr>upstreamMsgs := upstreamMsgs q @ msgs\<rparr>)"
| step_pop: "i \<in> set (allocatedList q) \<Longrightarrow> q_step q (upd_reg q i (popTarget (reg q i)))"
| step_promote: "i \<in> set (allocatedList q) \<Longrightarrow> promoteDeferredTargets now (reg q i) = Inr (m, b) \<Longrightarrow>
    q_step q (upd_reg q i m)"
| step_snoop: "i \<in> set (allocatedList q) \<Longrightarrow>
    handleSnoop now fresh (reg q i) p n = Inr (m, p', msgs, b) \<Longrightarrow>
    q_step q ((upd_reg q i m)\<lparr>upstreamMsgs := upstreamMsgs q @ msgs\<rparr>)"
| step_fill: "i \<in> set (allocatedList q) \<Longrightarrow> handleFill (reg q i) p = Inr (m, msgs) \<Longrightarrow>
    q_step q ((upd_reg q i m)\<lparr>upstreamMsgs := upstreamMsgs q @ msgs\<rparr>)"

lemma allocateTarget_inService:
  "allocateTarget now m p t n = Inr (m', msgs) \<Longrightarrow> inService m' = inService m"
  by (auto simp: allocateTarget_def res_simps Let_def case_prod_beta split: if_splits)

lemma handleFill_inService: "handleFill m p = Inr (m', msgs) \<Longrightarrow> inService m' = inService m"
  by (auto simp: handleFill_def res_simps split: if_splits)

lemma handleSnoop_inService:
  assumes "handleSnoop now fresh m pkt n = Inr (m', pkt', msgs, b)"
  shows "inService m' = inService m"
proof (cases "\<not> inService m \<or> (flag_expressSnoop pkt \<and> downstreamPending m)")
  case True
  then show ?thesis using assms by (auto simp: handleSnoop_def split: if_splits)
next
  case False
  define m1 where "m1 = (if needsExclusive pkt then
     m\<lparr>deferredTargets := replaceUpgrades (deferredTargets m)\<rparr> else m)"
  have eq: "inService m1 = inService m" by (simp add: m1_def)
  show ?thesis
    using False assms eq
    by (auto simp: handleSnoop_def m1_def [symmetric] Let_def res_simps dest: snoop_save_frame(2)
        split: if_splits prod.splits)
qed

lemma q_step_inv: "q_step q q' \<Longrightarrow> q_inv q \<Longrightarrow> q_inv q'"
proof (induction rule: q_step.induct)
  case (step_deallocate q i q')
  then show ?case using q_inv_deallocate by (auto simp: q_deallocate_def pool_idle_def)
next
  case (step_promote i q now m b)
  then show ?case using promote_frame(1) by (auto intro: q_inv_upd_same)
qed (auto intro: q_inv_allocate q_inv_markInService q_inv_markPending q_inv_moveToFront
      q_inv_forceDeallocateTarget q_inv_squash
      simp: q_inv_upd_same allocateTarget_inService handleSnoop_inService handleFill_inService)

lemma q_reachable_inv:
  "q_step\<^sup>*\<^sup>* q q' \<Longrightarrow> q_inv q \<Longrightarrow> q_inv q'"
  by (induction rule: rtranclp_induct) (auto intro: q_step_inv)

section \<open>Properties\<close>

text \<open>C7: in every queue of miss registers that the operations of the queue, and the calls its
  clients make on single registers, can produce from a new one, each register is either free or
  allocated, the ready list holds exactly the allocated registers not in service, the two
  counters count the lists, and no free register holds a target.\<close>

theorem queue_reachable_inv:
  assumes "0 \<le> n + r - 1" and "q_step\<^sup>*\<^sup>* (MSHRQueue_init n r d idx) q"
  shows "q_inv q \<and> int (length (freeList q)) = numEntries q - allocated q \<and>
         inServiceEntries q = int (length (filter (\<lambda>i. inService (reg q i)) (allocatedList q)))"
  using q_reachable_inv [OF assms(2) q_inv_init [OF assms(1)]] q_inv_counts by simp


definition blocks_distinct :: "mshr_queue \<Rightarrow> bool" where
  "blocks_distinct q \<longleftrightarrow>
     (\<forall>i \<in> set (allocatedList q). \<forall>j \<in> set (allocatedList q).
        reg_key q i \<noteq> None \<longrightarrow> reg_key q i = reg_key q j \<longrightarrow> i = j)"

lemma blocks_distinct_iff: "blocks_distinct q \<longleftrightarrow> mq.keys_unique q"
  by (simp add: blocks_distinct_def mq.keys_unique_def)

text \<open>When the registers of a queue hold different blocks, the release of an idle register
  makes its block unknown to the queue, and the registers still hold different blocks.\<close>

theorem release_then_absent:
  assumes "q_inv q" and "blocks_distinct q" and "i \<in> set (allocatedList q)" and "pool_idle q i"
    and "deallocateOne q i = Inr q'" and "\<not> isUncacheable (reg q i)"
  shows "findMatch q' (blkAddr (reg q i)) (isSecure (reg q i)) = None \<and> blocks_distinct q'"
  using mq.search_after_release [OF assms(1) assms(2) [unfolded blocks_distinct_iff] assms(3-5)]
    mq.keys_unique_release [OF assms(1) assms(2) [unfolded blocks_distinct_iff] assms(3-5)] assms(6)
  by (simp add: reg_key_def search_key_def blocks_distinct_iff)

text \<open>C33: insertion into the ready list, which first looks at its last element and otherwise
  searches for the first later one, is stable insertion by ready time; it never fails on a
  sorted list and keeps it sorted.\<close>

theorem ready_insert_stable:
  assumes "ready_sorted q"
  shows "\<exists>q'. addToReadyList q i = Inr q' \<and> ready_sorted q' \<and>
           readyList q' = insert_stable (\<lambda>j. readyTime (reg q j)) i (readyList q)"
  using addToReadyList_stable [OF assms] addToReadyList_sorted [OF assms] by simp

subsection \<open>The properties at concrete queues\<close>

definition one_reg :: mshr_queue where
  "one_reg = MSHRQueue_init 2 1 0 0"

lemma one_reg_inv: "q_inv one_reg" "freeList one_reg \<noteq> []" "allocatedList one_reg = []" "ready_sorted one_reg"
  unfolding one_reg_def by (simp_all add: q_inv_init) (simp_all add: MSHRQueue_init_def Let_def)

definition read64 :: packet where
  "read64 = new_packet 0 (setPhys 64 64 (Some 0)) ReadReq"

lemma one_reg_alloc:
  obtains q i where "q_allocate 3 one_reg 64 64 read64 5 0 = Inr (q, i)" "q_inv q" "allocatedList q = [i]"
    "reg_key q i = Some (64, False)" "tgts (targets (popTarget (reg q i))) = []" "deferredTargets (reg q i) = empty_targets"
proof -
  obtain q i where q: "q_allocate 3 one_reg 64 64 read64 5 0 = Inr (q, i)"
    using q_allocate_succeeds [OF one_reg_inv(1,2)] by blast
  have k: "q_inv q" "allocatedList q = [i]" "reg_key q i = Some (64, False)"
    using mq.alloc_law [OF one_reg_inv(1), of "(3, 64, 64, read64, 5, 0)" q i] q
    by (simp_all add: one_reg_inv(3)) (simp_all add: read64_def packet_simps)
  note r = q_allocate_reg(4,5) [OF one_reg_inv(1) q]
  have "reg one_reg i = MSHR_init" using r(2) by (simp add: one_reg_def MSHRQueue_init_def Let_def)
  then obtain msgs where "mshr_allocate 3 MSHR_init 64 64 read64 5 0 = Inr (reg q i, msgs)" using r(1) by auto
  moreover have "tgts (targets (popTarget m)) = [] \<and> deferredTargets m = empty_targets"
    if "mshr_allocate 3 MSHR_init 64 64 read64 5 0 = Inr (m, ms)" for m ms
    using that by (auto simp: mshr_allocate_def MSHR_init_def empty_targets_def isReset_def tl_add_def Let_def popTarget_def
        read64_def packet_simps)
  ultimately have "tgts (targets (popTarget (reg q i))) = [] \<and> deferredTargets (reg q i) = empty_targets" by blast
  with q k that show ?thesis by blast
qed

theorem queue_reachable_inv_witness:
  "\<exists>q i. q_step\<^sup>*\<^sup>* (MSHRQueue_init 2 1 0 0) q \<and> allocatedList q = [i] \<and> q_inv q \<and>
     int (length (freeList q)) = numEntries q - allocated q"
proof -
  obtain q i where q: "q_allocate 3 one_reg 64 64 read64 5 0 = Inr (q, i)" "allocatedList q = [i]"
    by (rule one_reg_alloc)
  have s: "q_step\<^sup>*\<^sup>* (MSHRQueue_init 2 1 0 0) q"
    using q_step.step_allocate [OF q(1)] by (simp add: one_reg_def r_into_rtranclp)
  show ?thesis using queue_reachable_inv [OF _ s] s q(2) by auto
qed


theorem ready_insert_stable_witness:
  "\<exists>q'. addToReadyList one_reg 1 = Inr q' \<and> readyList q' = [1]"
proof -
  have "readyList one_reg = []" by (simp add: one_reg_def MSHRQueue_init_def Let_def)
  then show ?thesis using ready_insert_stable [OF one_reg_inv(4), of 1] by (auto simp: insert_stable_def)
qed

end
