(* ===== verification/DRAM_Ctrl.thy ===== *)
theory DRAM_Ctrl
  imports DRAM_Sched DRAM_Refresh Abstract_Mem MSHR_Queue
begin

text \<open>
  The DRAM controller of \<^verbatim>\<open>src/gem5/src/mem/dram_ctrl.cc\<close>: its queues, address decoding,
  the handlers for requests, for the next burst and for responses, and draining. Messages
  that leave the controller (responses, retries, the end of a drain) are appended to
  \<open>outputs\<close>. The counter that the bursts of one request share, \<^verbatim>\<open>BurstHelper\<close>, is an object
  on the heap: \<open>helpers\<close> maps its address to the pair of its counters.
\<close>

unbundle bit_operations_syntax

section \<open>State\<close>

datatype bus_state = READ | READ_TO_WRITE | WRITE | WRITE_TO_READ

datatype ctrl_output = RespOut packet tick | RetryReq | DrainDone | MemReq packet

record dram_ctrl =
  readQueue :: "dram_packet list"
  writeQueue :: "dram_packet list"
  isInWriteQueue :: "addr set"
  respQueue :: "dram_packet list"
  ranks :: "rank list"
  busState :: bus_state
  nextReqEvent :: event
  respondEvent :: event
  retryRdReq :: bool
  retryWrReq :: bool
  busBusyUntil :: tick
  nextReqTime :: tick
  prevArrival :: tick
  activeRank :: nat
  timeStampOffset :: tick
  writesThisTime :: nat
  readsThisTime :: nat
  helpers :: "nat \<Rightarrow> (nat \<times> nat) option"
  nextHelper :: nat
  pendingDelete :: "packet list"
  drainState :: drain_state
  isTimingMode :: bool
  mem :: memory
  outputs :: "ctrl_output list"

definition DRAMCtrl_init :: "dram_params \<Rightarrow> nat \<Rightarrow> memory \<Rightarrow> dram_ctrl" where
  "DRAMCtrl_init p groups m =
     \<lparr>readQueue = [], writeQueue = [], isInWriteQueue = {}, respQueue = [],
      ranks = map (Rank_init p groups) [0 ..< ranksPerChannel p], busState = READ,
      nextReqEvent = None, respondEvent = None, retryRdReq = False, retryWrReq = False,
      busBusyUntil = 0, nextReqTime = 0, prevArrival = 0, activeRank = 0, timeStampOffset = 0,
      writesThisTime = 0, readsThisTime = 0, helpers = (\<lambda>_. None), nextHelper = 0,
      pendingDelete = [], drainState = Running, isTimingMode = False, mem = m, outputs = []\<rparr>"

definition emit :: "ctrl_output \<Rightarrow> 'a dram_ctrl_scheme \<Rightarrow> 'a dram_ctrl_scheme" where
  "emit o' c = c\<lparr>outputs := outputs c @ [o']\<rparr>"

section \<open>Address decoding and queue space\<close>

definition burstAlign :: "dram_params \<Rightarrow> addr \<Rightarrow> addr" where
  "burstAlign p a = a AND NOT (word_of_nat (burstSize p) - 1)"

definition readQueueFull :: "dram_params \<Rightarrow> 'a dram_ctrl_scheme \<Rightarrow> nat \<Rightarrow> bool" where
  "readQueueFull p c neededEntries \<longleftrightarrow>
     length (readQueue c) + length (respQueue c) + neededEntries > readBufferSize p"

definition writeQueueFull :: "dram_params \<Rightarrow> 'a dram_ctrl_scheme \<Rightarrow> nat \<Rightarrow> bool" where
  "writeQueueFull p c neededEntries \<longleftrightarrow> length (writeQueue c) + neededEntries > writeBufferSize p"

text \<open>The rank, bank and row of a burst number under the three address mappings.\<close>

definition split_bank :: "dram_params \<Rightarrow> nat \<Rightarrow> nat \<times> nat \<times> nat" where
  "split_bank p a =
     (let bank = a mod banksPerRank p;
          a1 = a div banksPerRank p;
          rank = a1 mod ranksPerChannel p;
          a2 = a1 div ranksPerChannel p
      in (rank, bank, a2))"

definition map_addr :: "dram_params \<Rightarrow> nat \<Rightarrow> nat \<times> nat \<times> nat" where
  "map_addr p a =
     (case addrMapping p of
        RoRaBaChCo \<Rightarrow>
          (let (rank, bank, a') = split_bank p (a div columnsPerRowBuffer p div channels p)
           in (rank, bank, a' mod rowsPerBank p))
      | RoRaBaCoCh \<Rightarrow>
          (let (rank, bank, a') = split_bank p (a div columnsPerStripe p div channels p
                                                div (columnsPerRowBuffer p div columnsPerStripe p))
           in (rank, bank, a' mod rowsPerBank p))
      | RoCoRaBaCh \<Rightarrow>
          (let (rank, bank, a') = split_bank p (a div columnsPerStripe p div channels p)
           in (rank, bank, a' div (columnsPerRowBuffer p div columnsPerStripe p) mod rowsPerBank p)))"

text \<open>
  The checks on the decoded coordinates and the new packet, shared by the two
  \<^verbatim>\<open>decodeAddr\<close>; rank and bank are 8-bit values and the bank id is a 16-bit value.
\<close>

definition has_context :: "packet \<Rightarrow> 'a res \<Rightarrow> 'a res" where
  "has_context pkt k = assertE ''pkt->req->hasContextId()'' (req_context (req pkt) \<noteq> None) k"

definition make_dram_packet ::
  "dram_params \<Rightarrow> tick \<Rightarrow> packet \<Rightarrow> addr \<Rightarrow> nat \<Rightarrow> bool \<Rightarrow> nat \<times> nat \<times> nat \<Rightarrow> dram_packet res" where
  "make_dram_packet p now pkt dramPktAddr size' isRd coords =
     (let (rank0, bank0, row) = coords; rank = rank0 mod 256; bank = bank0 mod 256 in
      assertE ''rank < ranksPerChannel'' (rank < ranksPerChannel p)
      (assertE ''bank < banksPerRank'' (bank < banksPerRank p)
      (assertE ''row < rowsPerBank'' (row < rowsPerBank p)
      (assertE ''row < Bank::NO_ROW'' (row < unat NO_ROW)
      (has_context pkt
        (Inr \<lparr>entryTime = now, dp_readyTime = now, dp_pkt = pkt, requestAddr = 0, dp_isRead = isRd,
              isFill = False, contextId = int (the (req_context (req pkt))), dp_rank = rank, dp_bank = bank,
              dp_row = word_of_nat row, bankId = (banksPerRank p * rank + bank) mod 2 ^ 16,
              dp_addr = dramPktAddr, dp_size = size', burstHelper = None\<rparr>))))))"

definition decodeAddr ::
  "dram_params \<Rightarrow> tick \<Rightarrow> packet \<Rightarrow> addr \<Rightarrow> nat \<Rightarrow> bool \<Rightarrow> dram_packet res" where
  "decodeAddr p now pkt dramPktAddr size' isRd =
     make_dram_packet p now pkt dramPktAddr size' isRd (map_addr p (unat dramPktAddr div burstSize p))"

section \<open>Responses\<close>

definition accessAndRespond ::
  "tick \<Rightarrow> 'a dram_ctrl_scheme \<Rightarrow> packet \<Rightarrow> tick \<Rightarrow> 'a dram_ctrl_scheme res" where
  "accessAndRespond now c pkt static_latency =
     (let needs = needsResponse pkt in
      bindE (access (mem c) pkt) (\<lambda>(m, pkt1).
      let c1 = c\<lparr>mem := m\<rparr> in
      if needs then
        assertE ''pkt->isResponse()'' (isResponse pkt1)
          (Inr (emit (RespOut (pkt1\<lparr>headerDelay := 0, payloadDelay := 0\<rparr>)
                       (now + static_latency + headerDelay pkt1 + payloadDelay pkt1)) c1))
      else Inr (c1\<lparr>pendingDelete := pendingDelete c1 @ [pkt1]\<rparr>)))"

definition sched_nextReq :: "tick \<Rightarrow> tick \<Rightarrow> 'a dram_ctrl_scheme \<Rightarrow> 'a dram_ctrl_scheme res" where
  "sched_nextReq now t c =
     (if scheduled (nextReqEvent c) then Inr c
      else bindE (ev_schedule now (nextReqEvent c) t) (\<lambda>e. Inr (c\<lparr>nextReqEvent := e\<rparr>)))"

section \<open>Requests\<close>

definition burst_end :: "dram_params \<Rightarrow> addr \<Rightarrow> addr" where
  "burst_end p a = (a OR (word_of_nat (burstSize p) - 1)) + 1"

definition burst_size_at :: "dram_params \<Rightarrow> packet \<Rightarrow> addr \<Rightarrow> nat" where
  "burst_size_at p pkt a =
     unat (min (burst_end p a) (pkt_addr pkt + word_of_nat (pkt_size pkt)) - a) mod 2 ^ 32"

definition subsumed_by :: "addr \<Rightarrow> nat \<Rightarrow> dram_packet \<Rightarrow> bool" where
  "subsumed_by a n dp \<longleftrightarrow>
     dp_addr dp \<le> a \<and> a + word_of_nat n \<le> dp_addr dp + word_of_nat (dp_size dp)"

definition found_in_wrq :: "dram_params \<Rightarrow> 'a dram_ctrl_scheme \<Rightarrow> addr \<Rightarrow> nat \<Rightarrow> bool" where
  "found_in_wrq p c a n \<longleftrightarrow>
     burstAlign p a \<in> isInWriteQueue c \<and> list_ex (subsumed_by a n) (writeQueue c)"

text \<open>The loop over the bursts of a read: the state, the bursts found in the write queue, the helper if made.\<close>

fun read_bursts ::
  "dram_params \<Rightarrow> tick \<Rightarrow> packet \<Rightarrow> nat \<Rightarrow> nat \<Rightarrow> addr \<Rightarrow> nat \<Rightarrow> nat option \<Rightarrow> 'a dram_ctrl_scheme \<Rightarrow>
     ('a dram_ctrl_scheme \<times> nat \<times> nat option) res" where
  "read_bursts p now pkt pktCount 0 a served h c = Inr (c, served, h)"
| "read_bursts p now pkt pktCount (Suc n) a served h c =
     (let sz = burst_size_at p pkt a in
      if found_in_wrq p c a sz then
        read_bursts p now pkt pktCount n (burst_end p a) (served + 1) h c
      else
        let (h1, c1) = (if pktCount > 1 \<and> h = None
                        then (Some (nextHelper c),
                              c\<lparr>helpers := (helpers c)(nextHelper c \<mapsto> (pktCount, 0)),
                                nextHelper := nextHelper c + 1\<rparr>)
                        else (h, c))
        in has_context pkt (bindE (decodeAddr p now pkt a sz True) (\<lambda>dp.
           assertE ''!readQueueFull(1)'' (\<not> readQueueFull p c1 1)
             (read_bursts p now pkt pktCount n (burst_end p a) served h1
               (c1\<lparr>readQueue := readQueue c1 @ [dp\<lparr>burstHelper := h1\<rparr>]\<rparr>)))))"

definition addToReadQueue ::
  "dram_params \<Rightarrow> tick \<Rightarrow> 'a dram_ctrl_scheme \<Rightarrow> packet \<Rightarrow> nat \<Rightarrow> 'a dram_ctrl_scheme res" where
  "addToReadQueue p now c pkt pktCount =
     assertE ''!pkt->isWrite()'' (\<not> isWrite pkt)
     (assertE ''pktCount != 0'' (pktCount \<noteq> 0)
     (bindE (read_bursts p now pkt pktCount pktCount (pkt_addr pkt) 0 None c) (\<lambda>(c1, served, h).
      if served = pktCount then accessAndRespond now c1 pkt (frontendLatency p)
      else
        let c2 = (case h of None \<Rightarrow> c1
                  | Some i \<Rightarrow> c1\<lparr>helpers := (helpers c1)(i := map_option (\<lambda>(n, _). (n, served)) (helpers c1 i))\<rparr>)
        in sched_nextReq now now c2)))"

fun write_bursts ::
  "dram_params \<Rightarrow> tick \<Rightarrow> packet \<Rightarrow> nat \<Rightarrow> addr \<Rightarrow> 'a dram_ctrl_scheme \<Rightarrow> 'a dram_ctrl_scheme res" where
  "write_bursts p now pkt 0 a c = Inr c"
| "write_bursts p now pkt (Suc n) a c =
     (let sz = burst_size_at p pkt a in
      if burstAlign p a \<in> isInWriteQueue c then write_bursts p now pkt n (burst_end p a) c
      else
        has_context pkt (bindE (decodeAddr p now pkt a sz False) (\<lambda>dp.
        assertE ''writeQueue.size() < writeBufferSize'' (length (writeQueue c) < writeBufferSize p)
        (let c1 = c\<lparr>writeQueue := writeQueue c @ [dp],
                    isInWriteQueue := insert (burstAlign p a) (isInWriteQueue c)\<rparr>
         in assertE ''writeQueue.size() == isInWriteQueue.size()''
              (length (writeQueue c1) = card (isInWriteQueue c1))
              (write_bursts p now pkt n (burst_end p a) c1)))))"

definition addToWriteQueue ::
  "dram_params \<Rightarrow> tick \<Rightarrow> 'a dram_ctrl_scheme \<Rightarrow> packet \<Rightarrow> nat \<Rightarrow> 'a dram_ctrl_scheme res" where
  "addToWriteQueue p now c pkt pktCount =
     assertE ''pkt->isWrite()'' (isWrite pkt)
     (bindE (write_bursts p now pkt pktCount (pkt_addr pkt) c) (\<lambda>c1.
      bindE (accessAndRespond now c1 pkt (frontendLatency p)) (sched_nextReq now now)))"

definition dram_pkt_count :: "dram_params \<Rightarrow> packet \<Rightarrow> nat" where
  "dram_pkt_count p pkt =
     divCeil (unat (pkt_addr pkt AND (word_of_nat (burstSize p) - 1)) + pkt_size pkt) (burstSize p)"

definition recvTimingReq ::
  "dram_params \<Rightarrow> tick \<Rightarrow> 'a dram_ctrl_scheme \<Rightarrow> packet \<Rightarrow> ('a dram_ctrl_scheme \<times> bool) res" where
  "recvTimingReq p now c0 pkt =
     (let c = c0\<lparr>pendingDelete := []\<rparr> in
      if flag_memInhibit pkt \<or> cmd pkt = CleanEvict then
        Inr (c\<lparr>pendingDelete := [pkt]\<rparr>, True)
      else
        let c1 = c\<lparr>prevArrival := now\<rparr>; n = dram_pkt_count p pkt in
        if isRead pkt then
          assertE ''size != 0'' (pkt_size pkt \<noteq> 0)
          (if readQueueFull p c1 n then Inr (c1\<lparr>retryRdReq := True\<rparr>, False)
           else bindE (addToReadQueue p now c1 pkt n) (\<lambda>c2. Inr (c2, True)))
        else if isWrite pkt then
          assertE ''size != 0'' (pkt_size pkt \<noteq> 0)
          (if writeQueueFull p c1 n then Inr (c1\<lparr>retryWrReq := True\<rparr>, False)
           else bindE (addToWriteQueue p now c1 pkt n) (\<lambda>c2. Inr (c2, True)))
        else bindE (accessAndRespond now c1 pkt 1) (\<lambda>c2. Inr (c2, True)))"

definition recvAtomic :: "dram_params \<Rightarrow> 'a dram_ctrl_scheme \<Rightarrow> packet \<Rightarrow> ('a dram_ctrl_scheme \<times> packet \<times> tick) res" where
  "recvAtomic p c pkt =
     bindE (access (mem c) pkt) (\<lambda>(m, pkt1).
       Inr (c\<lparr>mem := m\<rparr>, pkt1,
            if \<not> flag_memInhibit pkt1 \<and> hasData pkt1 then tRP p + tRCD p + tCL p else 0))"

section \<open>The next burst\<close>

definition burst_of :: "'a dram_ctrl_scheme \<Rightarrow> burst_state" where
  "burst_of c = \<lparr>bs_ranks = ranks c, bs_busBusyUntil = busBusyUntil c, bs_activeRank = activeRank c\<rparr>"

definition env_of :: "tick \<Rightarrow> 'a dram_ctrl_scheme \<Rightarrow> sched_env" where
  "env_of now c = \<lparr>se_now = now, se_ranks = ranks c, se_busBusyUntil = busBusyUntil c\<rparr>"

definition do_access ::
  "dram_params \<Rightarrow> tick \<Rightarrow> dram_packet list \<Rightarrow> dram_packet \<Rightarrow> 'a dram_ctrl_scheme \<Rightarrow>
     ('a dram_ctrl_scheme \<times> dram_packet) res" where
  "do_access p now queue dp c =
     bindE (burst_access p now (timeStampOffset c) queue dp (burst_of c)) (\<lambda>(st, dp', cmd_at).
       let c1 = c\<lparr>ranks := bs_ranks st, busBusyUntil := bs_busBusyUntil st, activeRank := bs_activeRank st,
                  nextReqTime := tsub (bs_busBusyUntil st) (tRP p + tRCD p + tCL p)\<rparr>
       in Inr (if dp_isRead dp then c1\<lparr>readsThisTime := readsThisTime c1 + 1\<rparr>
               else c1\<lparr>writesThisTime := writesThisTime c1 + 1\<rparr>, dp'))"

definition doDRAMAccess ::
  "dram_params \<Rightarrow> tick \<Rightarrow> dram_packet \<Rightarrow> 'a dram_ctrl_scheme \<Rightarrow> ('a dram_ctrl_scheme \<times> dram_packet) res" where
  "doDRAMAccess p now dp c = do_access p now (if dp_isRead dp then readQueue c else writeQueue c) dp c"

fun check_ranks :: "tick \<Rightarrow> rank list \<Rightarrow> rank list res" where
  "check_ranks now [] = Inr []"
| "check_ranks now (rk # rks) =
     bindE (if isAvailable rk then Inr rk else checkDrainDone now rk) (\<lambda>rk'.
     bindE (check_ranks now rks) (\<lambda>rks'. Inr (rk' # rks')))"

definition push_resp :: "tick \<Rightarrow> dram_packet \<Rightarrow> 'a dram_ctrl_scheme \<Rightarrow> 'a dram_ctrl_scheme res" where
  "push_resp now dp c =
     bindE (if respQueue c = [] then
              assertE ''!respondEvent.scheduled()'' (\<not> scheduled (respondEvent c))
                (ev_schedule now (respondEvent c) (dp_readyTime dp))
            else
              assertE ''respQueue.back()->readyTime <= dram_pkt->readyTime''
                (dp_readyTime (last (respQueue c)) \<le> dp_readyTime dp)
              (assertE ''respondEvent.scheduled()'' (scheduled (respondEvent c)) (Inr (respondEvent c))))
       (\<lambda>e. Inr (c\<lparr>respondEvent := e, respQueue := respQueue c @ [dp]\<rparr>))"

text \<open>The packet that was moved to the front of its queue is served.\<close>

definition serve_read :: "dram_params \<Rightarrow> tick \<Rightarrow> bool \<Rightarrow> 'a dram_ctrl_scheme \<Rightarrow> 'a dram_ctrl_scheme res" where
  "serve_read p now switched c1 =
     (let dp = hd (readQueue c1) in
      assertE ''dram_pkt->rankRef.isAvailable()'' (pkt_avail (env_of now c1) dp)
      (let c2 = (if switched \<and> dp_rank dp = activeRank c1
                 then c1\<lparr>busBusyUntil := busBusyUntil c1 + (tWTR p + tCL p)\<rparr> else c1) in
       bindE (doDRAMAccess p now dp c2) (\<lambda>(c3, dp').
       let c4 = c3\<lparr>readQueue := tl (readQueue c3)\<rparr> in
       assertE ''dram_pkt->size <= burstSize'' (dp_size dp' \<le> burstSize p)
       (assertE ''dram_pkt->readyTime >= curTick()'' (dp_readyTime dp' \<ge> now)
       (bindE (push_resp now dp' c4) (\<lambda>c5.
        Inr (if length (writeQueue c5) > writeHighThreshold p then c5\<lparr>busState := READ_TO_WRITE\<rparr> else c5)))))))"

definition serve_write :: "dram_params \<Rightarrow> tick \<Rightarrow> bool \<Rightarrow> 'a dram_ctrl_scheme \<Rightarrow> 'a dram_ctrl_scheme res" where
  "serve_write p now switched c1 =
     (let dp = hd (writeQueue c1) in
      assertE ''dram_pkt->rankRef.isAvailable()'' (pkt_avail (env_of now c1) dp)
      (assertE ''dram_pkt->size <= burstSize'' (dp_size dp \<le> burstSize p)
      (let c2 = (if switched \<and> dp_rank dp = activeRank c1
                 then c1\<lparr>busBusyUntil := busBusyUntil c1 + tRTW p\<rparr> else c1) in
       bindE (doDRAMAccess p now dp c2) (\<lambda>(c3, dp').
       let c4 = c3\<lparr>writeQueue := tl (writeQueue c3),
                   isInWriteQueue := isInWriteQueue c3 - {burstAlign p (dp_addr dp)}\<rparr> in
       Inr (if writeQueue c4 = [] \<or>
               (length (writeQueue c4) + minWritesPerSwitch p < writeLowThreshold p \<and>
                drainState c4 \<noteq> Draining) \<or>
               (readQueue c4 \<noteq> [] \<and> writesThisTime c4 \<ge> minWritesPerSwitch p)
            then c4\<lparr>busState := WRITE_TO_READ\<rparr> else c4)))))"

text \<open>The boolean says whether the handler goes on to schedule the next request.\<close>

definition next_read ::
  "dram_params \<Rightarrow> tick \<Rightarrow> bool \<Rightarrow> 'a dram_ctrl_scheme \<Rightarrow> ('a dram_ctrl_scheme \<times> bool) res" where
  "next_read p now switched c =
     (if readQueue c = [] then
        if writeQueue c \<noteq> [] \<and> (drainState c = Draining \<or> length (writeQueue c) > writeLowThreshold p)
        then Inr (c\<lparr>busState := READ_TO_WRITE\<rparr>, True)
        else Inr (if drainState c = Draining \<and> respQueue c = [] then emit DrainDone c else c, False)
      else
        bindE (chooseNext p (env_of now c) (readQueue c) (if switched then tCS p else 0)) (\<lambda>(q, found_read).
        let c1 = c\<lparr>readQueue := q\<rparr> in
        if \<not> found_read then Inr (c1, False)
        else bindE (serve_read p now switched c1) (\<lambda>c2. Inr (c2, True))))"

definition next_write ::
  "dram_params \<Rightarrow> tick \<Rightarrow> bool \<Rightarrow> 'a dram_ctrl_scheme \<Rightarrow> ('a dram_ctrl_scheme \<times> bool) res" where
  "next_write p now switched c =
     bindE (chooseNext p (env_of now c) (writeQueue c) (if switched then min (tRTW p) (tCS p) else 0))
       (\<lambda>(q, found_write).
        let c1 = c\<lparr>writeQueue := q\<rparr> in
        if \<not> found_write then Inr (c1, False)
        else bindE (serve_write p now switched c1) (\<lambda>c2. Inr (c2, True)))"

definition switch_bus :: "'a dram_ctrl_scheme \<Rightarrow> 'a dram_ctrl_scheme \<times> bool" where
  "switch_bus c =
     (case busState c of
        READ_TO_WRITE \<Rightarrow> (c\<lparr>readsThisTime := 0, busState := WRITE\<rparr>, True)
      | WRITE_TO_READ \<Rightarrow> (c\<lparr>writesThisTime := 0, busState := READ\<rparr>, True)
      | _ \<Rightarrow> (c, False))"

definition processNextReqEvent :: "dram_params \<Rightarrow> tick \<Rightarrow> 'a dram_ctrl_scheme \<Rightarrow> 'a dram_ctrl_scheme res" where
  "processNextReqEvent p now c0 =
     (let c = c0\<lparr>nextReqEvent := None\<rparr> in
      bindE (check_ranks now (ranks c)) (\<lambda>rs.
      let c1 = c\<lparr>ranks := rs\<rparr> in
      if count_if (\<lambda>rk. \<not> isAvailable rk) (ranks c) = ranksPerChannel p then Inr c1
      else
        let (c2, switched) = switch_bus c1 in
        bindE (if busState c2 = READ then next_read p now switched c2 else next_write p now switched c2)
          (\<lambda>(c3, go).
        if \<not> go then Inr c3
        else
          bindE (sched_nextReq now (max (nextReqTime c3) now) c3) (\<lambda>c4.
          Inr (if retryWrReq c4 \<and> length (writeQueue c4) < writeBufferSize p
               then emit RetryReq (c4\<lparr>retryWrReq := False\<rparr>) else c4)))))"

text \<open>The response to the request of the burst at the front, when this burst is its last one.\<close>

definition finish_burst ::
  "dram_params \<Rightarrow> tick \<Rightarrow> dram_packet \<Rightarrow> 'a dram_ctrl_scheme \<Rightarrow> 'a dram_ctrl_scheme res" where
  "finish_burst p now dp c =
     (case burstHelper dp of
        None \<Rightarrow> accessAndRespond now c (dp_pkt dp) (frontendLatency p + backendLatency p)
      | Some h \<Rightarrow>
          (case helpers c h of
             None \<Rightarrow> Inl (Undefined ''burstHelper'')
           | Some (n, k) \<Rightarrow>
               if k + 1 = n then
                 bindE (accessAndRespond now c (dp_pkt dp) (frontendLatency p + backendLatency p)) (\<lambda>c'.
                   Inr (c'\<lparr>helpers := (helpers c')(h := None)\<rparr>))
               else Inr (c\<lparr>helpers := (helpers c)(h \<mapsto> (n, k + 1))\<rparr>)))"

definition processRespondEvent :: "dram_params \<Rightarrow> tick \<Rightarrow> 'a dram_ctrl_scheme \<Rightarrow> 'a dram_ctrl_scheme res" where
  "processRespondEvent p now c0 =
     (let c = c0\<lparr>respondEvent := None\<rparr> in
      case respQueue c of
        [] \<Rightarrow> Inl (Undefined ''respQueue.front()'')
      | dp # rest \<Rightarrow>
          bindE (finish_burst p now dp c) (\<lambda>c1.
          let c2 = c1\<lparr>respQueue := rest\<rparr> in
          bindE
            (case rest of
               [] \<Rightarrow> Inr (if drainState c2 = Draining \<and> writeQueue c2 = [] \<and> readQueue c2 = []
                          then emit DrainDone c2 else c2)
             | dp' # _ \<Rightarrow>
                 assertE ''respQueue.front()->readyTime >= curTick()'' (dp_readyTime dp' \<ge> now)
                 (assertE ''!respondEvent.scheduled()'' (\<not> scheduled (respondEvent c2))
                 (bindE (ev_schedule now (respondEvent c2) (dp_readyTime dp')) (\<lambda>e.
                   Inr (c2\<lparr>respondEvent := e\<rparr>)))))
            (\<lambda>c3. Inr (if retryRdReq c3 then emit RetryReq (c3\<lparr>retryRdReq := False\<rparr>) else c3))))"

section \<open>Starting and draining\<close>

fun startup_ranks :: "tick \<Rightarrow> tick \<Rightarrow> rank list \<Rightarrow> rank list res" where
  "startup_ranks now t [] = Inr []"
| "startup_ranks now t (rk # rks) =
     bindE (rank_startup now rk t) (\<lambda>rk'. bindE (startup_ranks now t rks) (\<lambda>rks'. Inr (rk' # rks')))"

definition startup :: "dram_params \<Rightarrow> tick \<Rightarrow> bool \<Rightarrow> 'a dram_ctrl_scheme \<Rightarrow> 'a dram_ctrl_scheme res" where
  "startup p now timing c =
     (let c1 = c\<lparr>isTimingMode := timing\<rparr> in
      if timing then
        bindE (startup_ranks now (tsub (now + tREFI p) (tRP p)) (ranks c1)) (\<lambda>rs.
          Inr (c1\<lparr>timeStampOffset := divCeil now (tCK p), ranks := rs,
                  busBusyUntil := now + tRP p + tRCD p + tCL p\<rparr>))
      else Inr c1)"

fun suspend_ranks :: "rank list \<Rightarrow> rank list res" where
  "suspend_ranks [] = Inr []"
| "suspend_ranks (rk # rks) =
     bindE (rank_suspend rk) (\<lambda>rk'. bindE (suspend_ranks rks) (\<lambda>rks'. Inr (rk' # rks')))"

definition drainResume :: "dram_params \<Rightarrow> tick \<Rightarrow> bool \<Rightarrow> 'a dram_ctrl_scheme \<Rightarrow> 'a dram_ctrl_scheme res" where
  "drainResume p now timing c =
     bindE (if \<not> isTimingMode c \<and> timing then startup p now timing c
            else if isTimingMode c \<and> \<not> timing then
              bindE (suspend_ranks (ranks c)) (\<lambda>rs. Inr (c\<lparr>ranks := rs\<rparr>))
            else Inr c) (\<lambda>c1. Inr (c1\<lparr>isTimingMode := timing\<rparr>))"

definition drain :: "tick \<Rightarrow> 'a dram_ctrl_scheme \<Rightarrow> ('a dram_ctrl_scheme \<times> drain_state) res" where
  "drain now c =
     (if \<not> (writeQueue c = [] \<and> readQueue c = [] \<and> respQueue c = []) then
        bindE (if writeQueue c \<noteq> [] \<and> \<not> scheduled (nextReqEvent c)
               then sched_nextReq now now c else Inr c) (\<lambda>c1. Inr (c1, Draining))
      else Inr (c, Drained))"

text \<open>The events of the ranks, inside the controller.\<close>

definition powerEvent_at :: "dram_params \<Rightarrow> tick \<Rightarrow> nat \<Rightarrow> 'a dram_ctrl_scheme \<Rightarrow> 'a dram_ctrl_scheme res" where
  "powerEvent_at p now r c =
     bindE (processPowerEvent p now (timeStampOffset c) (activeRank c) (scheduled (nextReqEvent c)) (ranks c ! r))
       (\<lambda>(rk, kick).
         let c1 = c\<lparr>ranks := (ranks c)[r := rk]\<rparr> in if kick then sched_nextReq now now c1 else Inr c1)"

definition refreshEvent_at :: "dram_params \<Rightarrow> tick \<Rightarrow> nat \<Rightarrow> 'a dram_ctrl_scheme \<Rightarrow> 'a dram_ctrl_scheme res" where
  "refreshEvent_at p now r c =
     bindE (fireRefreshEvent p now (timeStampOffset c) (activeRank c) (scheduled (nextReqEvent c)) (ranks c ! r))
       (\<lambda>rk. Inr (c\<lparr>ranks := (ranks c)[r := rk]\<rparr>))"

section \<open>What a burst leaves of a rank\<close>

definition rank_ctl :: "rank \<Rightarrow> refresh_state \<times> event \<times> power_state \<times> power_state \<times> event" where
  "rank_ctl rk = (refreshState rk, refreshEvent rk, pwrState rk, pwrStateTrans rk, powerEvent rk)"

lemma rank_ctl_upd [simp]:
  "rank_ctl (upd_bank b f rk) = rank_ctl rk" "rank_ctl (power_cmd p off x b t rk) = rank_ctl rk"
  "rank_ctl (push_col p dp gr t j rk) = rank_ctl rk" "rank_ctl (rk\<lparr>banks := bs\<rparr>) = rank_ctl rk"
  "rank_ctl (rk\<lparr>numBanksActive := n\<rparr>) = rank_ctl rk" "rank_ctl (rk\<lparr>actTicks := ts\<rparr>) = rank_ctl rk"
  "rank_ctl (rk\<lparr>activateEvent := e\<rparr>) = rank_ctl rk" "rank_ctl (rk\<lparr>prechargeEvent := e\<rparr>) = rank_ctl rk"
  by (simp_all add: rank_ctl_def upd_bank_def power_cmd_def push_col_def)

lemma activateBank_ctl: "activateBank p now off rk b t row = Inr rk' \<Longrightarrow> rank_ctl rk' = rank_ctl rk"
  by (auto simp: activateBank_def enforce_tXAW_def Let_def res_simps split: if_splits)

lemma prechargeBank_ctl: "prechargeBank p now off rk b t tr = Inr rk' \<Longrightarrow> rank_ctl rk' = rank_ctl rk"
  by (auto simp: prechargeBank_def Let_def res_simps split: if_splits)

lemma open_row_ctl: "open_row p now off rk dp = Inr (rk', col) \<Longrightarrow> rank_ctl rk' = rank_ctl rk"
  by (auto simp: open_row_def Let_def res_simps split: if_splits dest!: activateBank_ctl prechargeBank_ctl)

lemma map_enumerate_snd: "map (\<lambda>x. f (snd x)) (enumerate n xs) = map f xs"
  by (induction xs arbitrary: n) auto

lemma burst_access_ctl:
  assumes "burst_access p now off queue dp st = Inr (st', dp', t)"
    and r: "dp_rank dp < length (bs_ranks st)"
  shows "map rank_ctl (bs_ranks st') = map rank_ctl (bs_ranks st)"
proof -
  obtain rk col where o: "open_row p now off (bs_ranks st ! dp_rank dp) dp = Inr (rk, col)"
    using assms(1) by (auto simp: burst_access_def Let_def res_simps)
  define R where "R gr t = map (\<lambda>(j, rk). push_col p dp gr t j rk)
    (enumerate 0 ((bs_ranks st)[dp_rank dp := rk]))" for gr t
  have ctl: "map rank_ctl (R gr t) = map rank_ctl (bs_ranks st)" for gr t
    using open_row_ctl [OF o] r
    by (simp add: R_def comp_def case_prod_beta map_enumerate_snd map_update list_update_same_conv)
  then have nth: "rank_ctl (R gr t ! dp_rank dp) = rank_ctl (bs_ranks st ! dp_rank dp)" for gr t
    using r by (metis (no_types, lifting) length_map nth_map)
  show ?thesis
    using assms(1) r unfolding burst_access_def Let_def o bindE_simps prod.case R_def [symmetric]
    by (auto simp: res_simps map_update ctl nth list_update_same_conv split: if_splits dest!: prechargeBank_ctl)
qed

section \<open>The controller invariant\<close>

text \<open>
  The response queue is in the order of its ready times, none later than the end of the
  last burst on the bus, and the respond event is scheduled exactly for its front.
\<close>

definition front_event :: "dram_packet list \<Rightarrow> event" where
  "front_event q = (case q of [] \<Rightarrow> None | dp # _ \<Rightarrow> Some (dp_readyTime dp))"

definition resp_inv :: "'a dram_ctrl_scheme \<Rightarrow> bool" where
  "resp_inv c \<longleftrightarrow>
     sorted (map dp_readyTime (respQueue c)) \<and> (\<forall>dp \<in> set (respQueue c). dp_readyTime dp \<le> busBusyUntil c) \<and>
     respondEvent c = front_event (respQueue c)"

text \<open>\<open>isInWriteQueue\<close> holds the burst addresses of the write queue, which has no two entries for one burst.\<close>

definition wq_inv :: "dram_params \<Rightarrow> 'a dram_ctrl_scheme \<Rightarrow> bool" where
  "wq_inv p c \<longleftrightarrow>
     isInWriteQueue c = (\<lambda>dp. burstAlign p (dp_addr dp)) ` set (writeQueue c) \<and>
     distinct (map (\<lambda>dp. burstAlign p (dp_addr dp)) (writeQueue c))"

definition entry_ok :: "dram_params \<Rightarrow> bool \<Rightarrow> dram_packet \<Rightarrow> bool" where
  "entry_ok p rd dp \<longleftrightarrow> dp_wf p dp \<and> dp_size dp \<le> burstSize p \<and> dp_isRead dp = rd"

definition refresh_idle :: "rank \<Rightarrow> bool" where
  "refresh_idle rk \<longleftrightarrow> (refreshState rk = REF_DRAIN \<longrightarrow> refreshEvent rk = None)"

text \<open>Every burst of a split read is counted once: serviced, or still waiting in a queue.\<close>

definition bursts_waiting :: "nat \<Rightarrow> 'a dram_ctrl_scheme \<Rightarrow> nat" where
  "bursts_waiting h c = count_if (\<lambda>dp. burstHelper dp = Some h) (readQueue c @ respQueue c)"

definition helper_inv :: "'a dram_ctrl_scheme \<Rightarrow> bool" where
  "helper_inv c \<longleftrightarrow>
     (\<forall>h. case helpers c h of
            None \<Rightarrow> bursts_waiting h c = 0
          | Some (n, k) \<Rightarrow> h < nextHelper c \<and> k < n \<and> k + bursts_waiting h c = n)"

definition ctrl_inv :: "dram_params \<Rightarrow> 'a dram_ctrl_scheme \<Rightarrow> bool" where
  "ctrl_inv p c \<longleftrightarrow>
     burst_inv p (burst_of c) \<and> list_all (entry_ok p True) (readQueue c) \<and>
     list_all (entry_ok p False) (writeQueue c) \<and> resp_inv c \<and> wq_inv p c \<and> helper_inv c \<and>
     list_all refresh_idle (ranks c) \<and> (busState c \<in> {WRITE, READ_TO_WRITE} \<longrightarrow> writeQueue c \<noteq> [])"

text \<open>The bank mask has 64 bits, and activates lie before the largest tick.\<close>

definition time_ok :: "dram_params \<Rightarrow> tick \<Rightarrow> 'a dram_ctrl_scheme \<Rightarrow> bool" where
  "time_ok p now c \<longleftrightarrow>
     ranksPerChannel p * banksPerRank p \<le> 64 \<and>
     (\<forall>rk \<in> set (ranks c). \<forall>bk \<in> set (banks rk). bank_act_at p (env_of now c) bk \<le> MaxTick)"

lemma helper_inv_cong:
  assumes "helper_inv c" "helpers c' = helpers c" "nextHelper c' = nextHelper c"
    "\<And>h. bursts_waiting h c' = bursts_waiting h c"
  shows "helper_inv c'"
  unfolding helper_inv_def
proof
  fix h
  show "case helpers c' h of None \<Rightarrow> bursts_waiting h c' = 0
    | Some (n, k) \<Rightarrow> h < nextHelper c' \<and> k < n \<and> k + bursts_waiting h c' = n"
    using assms(1) [unfolded helper_inv_def, THEN spec, of h] assms(2-) by (auto split: option.splits)
qed

lemma count_if_mset: "mset xs = mset ys \<Longrightarrow> count_if P xs = count_if P ys"
  by (metis count_if_def mset_filter size_mset)

lemma check_ranks_ok:
  assumes "list_all refresh_idle rks"
  shows "\<exists>rks'. check_ranks now rks = Inr rks' \<and> list_all refresh_idle rks' \<and> map banks rks' = map banks rks \<and>
           map isAvailable rks' = map isAvailable rks \<and> (\<forall>p. list_all (rank_inv p) rks \<longrightarrow> list_all (rank_inv p) rks')"
  using assms
proof (induction rks)
  case (Cons rk rks)
  have "\<exists>rk'. (if isAvailable rk then Inr rk else checkDrainDone now rk) = Inr rk' \<and> refresh_idle rk' \<and>
      banks rk' = banks rk \<and> isAvailable rk' = isAvailable rk \<and> (\<forall>p. rank_inv p rk \<longrightarrow> rank_inv p rk')"
    using Cons.prems
    by (auto simp: checkDrainDone_def refresh_idle_def isAvailable_def res_simps rank_inv_def open_rows_def act_times_def)
  then show ?case using Cons by (auto simp: res_simps)
qed simp

lemma ctrl_invD:
  assumes "ctrl_inv p c"
  shows "burst_inv p (burst_of c)" "list_all (entry_ok p True) (readQueue c)"
    "list_all (entry_ok p False) (writeQueue c)" "resp_inv c" "wq_inv p c" "helper_inv c"
    "list_all refresh_idle (ranks c)" "busState c \<in> {WRITE, READ_TO_WRITE} \<Longrightarrow> writeQueue c \<noteq> []"
  using assms by (auto simp: ctrl_inv_def)

lemma sched_ok_queue:
  assumes "burst_inv p (burst_of c)" "time_ok p now c" "list_all (entry_ok p rd) q"
  shows "sched_ok p (env_of now c) q"
  using assms
  by (auto simp: sched_ok_def time_ok_def burst_inv_def burst_of_def env_of_def entry_ok_def list_all_iff rank_inv_def)

text \<open>A burst changes the banks, the bus and the turn counters; the ranks keep their refresh state.\<close>

lemma do_access_ok:
  assumes inv: "burst_inv p (burst_of c)" and wf: "entry_ok p rd dp" and idle: "list_all refresh_idle (ranks c)"
  obtains rs cl n r w where "do_access p now queue dp c = Inr
      (c\<lparr>ranks := rs, busBusyUntil := cl, activeRank := dp_rank dp, nextReqTime := n, readsThisTime := r,
         writesThisTime := w\<rparr>, dp\<lparr>dp_readyTime := cl\<rparr>)"
    "busBusyUntil c \<le> cl" "now \<le> cl" "list_all refresh_idle rs"
    "burst_inv p \<lparr>bs_ranks = rs, bs_busBusyUntil = cl, bs_activeRank = dp_rank dp\<rparr>"
proof -
  have "dp_wf p dp" using wf by (simp add: entry_ok_def)
  then obtain st' t where b: "burst_access p now (timeStampOffset c) queue dp (burst_of c) =
       Inr (st', dp\<lparr>dp_readyTime := bs_busBusyUntil st'\<rparr>, t)"
      "burst_inv p st'" "bs_busBusyUntil st' = t + tCL p + tBURST p" "bs_activeRank st' = dp_rank dp"
      "busBusyUntil c + tBURST p \<le> bs_busBusyUntil st'" "now \<le> t"
    using burst_access_ok [OF inv, of dp now "timeStampOffset c" queue] by (auto simp: burst_of_def)
  have "dp_rank dp < length (bs_ranks (burst_of c))"
    using inv \<open>dp_wf p dp\<close> by (simp add: burst_inv_def dp_wf_def)
  then have "map rank_ctl (bs_ranks st') = map rank_ctl (ranks c)"
    using burst_access_ctl [OF b(1)] by (simp add: burst_of_def)
  moreover have "list_all refresh_idle rs = list_all (\<lambda>(s, e, _). s = REF_DRAIN \<longrightarrow> e = None) (map rank_ctl rs)" for rs
    by (induction rs) (auto simp: refresh_idle_def rank_ctl_def)
  ultimately have "list_all refresh_idle (bs_ranks st')" using idle by simp
  then show ?thesis
    using b that [where rs = "bs_ranks st'" and cl = "bs_busBusyUntil st'"
        and n = "tsub (bs_busBusyUntil st') (tRP p + tRCD p + tCL p)"
        and r = "if dp_isRead dp then readsThisTime c + 1 else readsThisTime c"
        and w = "if dp_isRead dp then writesThisTime c else writesThisTime c + 1"]
    by (cases st') (simp add: do_access_def Let_def)
qed

lemma push_resp_ok:
  assumes "resp_inv c" "busBusyUntil c \<le> dp_readyTime dp" "now \<le> dp_readyTime dp"
  shows "push_resp now dp c = Inr (c\<lparr>respondEvent := front_event (respQueue c @ [dp]), respQueue := respQueue c @ [dp]\<rparr>)"
proof (cases "respQueue c")
  case Nil
  then have "respondEvent c = None" using assms(1) by (simp add: resp_inv_def front_event_def)
  then show ?thesis using Nil assms(3) by (simp add: push_resp_def res_simps front_event_def)
next
  case (Cons x xs)
  have "last (respQueue c) \<in> set (respQueue c)" using Cons by simp
  then have l: "dp_readyTime (last (respQueue c)) \<le> dp_readyTime dp"
    using assms(1,2) unfolding resp_inv_def by (meson order_trans)
  have e: "respondEvent c = front_event (respQueue c @ [dp])" "scheduled (front_event (respQueue c @ [dp]))"
    using assms(1) Cons by (simp_all add: resp_inv_def front_event_def)
  have "respQueue c \<noteq> []" using Cons by simp
  then show ?thesis unfolding push_resp_def by (simp only: if_False assertE_holds [OF l] e assertE_True bindE_simps)
qed

text \<open>The choice of the next packet keeps the queue as a multiset, so the invariant too.\<close>

lemma list_all_mset: "mset xs = mset ys \<Longrightarrow> list_all P xs = list_all P ys"
  by (metis list_all_iff set_mset_mset)

lemma next_choice:
  assumes inv: "burst_inv p (burst_of c)" "time_ok p now c" "list_all (entry_ok p rd) q" and ne: "q \<noteq> []"
  obtains (none) q' where "chooseNext p (env_of now c) q x = Inr (q', False)" "mset q' = mset q"
  | (some) dp q' where "chooseNext p (env_of now c) q x = Inr (dp # q', True)" "mset (dp # q') = mset q"
      "entry_ok p rd dp" "list_all (entry_ok p rd) q'" "pkt_avail (env_of now c) dp"
proof -
  obtain q' f where q: "chooseNext p (env_of now c) q x = Inr (q', f)" "mset q' = mset q"
      "f \<longrightarrow> pkt_avail (env_of now c) (hd q')"
    using chooseNext_contract [OF sched_ok_queue [OF inv] ne, of x] by blast
  show ?thesis
  proof (cases f)
    case True
    obtain dp r where r: "q' = dp # r" using q(2) ne by (cases q') auto
    have "list_all (entry_ok p rd) (dp # r)" using q(2) r inv(3) list_all_mset by metis
    then show ?thesis using some q True r by simp
  next
    case False
    then show ?thesis using none q by simp
  qed
qed

lemma helper_inv_move:
  assumes "helper_inv c" "helpers c' = helpers c" "nextHelper c' = nextHelper c"
    "mset (map burstHelper (readQueue c' @ respQueue c')) = mset (map burstHelper (readQueue c @ respQueue c))"
  shows "helper_inv c'"
proof (rule helper_inv_cong [OF assms(1-3)])
  fix h
  show "bursts_waiting h c' = bursts_waiting h c"
    using count_if_mset [OF assms(4), of "\<lambda>b. b = Some h"] by (simp add: bursts_waiting_def count_if_map)
qed

lemma wq_inv_perm:
  assumes "wq_inv p c" "mset (writeQueue c') = mset (writeQueue c)" "isInWriteQueue c' = isInWriteQueue c"
  shows "wq_inv p c'"
proof -
  have "mset (map (\<lambda>dp. burstAlign p (dp_addr dp)) (writeQueue c')) = mset (map (\<lambda>dp. burstAlign p (dp_addr dp)) (writeQueue c))"
    using assms(2) by simp
  then have "distinct (map (\<lambda>dp. burstAlign p (dp_addr dp)) (writeQueue c'))"
    using assms(1) unfolding wq_inv_def by (metis mset_eq_imp_distinct_iff)
  then show ?thesis using assms mset_eq_setD [OF assms(2)] by (simp add: wq_inv_def)
qed

lemma wq_inv_pop:
  assumes "wq_inv p c" "mset (dp # q) = mset (writeQueue c)" "writeQueue c' = q"
    "isInWriteQueue c' = isInWriteQueue c - {burstAlign p (dp_addr dp)}"
  shows "wq_inv p c'"
proof -
  have "wq_inv p (c\<lparr>writeQueue := dp # q\<rparr>)"
    using assms(2) by (intro wq_inv_perm [OF assms(1)]) simp_all
  then show ?thesis using assms(3,4) by (auto simp: wq_inv_def)
qed

lemma resp_inv_frame:
  "resp_inv c \<Longrightarrow> respQueue c' = respQueue c \<Longrightarrow> respondEvent c' = respondEvent c \<Longrightarrow>
   busBusyUntil c \<le> busBusyUntil c' \<Longrightarrow> resp_inv c'"
  unfolding resp_inv_def by (metis order_trans)

lemma burst_inv_bus:
  "burst_inv p (burst_of c) \<Longrightarrow> ranks c' = ranks c \<Longrightarrow> busBusyUntil c \<le> busBusyUntil c' \<Longrightarrow> burst_inv p (burst_of c')"
  by (auto simp: burst_inv_def burst_of_def)

text \<open>Reads in flight, whatever their ready time.\<close>

definition untimed :: "dram_packet \<Rightarrow> dram_packet" where
  "untimed dp = dp\<lparr>dp_readyTime := 0\<rparr>"

definition reads_held :: "'a dram_ctrl_scheme \<Rightarrow> dram_packet multiset" where
  "reads_held c = image_mset untimed (mset (readQueue c) + mset (respQueue c))"

lemma untimed_upd [simp]: "untimed (dp\<lparr>dp_readyTime := t\<rparr>) = untimed dp" "burstHelper (untimed dp) = burstHelper dp"
  by (simp_all add: untimed_def)

lemma helpers_held: "mset (map burstHelper (readQueue c @ respQueue c)) = image_mset burstHelper (reads_held c)"
  by (simp add: reads_held_def image_mset.compositionality comp_def)

lemma reads_held_helpers:
  "reads_held c' = reads_held c \<Longrightarrow>
   mset (map burstHelper (readQueue c' @ respQueue c')) = mset (map burstHelper (readQueue c @ respQueue c))"
  by (simp only: helpers_held)

lemma read_burst_inv:
  assumes inv: "ctrl_inv p c" and q: "mset (dp # q) = mset (readQueue c)" "list_all (entry_ok p True) q"
    and b: "busBusyUntil c \<le> t" "list_all refresh_idle rs"
      "burst_inv p \<lparr>bs_ranks = rs, bs_busBusyUntil = t, bs_activeRank = r\<rparr>"
    and c': "readQueue c' = q" "respQueue c' = respQueue c @ [dp\<lparr>dp_readyTime := t\<rparr>]"
      "respondEvent c' = front_event (respQueue c')" "writeQueue c' = writeQueue c"
      "isInWriteQueue c' = isInWriteQueue c" "ranks c' = rs" "busBusyUntil c' = t" "activeRank c' = r"
      "helpers c' = helpers c" "nextHelper c' = nextHelper c"
      "busState c' \<in> {WRITE, READ_TO_WRITE} \<longrightarrow> writeQueue c \<noteq> []"
  shows "ctrl_inv p c' \<and> reads_held c' = reads_held c"
proof
  note i = ctrl_invD [OF inv]
  have held: "reads_held c' = reads_held c"
    using q(1) [symmetric] c'(1,2) by (simp add: reads_held_def)
  have "resp_inv c'"
    using i(4) b(1) c'(2,3,7) unfolding resp_inv_def by (auto simp: sorted_append intro: order_trans)
  moreover have "helper_inv c'" using helper_inv_move [OF i(6) c'(9,10) reads_held_helpers [OF held]] .
  moreover have "wq_inv p c'" using wq_inv_perm [OF i(5), of c'] c'(4,5) by simp
  moreover have "burst_inv p (burst_of c')" using b(3) c'(6-8) by (simp add: burst_of_def)
  ultimately show "ctrl_inv p c'" using i(3) q(2) b(2) c'(1,4,6,11) by (simp add: ctrl_inv_def)
  show "reads_held c' = reads_held c" by (rule held)
qed

lemma ctrl_inv_read_perm:
  assumes "ctrl_inv p c" "mset q = mset (readQueue c)"
  shows "ctrl_inv p (c\<lparr>readQueue := q\<rparr>) \<and> reads_held (c\<lparr>readQueue := q\<rparr>) = reads_held c"
proof
  note i = ctrl_invD [OF assms(1)]
  show h: "reads_held (c\<lparr>readQueue := q\<rparr>) = reads_held c" using assms(2) by (simp add: reads_held_def)
  have "helper_inv (c\<lparr>readQueue := q\<rparr>)"
    using helper_inv_move [OF i(6) _ _ reads_held_helpers [OF h]] by simp
  then show "ctrl_inv p (c\<lparr>readQueue := q\<rparr>)"
    using assms(1) list_all_mset [OF assms(2), of "entry_ok p True"]
    by (simp add: ctrl_inv_def burst_of_def resp_inv_def wq_inv_def)
qed

lemma ctrl_inv_frame:
  assumes "ctrl_inv p c" "helper_inv c'" "burst_of c' = burst_of c" "readQueue c' = readQueue c" "writeQueue c' = writeQueue c"
    "isInWriteQueue c' = isInWriteQueue c" "respQueue c' = respQueue c" "respondEvent c' = respondEvent c"
    "busState c' \<in> {WRITE, READ_TO_WRITE} \<longrightarrow> writeQueue c \<noteq> []"
  shows "ctrl_inv p c'"
  using assms by (simp add: ctrl_inv_def resp_inv_def wq_inv_def burst_of_def)

text \<open>Serving a read: no assertion fails, the invariant holds after, and no read is lost.\<close>

lemma serve_read_ok:
  assumes inv: "ctrl_inv p c" and q: "mset (dp # q) = mset (readQueue c)" "entry_ok p True dp" "list_all (entry_ok p True) q"
    and av: "pkt_avail (env_of now c) dp" and rd: "busState c = READ"
  shows "\<exists>c'. serve_read p now switched (c\<lparr>readQueue := dp # q\<rparr>) = Inr c' \<and> ctrl_inv p c' \<and>
           reads_held c' = reads_held c \<and> writeQueue c' = writeQueue c \<and> nextReqEvent c' = nextReqEvent c \<and>
           readQueue c' = q"
proof -
  note i = ctrl_invD [OF inv]
  define c1 where "c1 = c\<lparr>readQueue := dp # q\<rparr>"
  define c2 where "c2 = (if switched \<and> dp_rank dp = activeRank c1
    then c1\<lparr>busBusyUntil := busBusyUntil c1 + (tWTR p + tCL p)\<rparr> else c1)"
  have f2: "ranks c2 = ranks c" "busBusyUntil c \<le> busBusyUntil c2" "readQueue c2 = dp # q" "respQueue c2 = respQueue c"
    "writeQueue c2 = writeQueue c" "isInWriteQueue c2 = isInWriteQueue c" "respondEvent c2 = respondEvent c"
    "helpers c2 = helpers c" "nextHelper c2 = nextHelper c" "busState c2 = busState c" "nextReqEvent c2 = nextReqEvent c"
    by (simp_all add: c2_def c1_def)
  have hd1: "hd (readQueue c1) = dp" by (simp add: c1_def)
  have av1: "pkt_avail (env_of now c1) dp" using av by (simp add: pkt_avail_def env_of_def c1_def)
  have rdp: "dp_isRead dp" "dp_size dp \<le> burstSize p" using q(2) by (simp_all add: entry_ok_def)
  obtain rs cl n r w where a: "do_access p now (readQueue c2) dp c2 = Inr
      (c2\<lparr>ranks := rs, busBusyUntil := cl, activeRank := dp_rank dp, nextReqTime := n, readsThisTime := r,
         writesThisTime := w\<rparr>, dp\<lparr>dp_readyTime := cl\<rparr>)"
      "busBusyUntil c2 \<le> cl" "now \<le> cl" "list_all refresh_idle rs"
      "burst_inv p \<lparr>bs_ranks = rs, bs_busBusyUntil = cl, bs_activeRank = dp_rank dp\<rparr>"
    using do_access_ok [OF burst_inv_bus [OF i(1) f2(1,2)] q(2)] i(7) f2(1) by metis
  define c4 where "c4 = c2\<lparr>ranks := rs, busBusyUntil := cl, activeRank := dp_rank dp, nextReqTime := n,
    readsThisTime := r, writesThisTime := w, readQueue := q\<rparr>"
  have r4: "resp_inv c4" using resp_inv_frame [OF i(4), of c4] f2 a(2) by (simp add: c4_def)
  define c5 where "c5 = c4\<lparr>respondEvent := front_event (respQueue c4 @ [dp\<lparr>dp_readyTime := cl\<rparr>]),
    respQueue := respQueue c4 @ [dp\<lparr>dp_readyTime := cl\<rparr>]\<rparr>"
  have p5: "push_resp now (dp\<lparr>dp_readyTime := cl\<rparr>) c4 = Inr c5"
    unfolding c5_def by (rule push_resp_ok [OF r4]) (simp_all add: a(3) c4_def)
  define c6 where "c6 = (if length (writeQueue c5) > writeHighThreshold p then c5\<lparr>busState := READ_TO_WRITE\<rparr> else c5)"
  have "serve_read p now switched (c\<lparr>readQueue := dp # q\<rparr>) = Inr c6"
    unfolding c1_def [symmetric] serve_read_def hd1 Let_def c2_def [symmetric] doDRAMAccess_def
    using av1 rdp a(1,3) p5 f2(3) by (simp add: c4_def c6_def)
  moreover have "ctrl_inv p c6 \<and> reads_held c6 = reads_held c"
    using f2 a(2) rd by (intro read_burst_inv [OF inv q(1,3) _ a(4,5)]) (auto simp: c6_def c5_def c4_def)
  moreover have "writeQueue c6 = writeQueue c" "nextReqEvent c6 = nextReqEvent c" "readQueue c6 = q"
    by (simp_all add: c6_def c5_def c4_def f2)
  ultimately show ?thesis by blast
qed

lemma next_read_ok:
  assumes inv: "ctrl_inv p c" and rd: "busState c = READ" and t: "time_ok p now c"
  shows "\<exists>c' go. next_read p now switched c = Inr (c', go) \<and> ctrl_inv p c' \<and> reads_held c' = reads_held c \<and>
           writeQueue c' = writeQueue c \<and> nextReqEvent c' = nextReqEvent c \<and>
           (readQueue c \<noteq> [] \<longrightarrow> length (readQueue c) = length (readQueue c') + (if go then 1 else 0))"
proof (cases "readQueue c = []")
  case True
  have "ctrl_inv p (emit DrainDone c)" "writeQueue c \<noteq> [] \<Longrightarrow> ctrl_inv p (c\<lparr>busState := READ_TO_WRITE\<rparr>)"
    using rd by (intro ctrl_inv_frame [OF inv];
      simp add: emit_def burst_of_def helper_inv_move [OF ctrl_invD(6) [OF inv]])+
  then show ?thesis using True inv by (auto simp: next_read_def reads_held_def emit_def)
next
  case ne: False
  note i = ctrl_invD [OF inv]
  let ?x = "if switched then tCS p else 0"
  show ?thesis
  proof (cases rule: next_choice [OF i(1) t i(2) ne, where x = ?x, case_names none some])
    case (none q')
    then show ?thesis using ne ctrl_inv_read_perm [OF inv none(2)] mset_eq_length [OF none(2)]
      by (auto simp: next_read_def)
  next
    case (some dp q')
    obtain c' where c': "serve_read p now switched (c\<lparr>readQueue := dp # q'\<rparr>) = Inr c'" "ctrl_inv p c'"
        "reads_held c' = reads_held c" "writeQueue c' = writeQueue c" "nextReqEvent c' = nextReqEvent c" "readQueue c' = q'"
      using serve_read_ok [OF inv some(2,3,4,5) rd] by blast
    then have "next_read p now switched c = Inr (c', True)" using ne by (simp add: next_read_def some(1))
    then show ?thesis using c' mset_eq_length [OF some(2)] by auto
  qed
qed

text \<open>Serving a write: one write leaves the queue and the set of its burst addresses.\<close>

lemma serve_write_ok:
  assumes inv: "ctrl_inv p c" and q: "mset (dp # q) = mset (writeQueue c)" "entry_ok p False dp" "list_all (entry_ok p False) q"
    and av: "pkt_avail (env_of now c) dp"
  shows "\<exists>c'. serve_write p now switched (c\<lparr>writeQueue := dp # q\<rparr>) = Inr c' \<and> ctrl_inv p c' \<and>
           reads_held c' = reads_held c \<and> writeQueue c' = q \<and> nextReqEvent c' = nextReqEvent c \<and>
           readQueue c' = readQueue c"
proof -
  note i = ctrl_invD [OF inv]
  define c1 where "c1 = c\<lparr>writeQueue := dp # q\<rparr>"
  define c2 where "c2 = (if switched \<and> dp_rank dp = activeRank c1
    then c1\<lparr>busBusyUntil := busBusyUntil c1 + tRTW p\<rparr> else c1)"
  have f2: "ranks c2 = ranks c" "busBusyUntil c \<le> busBusyUntil c2" "writeQueue c2 = dp # q" "respQueue c2 = respQueue c"
    "readQueue c2 = readQueue c" "isInWriteQueue c2 = isInWriteQueue c" "respondEvent c2 = respondEvent c"
    "helpers c2 = helpers c" "nextHelper c2 = nextHelper c" "busState c2 = busState c" "nextReqEvent c2 = nextReqEvent c"
    by (simp_all add: c2_def c1_def)
  have hd1: "hd (writeQueue c1) = dp" by (simp add: c1_def)
  have av1: "pkt_avail (env_of now c1) dp" using av by (simp add: pkt_avail_def env_of_def c1_def)
  have wdp: "\<not> dp_isRead dp" "dp_size dp \<le> burstSize p" using q(2) by (simp_all add: entry_ok_def)
  obtain rs cl n r w where a: "do_access p now (writeQueue c2) dp c2 = Inr
      (c2\<lparr>ranks := rs, busBusyUntil := cl, activeRank := dp_rank dp, nextReqTime := n, readsThisTime := r,
         writesThisTime := w\<rparr>, dp\<lparr>dp_readyTime := cl\<rparr>)"
      "busBusyUntil c2 \<le> cl" "now \<le> cl" "list_all refresh_idle rs"
      "burst_inv p \<lparr>bs_ranks = rs, bs_busBusyUntil = cl, bs_activeRank = dp_rank dp\<rparr>"
    using do_access_ok [OF burst_inv_bus [OF i(1) f2(1,2)] q(2)] i(7) f2(1) by metis
  define c4 where "c4 = c2\<lparr>ranks := rs, busBusyUntil := cl, activeRank := dp_rank dp, nextReqTime := n,
    readsThisTime := r, writesThisTime := w, writeQueue := q,
    isInWriteQueue := isInWriteQueue c2 - {burstAlign p (dp_addr dp)}\<rparr>"
  obtain b where b: "serve_write p now switched (c\<lparr>writeQueue := dp # q\<rparr>) = Inr (c4\<lparr>busState := b\<rparr>)"
      "q = [] \<longrightarrow> b = WRITE_TO_READ"
  proof
    let ?b = "if q = [] \<or> (length q + minWritesPerSwitch p < writeLowThreshold p \<and> drainState c4 \<noteq> Draining) \<or>
        (readQueue c4 \<noteq> [] \<and> w \<ge> minWritesPerSwitch p) then WRITE_TO_READ else busState c4"
    show "serve_write p now switched (c\<lparr>writeQueue := dp # q\<rparr>) = Inr (c4\<lparr>busState := ?b\<rparr>)"
      unfolding c1_def [symmetric] serve_write_def hd1 Let_def c2_def [symmetric] doDRAMAccess_def
      using av1 wdp a(1,3) f2(3) by (simp add: c4_def)
  qed simp
  let ?c' = "c4\<lparr>busState := b\<rparr>"
  have held: "reads_held ?c' = reads_held c" by (simp add: reads_held_def c4_def f2)
  have "wq_inv p ?c'" by (rule wq_inv_pop [OF i(5) q(1)]) (simp_all add: c4_def f2)
  moreover have "helper_inv ?c'"
    by (rule helper_inv_move [OF i(6) _ _ reads_held_helpers [OF held]]) (simp_all add: c4_def f2)
  moreover have "resp_inv ?c'" using f2 a(2) by (intro resp_inv_frame [OF i(4)]) (simp_all add: c4_def)
  moreover have "burst_inv p (burst_of ?c')" "ranks ?c' = rs" "readQueue ?c' = readQueue c" "writeQueue ?c' = q"
    using a(5) by (simp_all add: burst_of_def c4_def f2)
  ultimately have "ctrl_inv p ?c'" using i(2) q(3) a(4) b(2) by (auto simp: ctrl_inv_def)
  then show ?thesis using b(1) held by (auto simp: c4_def f2)
qed

lemma next_write_ok:
  assumes inv: "ctrl_inv p c" and wr: "busState c = WRITE" and t: "time_ok p now c"
  shows "\<exists>c' go. next_write p now switched c = Inr (c', go) \<and> ctrl_inv p c' \<and> reads_held c' = reads_held c \<and>
           nextReqEvent c' = nextReqEvent c \<and> readQueue c' = readQueue c \<and>
           length (writeQueue c) = length (writeQueue c') + (if go then 1 else 0)"
proof -
  note i = ctrl_invD [OF inv]
  have ne: "writeQueue c \<noteq> []" using i(8) wr by simp
  let ?x = "if switched then min (tRTW p) (tCS p) else 0"
  show ?thesis
  proof (cases rule: next_choice [OF i(1) t i(3) ne, where x = ?x, case_names none some])
    case (none q')
    let ?c = "c\<lparr>writeQueue := q'\<rparr>"
    have "wq_inv p ?c" using wq_inv_perm [OF i(5), of ?c] none(2) by simp
    moreover have "helper_inv ?c" by (rule helper_inv_move [OF i(6)]) simp_all
    ultimately have "ctrl_inv p ?c"
      using inv ne none(2) list_all_mset [OF none(2), of "entry_ok p False"]
      by (auto simp: ctrl_inv_def burst_of_def resp_inv_def)
    then show ?thesis using none mset_eq_length [OF none(2)] by (auto simp: next_write_def reads_held_def)
  next
    case (some dp q')
    obtain c' where c': "serve_write p now switched (c\<lparr>writeQueue := dp # q'\<rparr>) = Inr c'" "ctrl_inv p c'"
        "reads_held c' = reads_held c" "writeQueue c' = q'" "nextReqEvent c' = nextReqEvent c" "readQueue c' = readQueue c"
      using serve_write_ok [OF inv some(2,3,4,5)] by blast
    then have "next_write p now switched c = Inr (c', True)" by (simp add: next_write_def some(1))
    then show ?thesis using c' mset_eq_length [OF some(2)] by auto
  qed
qed

text \<open>
  The whole handler of the request event: from a state with the invariant it never stops the
  simulator, keeps the invariant, loses no read, and takes at most one burst out of the queues.
\<close>

lemma switch_bus_ok:
  assumes "ctrl_inv p c" "switch_bus c = (c', sw)"
  shows "ctrl_inv p c' \<and> busState c' \<in> {READ, WRITE} \<and> (time_ok p now c \<longrightarrow> time_ok p now c') \<and>
    reads_held c' = reads_held c \<and> writeQueue c' = writeQueue c \<and> nextReqEvent c' = nextReqEvent c \<and>
    readQueue c' = readQueue c"
proof -
  have h: "helper_inv c'" using assms(2)
    by (intro helper_inv_move [OF ctrl_invD(6) [OF assms(1)]]) (auto simp: switch_bus_def split: bus_state.splits)
  have b: "busState c' \<in> {WRITE, READ_TO_WRITE} \<longrightarrow> writeQueue c \<noteq> []"
    using assms(2) ctrl_invD(8) [OF assms(1)] by (auto simp: switch_bus_def split: bus_state.splits)
  have "ctrl_inv p c'" using assms(2) b
    by (intro ctrl_inv_frame [OF assms(1) h]) (auto simp: switch_bus_def burst_of_def split: bus_state.splits)
  then show ?thesis using assms(2)
    by (auto simp: switch_bus_def time_ok_def env_of_def reads_held_def split: bus_state.splits)
qed

lemma ctrl_inv_ranks:
  assumes "ctrl_inv p c" "list_all refresh_idle rs" "list_all (rank_inv p) rs" "length rs = length (ranks c)"
  shows "ctrl_inv p (c\<lparr>nextReqEvent := e, ranks := rs\<rparr>)"
proof -
  have "helper_inv (c\<lparr>nextReqEvent := e, ranks := rs\<rparr>)"
    by (rule helper_inv_move [OF ctrl_invD(6) [OF assms(1)]]) simp_all
  then show ?thesis
    using assms by (simp add: ctrl_inv_def burst_inv_def burst_of_def resp_inv_def wq_inv_def list_all_iff)
qed

lemma time_ok_eq:
  "time_ok p now c \<longleftrightarrow> ranksPerChannel p * banksPerRank p \<le> 64 \<and>
     (\<forall>bs \<in> set (map banks (ranks c)). \<forall>bk \<in> set bs.
        bank_act_at p \<lparr>se_now = now, se_ranks = [], se_busBusyUntil = 0\<rparr> bk \<le> MaxTick)"
  by (simp add: time_ok_def env_of_def bank_act_at_def)

lemma time_ok_banks:
  assumes "time_ok p now c" "map banks (ranks c') = map banks (ranks c)"
  shows "time_ok p now c'"
  using assms(1) unfolding time_ok_eq assms(2) .

lemma processNextReqEvent_ok:
  assumes inv: "ctrl_inv p c" and t: "time_ok p now c"
  shows "\<exists>c'. processNextReqEvent p now c = Inr c' \<and> ctrl_inv p c' \<and> reads_held c' = reads_held c \<and>
           length (writeQueue c) \<le> length (writeQueue c') + 1 \<and> length (writeQueue c') \<le> length (writeQueue c) \<and>
           length (readQueue c) \<le> length (readQueue c') + 1 \<and>
           (nextReqEvent c' = None \<or> (\<exists>w \<ge> now. nextReqEvent c' = Some w))"
proof -
  note i = ctrl_invD [OF inv]
  obtain rs where rs: "check_ranks now (ranks c) = Inr rs" "list_all refresh_idle rs" "map banks rs = map banks (ranks c)"
      "map isAvailable rs = map isAvailable (ranks c)" "\<And>p. list_all (rank_inv p) (ranks c) \<Longrightarrow> list_all (rank_inv p) rs"
    using check_ranks_ok [OF i(7), of now] by blast
  define c1 where "c1 = c\<lparr>nextReqEvent := None, ranks := rs\<rparr>"
  have r: "list_all (rank_inv p) (ranks c)" using i(1) by (simp add: burst_inv_def burst_of_def list_all_iff)
  have inv1: "ctrl_inv p c1"
    unfolding c1_def by (rule ctrl_inv_ranks [OF inv rs(2) rs(5) [OF r] map_eq_imp_length_eq [OF rs(3)]])
  have t1: "time_ok p now c1" by (rule time_ok_banks [OF t]) (simp add: c1_def rs(3))
  obtain c2 sw where c2: "switch_bus c1 = (c2, sw)" by fastforce
  note s = switch_bus_ok [OF inv1 c2, of now]
  define m where "m = (if busState c2 = READ then next_read p now sw c2 else next_write p now sw c2)"
  obtain c3 go where m: "m = Inr (c3, go)" "ctrl_inv p c3" "reads_held c3 = reads_held c2" "nextReqEvent c3 = None"
      "length (writeQueue c2) \<le> length (writeQueue c3) + 1" "length (writeQueue c3) \<le> length (writeQueue c2)"
      "length (readQueue c2) \<le> length (readQueue c3) + 1"
  proof (cases "busState c2 = READ")
    case True
    then show ?thesis using next_read_ok [of p c2 now sw] s t1 that by (auto simp: m_def c1_def split: if_splits)
  next
    case False
    then show ?thesis using next_write_ok [of p c2 now sw] s t1 that by (auto simp: m_def c1_def split: if_splits)
  qed
  define c5 where "c5 b = (let c4 = c3\<lparr>nextReqEvent := Some (max (nextReqTime c3) now)\<rparr> in
    if b then emit RetryReq (c4\<lparr>retryWrReq := False\<rparr>) else c4)" for b
  have step: "\<exists>b. processNextReqEvent p now c =
      (if count_if (\<lambda>rk. \<not> isAvailable rk) (ranks c) = ranksPerChannel p then Inr c1
       else if \<not> go then Inr c3 else Inr (c5 b))"
    using m(1,4) rs(1) unfolding m_def processNextReqEvent_def
    by (intro exI [of _ "retryWrReq c3 \<and> length (writeQueue c3) < writeBufferSize p"])
      (simp add: c1_def [symmetric] c2 Let_def sched_nextReq_def ev_schedule_ok c5_def)
  have f5: "readQueue (c5 b) = readQueue c3" "writeQueue (c5 b) = writeQueue c3" "respQueue (c5 b) = respQueue c3"
      "nextReqEvent (c5 b) = Some (max (nextReqTime c3) now)" for b
    by (simp_all add: c5_def emit_def Let_def)
  have "ctrl_inv p (c5 b)" for b
    by (rule ctrl_inv_frame [OF m(2)])
      (auto simp: c5_def Let_def emit_def burst_of_def helper_inv_move [OF ctrl_invD(6) [OF m(2)]] ctrl_invD(8) [OF m(2)])
  moreover have h1: "reads_held c1 = reads_held c" by (simp add: reads_held_def c1_def)
  moreover have h3: "reads_held c3 = reads_held c" using s m(3) h1 by simp
  moreover have "reads_held (c5 b) = reads_held c" for b unfolding h3 [symmetric] by (simp add: reads_held_def f5)
  ultimately show ?thesis using step inv1 s m(2,4-) f5 by (auto simp: c1_def)
qed

section \<open>Decoding\<close>

text \<open>The parameters a configured controller has: the coordinates fit their types and nothing is empty.\<close>

definition params_ok :: "dram_params \<Rightarrow> bool" where
  "params_ok p \<longleftrightarrow>
     0 < ranksPerChannel p \<and> ranksPerChannel p \<le> 256 \<and> 0 < banksPerRank p \<and> banksPerRank p \<le> 256 \<and>
     0 < rowsPerBank p \<and> rowsPerBank p < 2 ^ 32 - 1 \<and> (\<exists>k. k < 32 \<and> burstSize p = 2 ^ k)"

lemma map_addr_bounds:
  assumes "params_ok p" and "map_addr p a = (rk, bk, row)"
  shows "rk < ranksPerChannel p" "bk < banksPerRank p" "row < rowsPerBank p"
  using assms by (auto simp: map_addr_def split_bank_def Let_def params_ok_def split: addr_map.splits)

lemma decodeAddr_ok:
  assumes ok: "params_ok p" and c: "req_context (req pkt) = Some cid"
  obtains dp where "decodeAddr p now pkt a n rd = Inr dp" "dp_wf p dp" "dp_isRead dp = rd" "dp_addr dp = a"
    "dp_size dp = n" "dp_pkt dp = pkt" "burstHelper dp = None"
    "(dp_rank dp, dp_bank dp, unat (dp_row dp)) = map_addr p (unat a div burstSize p)"
proof -
  obtain rk bk row where m: "map_addr p (unat a div burstSize p) = (rk, bk, row)" by (metis prod_cases3)
  note b = map_addr_bounds [OF ok m]
  have r: "row < 2 ^ 32 - 1" "rk < 256" "bk < 256" using ok b unfolding params_ok_def by linarith+
  have "banksPerRank p * rk + bk < banksPerRank p * (rk + 1)" using b by simp
  also have "\<dots> \<le> 256 * 256" using ok r(2) by (intro mult_le_mono) (auto simp: params_ok_def)
  finally have bid: "banksPerRank p * rk + bk < 2 ^ 16" by simp
  have u: "unat (word_of_nat row :: u32) = row" using r(1) by (simp add: unat_of_nat)
  have "(word_of_nat row :: u32) \<noteq> NO_ROW"
  proof
    assume "(word_of_nat row :: u32) = NO_ROW"
    then have "row = unat (NO_ROW :: u32)" using u by metis
    then show False using r(1) by (simp add: NO_ROW_def unsigned_minus_1_eq_mask mask_eq_exp_minus_1)
  qed
  moreover have "row < unat NO_ROW" using r(1) by (simp add: NO_ROW_def unsigned_minus_1_eq_mask mask_eq_exp_minus_1)
  ultimately show ?thesis
    using b r bid c u that by (simp add: decodeAddr_def make_dram_packet_def m has_context_def dp_wf_def)
qed
section \<open>Splitting a request into bursts\<close>

lemma unat_power_lower64:
  assumes "k < 64"
  shows "unat (2 ^ k :: u64) = 2 ^ k"
proof -
  have "(2 :: nat) ^ k < 2 ^ 64" using assms by (intro power_strict_increasing) simp_all
  then have "unat (word_of_nat (2 ^ k) :: u64) = 2 ^ k" by (simp add: unat_of_nat take_bit_nat_eq_self del: of_nat_power)
  then show ?thesis by simp
qed

lemma unat_low_mask: "k < 64 \<Longrightarrow> unat (2 ^ k - 1 :: u64) = 2 ^ k - 1"
  using unat_power_lower64 [of k] by (metis unat_pred unsigned_0 word_gt_0 power_not_zero zero_neq_numeral)

lemma unat_align:
  assumes "k < 64"
  shows "unat ((a :: addr) AND NOT (2 ^ k - 1)) = unat a div 2 ^ k * 2 ^ k"
proof -
  have "a AND NOT (2 ^ k - 1) = push_bit k (drop_bit k a)"
    by (rule bit_eqI) (auto simp: bit_simps mask_eq_exp_minus_1 [symmetric])
  moreover have "unat a div 2 ^ k * 2 ^ k < 2 ^ 64"
    using le_less_trans [OF div_times_less_eq_dividend unat_u64_less] by simp
  ultimately show ?thesis
    unfolding unsigned_push_bit_eq unat_drop_bit_eq
    by (simp add: unsigned_push_bit_eq unat_drop_bit_eq drop_bit_eq_div [where 'a = nat] push_bit_eq_mult [where 'a = nat] take_bit_nat_eq_self)
qed

lemma unat_or_low:
  assumes "k < 64"
  shows "unat ((a :: addr) OR (2 ^ k - 1)) = unat a div 2 ^ k * 2 ^ k + (2 ^ k - 1)"
proof -
  have "a OR (2 ^ k - 1) = (a AND NOT (2 ^ k - 1)) OR (2 ^ k - 1)"
    by (rule bit_eqI) (auto simp: bit_simps mask_eq_exp_minus_1 [symmetric])
  also have "\<dots> = (a AND NOT (2 ^ k - 1)) + (2 ^ k - 1)"
    by (rule disjunctive_add [symmetric]) (auto simp: bit_simps mask_eq_exp_minus_1 [symmetric])
  finally have e: "a OR (2 ^ k - 1) = (a AND NOT (2 ^ k - 1)) + (2 ^ k - 1)" .
  have m: "unat (2 ^ k - 1 :: addr) = 2 ^ k - 1"
    using unat_low_mask [OF assms] .
  have "unat a div 2 ^ k < 2 ^ (64 - k)" 
    using unat_u64_less [of a] assms by (simp add: less_mult_imp_div_less power_add [symmetric])
  then have "unat a div 2 ^ k * 2 ^ k + 2 ^ k \<le> 2 ^ (64 - k) * 2 ^ k" 
    by (metis Suc_leI add.commute mult_Suc mult_le_mono1)
  also have "\<dots> = (2 :: nat) ^ 64" using assms by (simp add: power_add [symmetric])
  finally have "unat a div 2 ^ k * 2 ^ k + 2 ^ k \<le> 2 ^ 64" .
  moreover have "0 < (2 :: nat) ^ k" by simp
  ultimately have "unat a div 2 ^ k * 2 ^ k + (2 ^ k - 1) < 2 ^ 64" by linarith
  then show ?thesis unfolding e by (simp add: unat_word_ariths unat_align [OF assms] m)
qed

text \<open>Requests whose last burst ends below the top of the address space.\<close>

definition fits :: "dram_params \<Rightarrow> packet \<Rightarrow> bool" where
  "fits p pkt \<longleftrightarrow> 0 < pkt_size pkt \<and> unat (pkt_addr pkt) + pkt_size pkt + burstSize p < 2 ^ 64"

lemma burst_mask: "burstSize p = 2 ^ k \<Longrightarrow> word_of_nat (burstSize p) - 1 = (2 ^ k - 1 :: addr)"
  by simp

lemma burst_end_nat:
  assumes "params_ok p" and "unat a + burstSize p < 2 ^ 64"
  shows "unat (burst_end p a) = (unat a div burstSize p + 1) * burstSize p"
proof -
  obtain k where k: "k < 32" "burstSize p = 2 ^ k" using assms(1) by (auto simp: params_ok_def)
  let ?n = "unat a div 2 ^ k * 2 ^ k"
  have o: "unat (a OR (2 ^ k - 1)) = ?n + (2 ^ k - 1)" using unat_or_low [of k a] k(1) by simp
  have "?n \<le> unat a" by (rule div_times_less_eq_dividend)
  moreover have "0 < (2 :: nat) ^ k" by simp
  ultimately have "?n + (2 ^ k - 1) + 1 = ?n + 2 ^ k" "?n + 2 ^ k < 2 ^ 64" using assms(2) k(2) by linarith+
  then show ?thesis
    unfolding burst_end_def burst_mask [OF k(2)] by (simp add: unat_plus_if' o k(2))
qed

lemma burst_size_nat:
  assumes "params_ok p" and "fits p pkt" and "pkt_addr pkt \<le> a" and "unat a < unat (pkt_addr pkt) + pkt_size pkt"
  defines "e \<equiv> min ((unat a div burstSize p + 1) * burstSize p) (unat (pkt_addr pkt) + pkt_size pkt)"
  shows "burst_size_at p pkt a = e - unat a" "unat a < e" "burst_size_at p pkt a \<le> burstSize p"
proof -
  obtain k where k: "k < 32" "burstSize p = 2 ^ k" using assms(1) by (auto simp: params_ok_def)
  have b: "0 < burstSize p" "burstSize p < 2 ^ 32" unfolding k(2) using k(1) by (simp, intro power_strict_increasing) simp_all
  have en: "unat (burst_end p a) = (unat a div burstSize p + 1) * burstSize p"
    using assms(2,4) by (intro burst_end_nat [OF assms(1)]) (simp add: fits_def)
  have last: "unat (pkt_addr pkt + word_of_nat (pkt_size pkt)) = unat (pkt_addr pkt) + pkt_size pkt"
    using assms(2) by (simp add: fits_def unat_plus_if' unat_of_nat take_bit_nat_eq_self)
  have m: "unat (min (burst_end p a) (pkt_addr pkt + word_of_nat (pkt_size pkt))) = e"
    using en last by (auto simp: e_def min_def word_le_nat_alt)
  have d: "unat a < (unat a div burstSize p + 1) * burstSize p"
    using b(1) by (metis Suc_eq_plus1 dividend_less_div_times mult.commute mult_Suc add.commute)
  have "(unat a div burstSize p + 1) * burstSize p \<le> unat a + burstSize p" by simp
  then have le: "e - unat a \<le> burstSize p" unfolding e_def by linarith
  show gt: "unat a < e" using d assms(4) by (simp add: e_def)
  have "unat (min (burst_end p a) (pkt_addr pkt + word_of_nat (pkt_size pkt)) - a) = e - unat a"
    using m gt by (simp add: unat_sub_if')
  then show s: "burst_size_at p pkt a = e - unat a"
    using le b(2) by (simp add: burst_size_at_def)
  show "burst_size_at p pkt a \<le> burstSize p" using s le by simp
qed

text \<open>
  An address inside the request with a number of bursts to go: the bursts left reach exactly
  to the one of the last byte.
\<close>

definition bursts_left :: "dram_params \<Rightarrow> packet \<Rightarrow> addr \<Rightarrow> nat \<Rightarrow> bool" where
  "bursts_left p pkt a n \<longleftrightarrow>
     (n > 0 \<longrightarrow> pkt_addr pkt \<le> a \<and> unat a < unat (pkt_addr pkt) + pkt_size pkt) \<and>
     (n > 0 \<longrightarrow> unat a div burstSize p + n = (unat (pkt_addr pkt) + pkt_size pkt - 1) div burstSize p + 1)"

lemma div_last_byte:
  assumes "0 < (b :: nat)" and "0 < s"
  shows "(x + s - 1) div b = x div b + (x mod b + s - 1) div b"
proof -
  have "x + s - 1 = (x mod b + s - 1) + x div b * b" using assms(2) mod_div_mult_eq [of x b] by linarith
  moreover have "(x mod b + s - 1 + x div b * b) div b = x div b + (x mod b + s - 1) div b"
    using assms(1) by (intro div_mult_self1) simp
  ultimately show ?thesis by simp
qed

lemma bursts_left_init:
  assumes "params_ok p" and "fits p pkt"
  shows "bursts_left p pkt (pkt_addr pkt) (dram_pkt_count p pkt)" "0 < dram_pkt_count p pkt"
proof -
  obtain k where k: "k < 32" "burstSize p = 2 ^ k" using assms(1) by (auto simp: params_ok_def)
  let ?x = "unat (pkt_addr pkt)" and ?B = "burstSize p" and ?s = "pkt_size pkt"
  have "?x < 2 ^ 64" using unat_u64_less by simp
  have m: "unat (pkt_addr pkt AND (word_of_nat ?B - 1)) = ?x mod ?B"
  proof -
    have "pkt_addr pkt AND (word_of_nat ?B - 1) = take_bit k (pkt_addr pkt)"
      unfolding burst_mask [OF k(2)] by (simp only: take_bit_eq_mask mask_eq_exp_minus_1)
    moreover have "unat (take_bit k (pkt_addr pkt)) = take_bit k ?x" using k(1) by (simp add: unsigned_take_bit_eq)
    ultimately show ?thesis by (simp only: take_bit_eq_mod [where 'a = nat] k(2))
  qed
  have B: "0 < ?B" using k by simp
  have s: "0 < ?s" using assms(2) by (simp add: fits_def)
  have c: "dram_pkt_count p pkt = (?x mod ?B + ?s - 1) div ?B + 1"
  proof -
    have "?x mod ?B + ?s + ?B - 1 = (?x mod ?B + ?s - 1) + ?B" using s by linarith
    then show ?thesis unfolding dram_pkt_count_def divCeil_def m using B by (metis Suc_eq_plus1 div_add_self2 neq0_conv)
  qed
  have "(?x + ?s - 1) div ?B = ?x div ?B + (?x mod ?B + ?s - 1) div ?B" by (rule div_last_byte [OF B s])
  then show "bursts_left p pkt (pkt_addr pkt) (dram_pkt_count p pkt)" "0 < dram_pkt_count p pkt"
    using s c by (simp_all add: bursts_left_def)
qed

lemma bursts_left_step:
  assumes "params_ok p" and "fits p pkt" and "bursts_left p pkt a (Suc n)"
  shows "bursts_left p pkt (burst_end p a) n"
proof (cases "n = 0")
  case False
  let ?x = "unat (pkt_addr pkt)" and ?B = "burstSize p" and ?s = "pkt_size pkt"
  have B: "0 < ?B" using assms(1) by (auto simp: params_ok_def)
  have a: "pkt_addr pkt \<le> a" "unat a < ?x + ?s" "unat a div ?B + Suc n = (?x + ?s - 1) div ?B + 1"
    using assms(3) by (simp_all add: bursts_left_def)
  have e: "unat (burst_end p a) = (unat a div ?B + 1) * ?B"
    using assms(2) a(2) by (intro burst_end_nat [OF assms(1)]) (simp add: fits_def)
  have "unat a div ?B + 1 \<le> (?x + ?s - 1) div ?B" using a(3) False by simp
  then have "(unat a div ?B + 1) * ?B \<le> (?x + ?s - 1) div ?B * ?B" by (rule mult_le_mono1)
  then have l: "unat (burst_end p a) \<le> ?x + ?s - 1" unfolding e using div_times_less_eq_dividend le_trans by blast
  have "unat a \<le> unat (burst_end p a)" unfolding e
    using B by (metis Suc_eq_plus1 dividend_less_div_times mult.commute mult_Suc add.commute less_imp_le)
  then have "pkt_addr pkt \<le> burst_end p a" using a(1) by (simp add: word_le_nat_alt)
  moreover have "unat (burst_end p a) div ?B = unat a div ?B + 1" unfolding e using B by simp
  ultimately show ?thesis using l a(2,3) False by (simp add: bursts_left_def)
qed (simp add: bursts_left_def)

section \<open>Accepting requests\<close>

text \<open>The loop over the bursts of a read appends one packet for each burst that the write queue does not hold.\<close>

definition helper_of :: "nat \<Rightarrow> nat option \<Rightarrow> dram_packet list \<Rightarrow> nat \<Rightarrow> nat option" where
  "helper_of pktCount h dps fresh = (if h = None \<and> pktCount > 1 \<and> dps \<noteq> [] then Some fresh else h)"

definition with_helper :: "nat \<Rightarrow> nat option \<Rightarrow> nat option \<Rightarrow> 'a dram_ctrl_scheme \<Rightarrow> 'a dram_ctrl_scheme" where
  "with_helper pktCount h h' c =
     (if h = None \<and> h' \<noteq> None
      then c\<lparr>helpers := (helpers c)(nextHelper c \<mapsto> (pktCount, 0)), nextHelper := nextHelper c + 1\<rparr> else c)"

lemma read_bursts_shape:
  assumes ok: "params_ok p" and fit: "fits p pkt" and ctx: "req_context (req pkt) = Some cid"
    and "bursts_left p pkt a n" and "length (readQueue c) + length (respQueue c) + n \<le> readBufferSize p"
    and "pktCount > 1 \<or> h = None"
  shows "\<exists>dps. let h' = helper_of pktCount h dps (nextHelper c) in
     read_bursts p now pkt pktCount n a served h c =
       Inr ((with_helper pktCount h h' c)\<lparr>readQueue := readQueue c @ dps\<rparr>, served + n - length dps, h') \<and>
     length dps \<le> n \<and> list_all (entry_ok p True) dps \<and> (\<forall>dp \<in> set dps. burstHelper dp = h' \<and> dp_pkt dp = pkt)"
  using assms(4-)
proof (induction n arbitrary: a served h c)
  case 0
  then show ?case by (intro exI [of _ "[]"]) (auto simp: helper_of_def with_helper_def)
next
  case (Suc n)
  let ?sz = "burst_size_at p pkt a" and ?e = "burst_end p a"
  have left: "bursts_left p pkt ?e n" by (rule bursts_left_step [OF ok fit Suc.prems(1)])
  show ?case
  proof (cases "found_in_wrq p c a ?sz")
    case True
    obtain dps where d: "let h' = helper_of pktCount h dps (nextHelper c) in
       read_bursts p now pkt pktCount n ?e (served + 1) h c =
         Inr ((with_helper pktCount h h' c)\<lparr>readQueue := readQueue c @ dps\<rparr>, served + 1 + n - length dps, h') \<and>
       length dps \<le> n \<and> list_all (entry_ok p True) dps \<and> (\<forall>dp \<in> set dps. burstHelper dp = h' \<and> dp_pkt dp = pkt)"
      using Suc.IH [OF left _ Suc.prems(3), of c "served + 1"] Suc.prems(2) by auto
    then show ?thesis using True by (intro exI [of _ dps]) (simp add: Let_def)
  next
    case False
    define h1 where "h1 = (if pktCount > 1 \<and> h = None then Some (nextHelper c) else h)"
    obtain dp where dp: "decodeAddr p now pkt a ?sz True = Inr dp" "dp_wf p dp" "dp_isRead dp" "dp_size dp = ?sz" "dp_pkt dp = pkt"
      using decodeAddr_ok [OF ok ctx, of now a ?sz True] by metis
    have "?sz \<le> burstSize p"
      using burst_size_nat(3) [OF ok fit] Suc.prems(1) by (simp add: bursts_left_def)
    then have e: "entry_ok p True (dp\<lparr>burstHelper := h1\<rparr>)" using dp by (simp add: entry_ok_def dp_wf_def)
    define c1 where "c1 = with_helper pktCount h h1 c"
    have f1: "readQueue c1 = readQueue c" "respQueue c1 = respQueue c" by (simp_all add: c1_def with_helper_def)
    define c2 where "c2 = c1\<lparr>readQueue := readQueue c1 @ [dp\<lparr>burstHelper := h1\<rparr>]\<rparr>"
    have step: "read_bursts p now pkt pktCount (Suc n) a served h c = read_bursts p now pkt pktCount n ?e served h1 c2"
      using False dp(1) ctx Suc.prems(2)
      by (auto simp: Let_def has_context_def readQueueFull_def c2_def c1_def with_helper_def h1_def f1)
    have "length (readQueue c2) + length (respQueue c2) + n \<le> readBufferSize p" "pktCount > 1 \<or> h1 = None"
      using Suc.prems(2,3) f1 by (simp_all add: c2_def h1_def)
    from Suc.IH [OF left this] obtain dps where d: "read_bursts p now pkt pktCount n ?e served h1 c2 =
         Inr ((with_helper pktCount h1 (helper_of pktCount h1 dps (nextHelper c2)) c2)\<lparr>readQueue := readQueue c2 @ dps\<rparr>,
           served + n - length dps, helper_of pktCount h1 dps (nextHelper c2))"
       "length dps \<le> n" "list_all (entry_ok p True) dps"
       "\<forall>dp \<in> set dps. burstHelper dp = helper_of pktCount h1 dps (nextHelper c2) \<and> dp_pkt dp = pkt"
      by (auto simp: Let_def)
    have h: "helper_of pktCount h1 dps (nextHelper c2) = h1"
      "helper_of pktCount h (dp\<lparr>burstHelper := h1\<rparr> # dps) (nextHelper c) = h1" 
      by (auto simp: helper_of_def h1_def)
    show ?thesis
      by (rule exI [of _ "dp\<lparr>burstHelper := h1\<rparr> # dps"])
        (use d e h step dp(5) f1 in \<open>auto simp: Let_def with_helper_def c2_def c1_def\<close>)
  qed
qed

text \<open>The loop over the bursts of a write keeps at most one entry for each burst address.\<close>

lemma write_bursts_shape:
  assumes ok: "params_ok p" and fit: "fits p pkt" and ctx: "req_context (req pkt) = Some cid"
    and "bursts_left p pkt a n" and "length (writeQueue c) + n \<le> writeBufferSize p"
    and "wq_inv p c"
  shows "\<exists>dps s. write_bursts p now pkt n a c = Inr (c\<lparr>writeQueue := writeQueue c @ dps, isInWriteQueue := s\<rparr>) \<and>
     wq_inv p (c\<lparr>writeQueue := writeQueue c @ dps, isInWriteQueue := s\<rparr>) \<and>
     length dps \<le> n \<and> list_all (entry_ok p False) dps"
  using assms(4-)
proof (induction n arbitrary: a c)
  case 0
  then show ?case by (intro exI [of _ "[]"] exI [of _ "isInWriteQueue c"]) simp
next
  case (Suc n)
  let ?sz = "burst_size_at p pkt a" and ?e = "burst_end p a"
  have left: "bursts_left p pkt ?e n" by (rule bursts_left_step [OF ok fit Suc.prems(1)])
  show ?case
  proof (cases "burstAlign p a \<in> isInWriteQueue c")
    case True
    then show ?thesis using Suc.IH [OF left _ Suc.prems(3)] Suc.prems(2) le_SucI by fastforce
  next
    case False
    obtain dp where dp: "decodeAddr p now pkt a ?sz False = Inr dp" "dp_wf p dp" "\<not> dp_isRead dp" "dp_size dp = ?sz" "dp_addr dp = a"
      using decodeAddr_ok [OF ok ctx, of now a ?sz False] by metis
    have "?sz \<le> burstSize p"
      using burst_size_nat(3) [OF ok fit] Suc.prems(1) by (simp add: bursts_left_def)
    then have e: "entry_ok p False dp" using dp by (simp add: entry_ok_def)
    define c1 where "c1 = c\<lparr>writeQueue := writeQueue c @ [dp], isInWriteQueue := insert (burstAlign p a) (isInWriteQueue c)\<rparr>"
    have w1: "wq_inv p c1" using Suc.prems(3) False dp(5) by (auto simp: wq_inv_def c1_def)
    then have "length (writeQueue c1) = card (isInWriteQueue c1)"
      unfolding wq_inv_def by (metis distinct_card length_map set_map)
    then have step: "write_bursts p now pkt (Suc n) a c = write_bursts p now pkt n ?e c1"
      using False dp(1) ctx Suc.prems(2) by (simp add: has_context_def c1_def Let_def)
    have "length (writeQueue c1) + n \<le> writeBufferSize p" using Suc.prems(2) by (simp add: c1_def)
    from Suc.IH [OF left this w1] obtain dps s where d: "write_bursts p now pkt n ?e c1 =
        Inr (c1\<lparr>writeQueue := writeQueue c1 @ dps, isInWriteQueue := s\<rparr>)"
        "wq_inv p (c1\<lparr>writeQueue := writeQueue c1 @ dps, isInWriteQueue := s\<rparr>)" "length dps \<le> n" "list_all (entry_ok p False) dps"
      by blast
    then show ?thesis using step e by (intro exI [of _ "dp # dps"] exI [of _ s]) (simp add: c1_def)
  qed
qed

text \<open>The memory can answer the packet.\<close>

definition serves :: "memory \<Rightarrow> packet \<Rightarrow> bool" where
  "serves m pkt =
     (case access m pkt of Inl _ \<Rightarrow> False | Inr (_, pkt1) \<Rightarrow> needsResponse pkt \<longrightarrow> isResponse pkt1)"

text \<open>Requests leave only the queues, the helpers, the memory, and the log changed.\<close>

lemma ctrl_inv_same:
  assumes "ctrl_inv p c" "readQueue c' = readQueue c" "writeQueue c' = writeQueue c" "respQueue c' = respQueue c"
    "isInWriteQueue c' = isInWriteQueue c" "respondEvent c' = respondEvent c" "ranks c' = ranks c"
    "busBusyUntil c' = busBusyUntil c" "activeRank c' = activeRank c" "busState c' = busState c"
    "helpers c' = helpers c" "nextHelper c' = nextHelper c"
  shows "ctrl_inv p c'"
proof (rule ctrl_inv_frame [OF assms(1)])
  show "helper_inv c'" by (rule helper_inv_move [OF ctrl_invD(6) [OF assms(1)]]) (simp_all add: assms)
  show "busState c' \<in> {WRITE, READ_TO_WRITE} \<longrightarrow> writeQueue c \<noteq> []"
    using ctrl_invD(8) [OF assms(1)] assms(10) by simp
qed (use assms in \<open>simp_all add: burst_of_def\<close>)

lemma accessAndRespond_ok:
  assumes "serves (mem c) pkt"
  obtains m pd os where "accessAndRespond now c pkt l = Inr (c\<lparr>mem := m, pendingDelete := pd, outputs := os\<rparr>)"
    "needsResponse pkt \<Longrightarrow> \<exists>r t. os = outputs c @ [RespOut r t] \<and> isResponse r \<and> now + l \<le> t"
    "\<not> needsResponse pkt \<Longrightarrow> os = outputs c"
proof -
  obtain m pkt1 where a: "access (mem c) pkt = Inr (m, pkt1)" "needsResponse pkt \<longrightarrow> isResponse pkt1"
    using assms by (auto simp: serves_def split: sum.splits)
  show ?thesis
  proof (cases "needsResponse pkt")
    case True
    define os where "os = outputs c @ [RespOut (pkt1\<lparr>headerDelay := 0, payloadDelay := 0\<rparr>)
      (now + l + headerDelay pkt1 + payloadDelay pkt1)]"
    have "accessAndRespond now c pkt l = Inr (c\<lparr>mem := m, pendingDelete := pendingDelete c, outputs := os\<rparr>)"
      using a True by (cases c) (simp add: accessAndRespond_def emit_def os_def)
    then show ?thesis by (rule that) (use a True in \<open>simp_all add: os_def isResponse_def\<close>)
  next
    case False
    have "accessAndRespond now c pkt l = Inr (c\<lparr>mem := m, pendingDelete := pendingDelete c @ [pkt1], outputs := outputs c\<rparr>)"
      using a False by (cases c) (simp add: accessAndRespond_def)
    then show ?thesis by (rule that) (simp_all add: False)
  qed
qed

lemma sched_nextReq_now:
  obtains e where "sched_nextReq now now c = Inr (c\<lparr>nextReqEvent := e\<rparr>)" "e \<noteq> None"
proof (cases "nextReqEvent c")
  case None
  then show ?thesis using that [of "Some now"] by (simp add: sched_nextReq_def ev_schedule_ok)
next
  case (Some t)
  then have "c\<lparr>nextReqEvent := Some t\<rparr> = c" by (cases c) simp
  then show ?thesis using Some that [of "Some t"] by (simp add: sched_nextReq_def)
qed

lemma count_if_all: "(\<forall>x \<in> set xs. P x) \<Longrightarrow> count_if P xs = length xs"
  by (induction xs) auto

lemma count_if_none: "(\<forall>x \<in> set xs. \<not> P x) \<Longrightarrow> count_if P xs = 0"
  by (induction xs) auto

lemma fresh_helper: "helper_inv c \<Longrightarrow> helpers c (nextHelper c) = None \<and> bursts_waiting (nextHelper c) c = 0"
  unfolding helper_inv_def by (drule spec [of _ "nextHelper c"]) (auto split: option.splits)

text \<open>New bursts of one read: without a helper, or with a fresh one that counts those already serviced.\<close>

lemma helper_inv_add:
  assumes inv: "helper_inv c" and q: "readQueue c' = readQueue c @ dps" "respQueue c' = respQueue c"
    and b: "\<forall>dp \<in> set dps. burstHelper dp = h" and dps: "dps \<noteq> []"
    and c': "h = None \<Longrightarrow> helpers c' = helpers c \<and> nextHelper c' = nextHelper c"
      "h \<noteq> None \<Longrightarrow> h = Some (nextHelper c) \<and> nextHelper c' = nextHelper c + 1 \<and>
         helpers c' = (helpers c)(nextHelper c \<mapsto> (n, n - length dps))"
    and n: "length dps \<le> n"
  shows "helper_inv c'"
proof -
  have w: "bursts_waiting i c' = bursts_waiting i c + (if h = Some i then length dps else 0)" for i
    using b by (auto simp: bursts_waiting_def q count_if_all count_if_none)
  show ?thesis
  proof (cases h)
    case None
    show ?thesis by (rule helper_inv_cong [OF inv]) (simp_all add: None c'(1) w)
  next
    case (Some j)
    have f: "helpers c (nextHelper c) = None" "bursts_waiting (nextHelper c) c = 0" using fresh_helper [OF inv] by auto
    have j: "j = nextHelper c" "nextHelper c' = nextHelper c + 1" "helpers c' = (helpers c)(j \<mapsto> (n, n - length dps))"
      using c'(2) Some by auto
    have lt: "n - length dps < n" using dps n by (cases dps) auto
    show ?thesis unfolding helper_inv_def
    proof
      fix i
      show "case helpers c' i of None \<Rightarrow> bursts_waiting i c' = 0
          | Some (n, k) \<Rightarrow> i < nextHelper c' \<and> k < n \<and> k + bursts_waiting i c' = n"
        using inv [unfolded helper_inv_def, THEN spec, of i] f j n lt Some w [of i]
        by (auto split: option.splits)
    qed
  qed
qed

lemma addToReadQueue_ok:
  assumes inv: "ctrl_inv p c" and ok: "params_ok p" "fits p pkt" and ctx: "req_context (req pkt) = Some cid"
    and rd: "\<not> isWrite pkt" and sv: "serves (mem c) pkt"
    and room: "length (readQueue c) + length (respQueue c) + dram_pkt_count p pkt \<le> readBufferSize p"
  shows "\<exists>c' dps. addToReadQueue p now c pkt (dram_pkt_count p pkt) = Inr c' \<and> ctrl_inv p c' \<and>
           readQueue c' = readQueue c @ dps \<and> respQueue c' = respQueue c \<and> writeQueue c' = writeQueue c \<and>
           length dps \<le> dram_pkt_count p pkt \<and> (dps \<noteq> [] \<longrightarrow> nextReqEvent c' \<noteq> None \<and> outputs c' = outputs c) \<and>
           (dps = [] \<longrightarrow> needsResponse pkt \<longrightarrow> (\<exists>r t. outputs c' = outputs c @ [RespOut r t]))"
proof -
  let ?n = "dram_pkt_count p pkt"
  note i = ctrl_invD [OF inv]
  note bl = bursts_left_init [OF ok]
  obtain dps where "let h' = helper_of ?n None dps (nextHelper c) in
     read_bursts p now pkt ?n ?n (pkt_addr pkt) 0 None c =
       Inr ((with_helper ?n None h' c)\<lparr>readQueue := readQueue c @ dps\<rparr>, 0 + ?n - length dps, h') \<and>
     length dps \<le> ?n \<and> list_all (entry_ok p True) dps \<and> (\<forall>dp \<in> set dps. burstHelper dp = h' \<and> dp_pkt dp = pkt)"
    using read_bursts_shape [OF ok ctx bl(1) room, of ?n None now 0] by auto
  then obtain h' where h': "h' = helper_of ?n None dps (nextHelper c)"
    and rb: "read_bursts p now pkt ?n ?n (pkt_addr pkt) 0 None c =
       Inr ((with_helper ?n None h' c)\<lparr>readQueue := readQueue c @ dps\<rparr>, ?n - length dps, h')"
    and d: "length dps \<le> ?n" "list_all (entry_ok p True) dps" "\<forall>dp \<in> set dps. burstHelper dp = h'"
    by (auto simp: Let_def)
  show ?thesis
  proof (cases "dps = []")
    case True
    have "(with_helper ?n None h' c)\<lparr>readQueue := readQueue c @ dps\<rparr> = c"
      using True by (cases c) (simp add: h' helper_of_def with_helper_def)
    then have e: "addToReadQueue p now c pkt ?n = accessAndRespond now c pkt (frontendLatency p)"
      using rb True rd bl(2) by (simp add: addToReadQueue_def)
    obtain m pd os where a: "accessAndRespond now c pkt (frontendLatency p) = Inr (c\<lparr>mem := m, pendingDelete := pd, outputs := os\<rparr>)"
      "needsResponse pkt \<Longrightarrow> \<exists>r t. os = outputs c @ [RespOut r t] \<and> isResponse r \<and> now + frontendLatency p \<le> t"
      using accessAndRespond_ok [OF sv, of now "frontendLatency p"] by metis
    have "ctrl_inv p (c\<lparr>mem := m, pendingDelete := pd, outputs := os\<rparr>)" by (rule ctrl_inv_same [OF inv]) simp_all
    then show ?thesis using a e True by auto
  next
    case False
    define c1 where "c1 = (with_helper ?n None h' c)\<lparr>readQueue := readQueue c @ dps\<rparr>"
    define c2 where "c2 = (case h' of None \<Rightarrow> c1
      | Some i \<Rightarrow> c1\<lparr>helpers := (helpers c1)(i := map_option (\<lambda>(n, _). (n, ?n - length dps)) (helpers c1 i))\<rparr>)"
    obtain e where e: "sched_nextReq now now c2 = Inr (c2\<lparr>nextReqEvent := e\<rparr>)" "e \<noteq> None" by (rule sched_nextReq_now)
    have "?n - length dps \<noteq> ?n" using False d(1) bl(2) by (cases dps) auto
    then have r: "addToReadQueue p now c pkt ?n = Inr (c2\<lparr>nextReqEvent := e\<rparr>)"
      using rb rd bl(2) e(1) by (simp add: addToReadQueue_def c1_def [symmetric] c2_def [symmetric])
    have f2: "readQueue c2 = readQueue c @ dps" "respQueue c2 = respQueue c" "writeQueue c2 = writeQueue c"
      "isInWriteQueue c2 = isInWriteQueue c" "respondEvent c2 = respondEvent c" "burst_of c2 = burst_of c" "outputs c2 = outputs c"
      "busState c2 = busState c" "ranks c2 = ranks c" "busBusyUntil c2 = busBusyUntil c"
      by (simp_all add: c2_def c1_def with_helper_def burst_of_def split: option.splits)
    have "helper_inv c2"
      by (rule helper_inv_add [OF i(6) f2(1,2) d(3) False _ _ d(1)])
        (use h' False in \<open>auto simp: c2_def c1_def with_helper_def helper_of_def split: if_splits\<close>)
    then have "ctrl_inv p c2"
      using inv d(2) f2 by (simp add: ctrl_inv_def resp_inv_def wq_inv_def)
    then have "ctrl_inv p (c2\<lparr>nextReqEvent := e\<rparr>)" by (rule ctrl_inv_same) simp_all
    then show ?thesis using r e(2) f2 d(1) False by auto
  qed
qed

lemma addToWriteQueue_ok:
  assumes inv: "ctrl_inv p c" and ok: "params_ok p" "fits p pkt" and ctx: "req_context (req pkt) = Some cid"
    and wr: "isWrite pkt" and sv: "serves (mem c) pkt"
    and room: "length (writeQueue c) + dram_pkt_count p pkt \<le> writeBufferSize p"
  shows "\<exists>c' dps. addToWriteQueue p now c pkt (dram_pkt_count p pkt) = Inr c' \<and> ctrl_inv p c' \<and>
           writeQueue c' = writeQueue c @ dps \<and> respQueue c' = respQueue c \<and> readQueue c' = readQueue c \<and>
           length dps \<le> dram_pkt_count p pkt \<and> nextReqEvent c' \<noteq> None \<and>
           (needsResponse pkt \<longrightarrow> (\<exists>r t. outputs c' = outputs c @ [RespOut r t]))"
proof -
  note i = ctrl_invD [OF inv]
  obtain dps s where w: "write_bursts p now pkt (dram_pkt_count p pkt) (pkt_addr pkt) c =
      Inr (c\<lparr>writeQueue := writeQueue c @ dps, isInWriteQueue := s\<rparr>)"
      "wq_inv p (c\<lparr>writeQueue := writeQueue c @ dps, isInWriteQueue := s\<rparr>)"
      "length dps \<le> dram_pkt_count p pkt" "list_all (entry_ok p False) dps"
    using write_bursts_shape [OF ok ctx bursts_left_init(1) [OF ok] room i(5)] by blast
  define c1 where "c1 = c\<lparr>writeQueue := writeQueue c @ dps, isInWriteQueue := s\<rparr>"
  have "serves (mem c1) pkt" using sv by (simp add: c1_def)
  then obtain m pd os where a: "accessAndRespond now c1 pkt (frontendLatency p) = Inr (c1\<lparr>mem := m, pendingDelete := pd, outputs := os\<rparr>)"
      "needsResponse pkt \<Longrightarrow> \<exists>r t. os = outputs c1 @ [RespOut r t] \<and> isResponse r \<and> now + frontendLatency p \<le> t"
    using accessAndRespond_ok [of c1 pkt now "frontendLatency p"] by metis
  define c2 where "c2 = c1\<lparr>mem := m, pendingDelete := pd, outputs := os\<rparr>"
  obtain e where e: "sched_nextReq now now c2 = Inr (c2\<lparr>nextReqEvent := e\<rparr>)" "e \<noteq> None" by (rule sched_nextReq_now)
  have r: "addToWriteQueue p now c pkt (dram_pkt_count p pkt) = Inr (c2\<lparr>nextReqEvent := e\<rparr>)"
    using w(1) wr a(1) e(1) by (simp add: addToWriteQueue_def c1_def [symmetric] c2_def [symmetric])
  have "helper_inv c1" by (rule helper_inv_move [OF i(6)]) (simp_all add: c1_def)
  then have "ctrl_inv p c1"
    using inv w(2,4) by (auto simp: ctrl_inv_def c1_def burst_of_def resp_inv_def)
  then have "ctrl_inv p (c2\<lparr>nextReqEvent := e\<rparr>)" by (rule ctrl_inv_same) (simp_all add: c2_def)
  then show ?thesis using r e(2) w(3) a(2) by (intro exI [of _ "c2\<lparr>nextReqEvent := e\<rparr>"] exI [of _ dps]) (auto simp: c2_def c1_def)
qed

text \<open>The queues never outgrow their buffers.\<close>

definition queues_bounded :: "dram_params \<Rightarrow> 'a dram_ctrl_scheme \<Rightarrow> bool" where
  "queues_bounded p c \<longleftrightarrow>
     length (readQueue c) + length (respQueue c) \<le> readBufferSize p \<and> length (writeQueue c) \<le> writeBufferSize p"

lemma recvTimingReq_ok:
  assumes inv: "ctrl_inv p c" and ok: "params_ok p" "fits p pkt" and ctx: "req_context (req pkt) = Some cid"
    and dir: "isRead pkt \<noteq> isWrite pkt" and sv: "serves (mem c) pkt" and b: "queues_bounded p c"
    and pk: "\<not> flag_memInhibit pkt" "cmd pkt \<noteq> CleanEvict"
  defines "full \<equiv> if isRead pkt then readQueueFull p c (dram_pkt_count p pkt) else writeQueueFull p c (dram_pkt_count p pkt)"
  shows "\<exists>c'. recvTimingReq p now c pkt = Inr (c', \<not> full) \<and> ctrl_inv p c' \<and> queues_bounded p c' \<and>
           (full \<longrightarrow> readQueue c' = readQueue c \<and> writeQueue c' = writeQueue c \<and> outputs c' = outputs c \<and>
              (if isRead pkt then retryRdReq c' else retryWrReq c')) \<and>
           (\<not> full \<longrightarrow> nextReqEvent c' \<noteq> None \<or> (\<exists>r t. outputs c' = outputs c @ [RespOut r t]) \<or> \<not> needsResponse pkt)"
proof -
  define c1 where "c1 = c\<lparr>pendingDelete := [], prevArrival := now\<rparr>"
  have i1: "ctrl_inv p c1" by (rule ctrl_inv_same [OF inv]) (simp_all add: c1_def)
  have f1: "readQueue c1 = readQueue c" "respQueue c1 = respQueue c" "writeQueue c1 = writeQueue c" "mem c1 = mem c"
    "outputs c1 = outputs c" by (simp_all add: c1_def)
  have sz: "pkt_size pkt \<noteq> 0" using ok(2) by (simp add: fits_def)
  have retry: "ctrl_inv p (c1\<lparr>retryRdReq := True\<rparr>)" "ctrl_inv p (c1\<lparr>retryWrReq := True\<rparr>)"
    by (rule ctrl_inv_same [OF i1]; simp)+
  have full1: "readQueueFull p c1 n = readQueueFull p c n" "writeQueueFull p c1 n = writeQueueFull p c n" for n
    by (simp_all add: readQueueFull_def writeQueueFull_def f1)
  have sv1: "serves (mem c1) pkt" using sv f1 by simp
  show ?thesis
  proof (cases "isRead pkt")
    case True
    then have nw: "\<not> isWrite pkt" using dir by simp
    show ?thesis
    proof (cases full)
      case f: True
      then have "recvTimingReq p now c pkt = Inr (c1\<lparr>retryRdReq := True\<rparr>, False)"
        using True pk sz full1 by (simp add: recvTimingReq_def full_def c1_def [symmetric] Let_def)
      then show ?thesis using f retry True b f1 by (auto simp: queues_bounded_def)
    next
      case f: False
      then have "length (readQueue c1) + length (respQueue c1) + dram_pkt_count p pkt \<le> readBufferSize p"
        using True by (simp add: full_def readQueueFull_def f1)
      from addToReadQueue_ok [OF i1 ok ctx nw sv1 this, of now] obtain c' dps where
        r: "addToReadQueue p now c1 pkt (dram_pkt_count p pkt) = Inr c'" "ctrl_inv p c'"
           "readQueue c' = readQueue c @ dps" "respQueue c' = respQueue c" "writeQueue c' = writeQueue c"
           "length dps \<le> dram_pkt_count p pkt" "dps \<noteq> [] \<longrightarrow> nextReqEvent c' \<noteq> None"
           "dps = [] \<longrightarrow> needsResponse pkt \<longrightarrow> (\<exists>r t. outputs c' = outputs c @ [RespOut r t])"
        by (auto simp: f1)
      have "recvTimingReq p now c pkt = Inr (c', True)"
        using True pk sz full1 f r(1) by (simp add: recvTimingReq_def full_def c1_def [symmetric] Let_def)
      moreover have "queues_bounded p c'" using r b f True by (auto simp: queues_bounded_def full_def readQueueFull_def)
      ultimately show ?thesis using f r by auto
    qed
  next
    case False
    then have wr: "isWrite pkt" using dir by simp
    show ?thesis
    proof (cases full)
      case f: True
      then have "recvTimingReq p now c pkt = Inr (c1\<lparr>retryWrReq := True\<rparr>, False)"
        using False wr pk sz full1 by (simp add: recvTimingReq_def full_def c1_def [symmetric] Let_def)
      then show ?thesis using f retry False b f1 by (auto simp: queues_bounded_def)
    next
      case f: False
      then have "length (writeQueue c1) + dram_pkt_count p pkt \<le> writeBufferSize p"
        using False by (simp add: full_def writeQueueFull_def f1)
      from addToWriteQueue_ok [OF i1 ok ctx wr sv1 this, of now] obtain c' dps where
        r: "addToWriteQueue p now c1 pkt (dram_pkt_count p pkt) = Inr c'" "ctrl_inv p c'"
           "writeQueue c' = writeQueue c @ dps" "respQueue c' = respQueue c" "readQueue c' = readQueue c"
           "length dps \<le> dram_pkt_count p pkt" "nextReqEvent c' \<noteq> None"
        by (auto simp: f1)
      have "recvTimingReq p now c pkt = Inr (c', True)"
        using False wr pk sz full1 f r(1) by (simp add: recvTimingReq_def full_def c1_def [symmetric] Let_def)
      moreover have "queues_bounded p c'" using r b f False by (auto simp: queues_bounded_def full_def writeQueueFull_def)
      ultimately show ?thesis using f r by auto
    qed
  qed
qed

section \<open>Responding\<close>

text \<open>The burst at the front completes its request: it is the only one, or the last one of its helper.\<close>

definition completes :: "'a dram_ctrl_scheme \<Rightarrow> dram_packet \<Rightarrow> bool" where
  "completes c dp =
     (case burstHelper dp of None \<Rightarrow> True | Some h \<Rightarrow> (case helpers c h of None \<Rightarrow> False | Some (n, k) \<Rightarrow> k + 1 = n))"

definition helpers_after :: "dram_packet \<Rightarrow> 'a dram_ctrl_scheme \<Rightarrow> nat \<Rightarrow> (nat \<times> nat) option" where
  "helpers_after dp c =
     (case burstHelper dp of None \<Rightarrow> helpers c
      | Some h \<Rightarrow> (helpers c)(h := if completes c dp then None else map_option (\<lambda>(n, k). (n, k + 1)) (helpers c h)))"

lemma helper_inv_pop:
  assumes inv: "helper_inv c" and q: "respQueue c = dp # rest" and c': "readQueue c' = readQueue c" "respQueue c' = rest"
    "helpers c' = helpers_after dp c" "nextHelper c' = nextHelper c"
  shows "helper_inv c'"
  unfolding helper_inv_def
proof
  fix i
  have w: "bursts_waiting i c = bursts_waiting i c' + (if burstHelper dp = Some i then 1 else 0)"
    by (simp add: bursts_waiting_def q c')
  show "case helpers c' i of None \<Rightarrow> bursts_waiting i c' = 0
      | Some (n, k) \<Rightarrow> i < nextHelper c' \<and> k < n \<and> k + bursts_waiting i c' = n"
    using inv [unfolded helper_inv_def, THEN spec, of i] w
    by (auto simp: c' helpers_after_def completes_def split: option.splits if_splits)
qed

lemma front_helper:
  assumes "helper_inv c" and "respQueue c = dp # rest" and "burstHelper dp = Some h"
  obtains n k where "helpers c h = Some (n, k)" "k < n"
proof -
  have "0 < bursts_waiting h c" by (simp add: bursts_waiting_def assms(2,3))
  then show ?thesis using assms(1) [unfolded helper_inv_def, THEN spec, of h] that by (auto split: option.splits)
qed

lemma finish_burst_ok:
  assumes inv: "helper_inv c" and q: "respQueue c = dp # rest" and sv: "serves (mem c) (dp_pkt dp)"
  obtains m pd os where "finish_burst p now dp (c\<lparr>respondEvent := None\<rparr>) =
      Inr (c\<lparr>respondEvent := None, mem := m, pendingDelete := pd, outputs := os, helpers := helpers_after dp c\<rparr>)"
    "completes c dp \<Longrightarrow> needsResponse (dp_pkt dp) \<Longrightarrow>
       \<exists>r t. os = outputs c @ [RespOut r t] \<and> isResponse r \<and> now + (frontendLatency p + backendLatency p) \<le> t"
    "\<not> completes c dp \<Longrightarrow> os = outputs c"
proof -
  let ?c = "c\<lparr>respondEvent := None\<rparr>"
  have sv': "serves (mem ?c) (dp_pkt dp)" using sv by simp
  obtain m pd os where a: "accessAndRespond now ?c (dp_pkt dp) (frontendLatency p + backendLatency p) =
       Inr (?c\<lparr>mem := m, pendingDelete := pd, outputs := os\<rparr>)"
      "needsResponse (dp_pkt dp) \<Longrightarrow> \<exists>r t. os = outputs ?c @ [RespOut r t] \<and> isResponse r \<and> now + (frontendLatency p + backendLatency p) \<le> t"
    using accessAndRespond_ok [OF sv', of now "frontendLatency p + backendLatency p"] by metis
  show ?thesis
  proof (cases "burstHelper dp")
    case None
    have "finish_burst p now dp ?c =
        Inr (c\<lparr>respondEvent := None, mem := m, pendingDelete := pd, outputs := os, helpers := helpers_after dp c\<rparr>)"
      using a(1) None by (cases c) (simp add: finish_burst_def helpers_after_def)
    then show ?thesis by (rule that) (use a(2) None in \<open>simp_all add: completes_def\<close>)
  next
    case (Some h)
    obtain n k where h: "helpers c h = Some (n, k)" "k < n" by (rule front_helper [OF inv q Some])
    show ?thesis
    proof (cases "k + 1 = n")
      case True
      have "finish_burst p now dp ?c =
          Inr (c\<lparr>respondEvent := None, mem := m, pendingDelete := pd, outputs := os, helpers := helpers_after dp c\<rparr>)"
        using a(1) Some h True by (cases c) (simp add: finish_burst_def helpers_after_def completes_def)
      then show ?thesis by (rule that) (use a(2) Some h True in \<open>simp_all add: completes_def\<close>)
    next
      case False
      have "finish_burst p now dp ?c =
          Inr (c\<lparr>respondEvent := None, mem := mem c, pendingDelete := pendingDelete c, outputs := outputs c,
                 helpers := helpers_after dp c\<rparr>)"
        using Some h False by (cases c) (simp add: finish_burst_def helpers_after_def completes_def)
      then show ?thesis by (rule that) (use Some h False in \<open>simp_all add: completes_def\<close>)
    qed
  qed
qed

lemma processRespondEvent_ok:
  assumes inv: "ctrl_inv p c" and ev: "respondEvent c = Some now" and q: "respQueue c = dp # rest"
    and sv: "serves (mem c) (dp_pkt dp)"
  shows "\<exists>c' os. processRespondEvent p now c = Inr c' \<and> ctrl_inv p c' \<and> respQueue c' = rest \<and>
           readQueue c' = readQueue c \<and> writeQueue c' = writeQueue c \<and>
           filter (\<lambda>x. x \<notin> {RetryReq, DrainDone}) (outputs c') = filter (\<lambda>x. x \<notin> {RetryReq, DrainDone}) os \<and>
           (completes c dp \<longrightarrow> needsResponse (dp_pkt dp) \<longrightarrow>
              (\<exists>r t. os = outputs c @ [RespOut r t] \<and> isResponse r \<and> now + (frontendLatency p + backendLatency p) \<le> t)) \<and>
           (\<not> completes c dp \<longrightarrow> os = outputs c)"
proof -
  note i = ctrl_invD [OF inv]
  have now: "dp_readyTime dp = now" using ev i(4) q by (simp add: resp_inv_def front_event_def)
  have s: "sorted (map dp_readyTime (dp # rest))" using i(4) q by (simp add: resp_inv_def)
  obtain m pd os where a: "finish_burst p now dp (c\<lparr>respondEvent := None\<rparr>) =
      Inr (c\<lparr>respondEvent := None, mem := m, pendingDelete := pd, outputs := os, helpers := helpers_after dp c\<rparr>)"
      "completes c dp \<longrightarrow> needsResponse (dp_pkt dp) \<longrightarrow>
       (\<exists>r t. os = outputs c @ [RespOut r t] \<and> isResponse r \<and> now + (frontendLatency p + backendLatency p) \<le> t)"
      "\<not> completes c dp \<longrightarrow> os = outputs c"
    using finish_burst_ok [OF i(6) q sv, of p now] by metis
  define c2 where "c2 = c\<lparr>respondEvent := front_event rest, mem := m, pendingDelete := pd, outputs := os,
    helpers := helpers_after dp c, respQueue := rest\<rparr>"
  have h2: "helper_inv c2" by (rule helper_inv_pop [OF i(6) q]) (simp_all add: c2_def)
  have "resp_inv c2" using i(4) q s by (simp add: resp_inv_def c2_def)
  then have i2: "ctrl_inv p c2" using inv h2 by (simp add: ctrl_inv_def c2_def burst_of_def wq_inv_def)
  obtain r dd where e: "processRespondEvent p now c =
      Inr (c2\<lparr>retryRdReq := r, outputs := os @ dd\<rparr>)" "set dd \<subseteq> {RetryReq, DrainDone}"
  proof
    let ?dd = "(if rest = [] \<and> drainState c = Draining \<and> writeQueue c = [] \<and> readQueue c = [] then [DrainDone] else []) @
      (if retryRdReq c then [RetryReq] else [])"
    show "processRespondEvent p now c = Inr (c2\<lparr>retryRdReq := False, outputs := os @ ?dd\<rparr>)"
      unfolding processRespondEvent_def Let_def using q a(1) s now
      by (cases rest; cases c) (simp_all add: c2_def emit_def front_event_def ev_schedule_ok)
  qed auto
  have "ctrl_inv p (c2\<lparr>retryRdReq := r, outputs := os @ dd\<rparr>)" by (rule ctrl_inv_same [OF i2]) simp_all
  moreover have "filter (\<lambda>x. x \<notin> {RetryReq, DrainDone}) dd = []" using e(2) by (auto simp: filter_empty_conv)
  ultimately show ?thesis using e(1) a(2,3)
    by (intro exI [of _ "c2\<lparr>retryRdReq := r, outputs := os @ dd\<rparr>"] exI [of _ os]) (simp add: c2_def)
qed

section \<open>Runs of the controller\<close>

lemma startup_ranks_ok:
  assumes "now < t" "\<forall>rk \<in> set rks. refreshEvent rk = None \<and> refreshState rk = REF_IDLE"
  shows "\<exists>rks'. startup_ranks now t rks = Inr rks' \<and> length rks' = length rks \<and> list_all refresh_idle rks' \<and>
           (\<forall>p. list_all (rank_inv p) rks \<longrightarrow> list_all (rank_inv p) rks')"
  using assms(2)
proof (induction rks)
  case (Cons rk rks)
  then obtain rks' where r: "startup_ranks now t rks = Inr rks'" "length rks' = length rks" "list_all refresh_idle rks'"
      "\<forall>p. list_all (rank_inv p) rks \<longrightarrow> list_all (rank_inv p) rks'" by auto
  let ?rk = "rk\<lparr>pwrStateTick := now, refreshEvent := Some t\<rparr>"
  have "rank_startup now rk t = Inr ?rk" using assms(1) Cons.prems by (simp add: rank_startup_def ev_schedule_ok)
  moreover have "refresh_idle ?rk" using Cons.prems by (simp add: refresh_idle_def)
  moreover have "rank_inv p rk \<longrightarrow> rank_inv p ?rk" for p by (simp add: rank_inv_def open_rows_def act_times_def)
  ultimately show ?case using r by auto
qed simp

lemma startup_ok:
  assumes "tRP p < tREFI p"
  shows "\<exists>c. startup p now True (DRAMCtrl_init p g m) = Inr c \<and> ctrl_inv p c \<and> queues_bounded p c \<and> mem c = m"
proof -
  let ?rks = "map (Rank_init p g) [0 ..< ranksPerChannel p]"
  have "now < tsub (now + tREFI p) (tRP p)" using assms by (simp add: tsub_def)
  then obtain rs where rs: "startup_ranks now (tsub (now + tREFI p) (tRP p)) ?rks = Inr rs" "length rs = length ?rks"
      "list_all refresh_idle rs" "list_all (rank_inv p) ?rks \<longrightarrow> list_all (rank_inv p) rs"
    using startup_ranks_ok [of now _ ?rks] by (auto simp: Rank_init_def)
  have ri: "list_all (rank_inv p) ?rks" by (simp add: list_all_iff Rank_init_inv)
  show ?thesis using rs ri
    by (simp add: startup_def DRAMCtrl_init_def ctrl_inv_def burst_inv_def burst_of_def list_all_iff resp_inv_def
        front_event_def wq_inv_def helper_inv_def bursts_waiting_def queues_bounded_def)
qed

text \<open>
  One step: a request arrives, the request event fires, or the respond event fires. The memory
  answers the requests, and the ticks stay below the largest one.
\<close>

inductive ctrl_step :: "dram_params \<Rightarrow> 'a dram_ctrl_scheme \<Rightarrow> 'a dram_ctrl_scheme \<Rightarrow> bool" for p where
  arrive: "recvTimingReq p now c pkt = Inr (c', b) \<Longrightarrow> fits p pkt \<Longrightarrow> req_context (req pkt) = Some cid \<Longrightarrow>
     isRead pkt \<noteq> isWrite pkt \<Longrightarrow> serves (mem c) pkt \<Longrightarrow> \<not> flag_memInhibit pkt \<Longrightarrow> cmd pkt \<noteq> CleanEvict \<Longrightarrow>
     ctrl_step p c c'"
| next_req: "nextReqEvent c = Some now \<Longrightarrow> time_ok p now c \<Longrightarrow> processNextReqEvent p now c = Inr c' \<Longrightarrow> ctrl_step p c c'"
| respond: "respondEvent c = Some now \<Longrightarrow> respQueue c = dp # rest \<Longrightarrow> serves (mem c) (dp_pkt dp) \<Longrightarrow>
     processRespondEvent p now c = Inr c' \<Longrightarrow> ctrl_step p c c'"

lemma size_reads_held: "size (reads_held c) = length (readQueue c) + length (respQueue c)"
  by (simp add: reads_held_def)

lemma ctrl_step_inv:
  assumes "ctrl_step p c c'" "params_ok p" "ctrl_inv p c" "queues_bounded p c"
  shows "ctrl_inv p c' \<and> queues_bounded p c'"
  using assms
proof (cases rule: ctrl_step.cases)
  case (arrive now pkt b cid)
  then show ?thesis using recvTimingReq_ok [OF assms(3,2) arrive(2,3,4,5) assms(4) arrive(6,7), of now] by auto
next
  case (next_req now)
  obtain c'' where "processNextReqEvent p now c = Inr c''" "ctrl_inv p c''" "reads_held c'' = reads_held c"
      "length (writeQueue c'') \<le> length (writeQueue c)"
    using processNextReqEvent_ok [OF assms(3) next_req(2)] by blast
  moreover from this(3) have "length (readQueue c'') + length (respQueue c'') = length (readQueue c) + length (respQueue c)"
    using size_reads_held by metis
  ultimately show ?thesis using next_req(3) assms(4) by (auto simp: queues_bounded_def)
next
  case (respond now dp rest)
  then show ?thesis using processRespondEvent_ok [OF assms(3) respond(1,2,3)] assms(4) by (auto simp: queues_bounded_def)
qed

lemma ctrl_run_inv:
  assumes "(ctrl_step p)\<^sup>*\<^sup>* c c'" "params_ok p" "ctrl_inv p c" "queues_bounded p c"
  shows "ctrl_inv p c' \<and> queues_bounded p c'"
  using assms by (induction rule: rtranclp_induct) (auto dest: ctrl_step_inv)

section \<open>Properties\<close>


text \<open>C2: the request event takes the bursts out of the queues one by one and loses none: every
  read is afterwards still in the read queue or in the response queue, at most one write has left
  the write queue, the response queue is in the order of its ready times, and the set of burst
  addresses agrees with the write queue.\<close>

theorem next_request_loses_nothing:
  assumes "ctrl_inv p c" and "time_ok p now c"
  shows "\<exists>c'. processNextReqEvent p now c = Inr c' \<and> reads_held c' = reads_held c \<and>
           length (writeQueue c) \<le> length (writeQueue c') + 1 \<and> length (writeQueue c') \<le> length (writeQueue c) \<and>
           sorted (map dp_readyTime (respQueue c')) \<and>
           isInWriteQueue c' = (\<lambda>dp. burstAlign p (dp_addr dp)) ` set (writeQueue c')"
  using processNextReqEvent_ok [OF assms] by (auto simp: ctrl_inv_def resp_inv_def wq_inv_def)



text \<open>C10: the decision which packet goes next never fails on a queue that is not empty; it only
  reorders the queue, it reports a packet if and only if some packet goes to a rank that is not
  refreshing, and then such a packet is at the front.\<close>

theorem scheduling_decision:
  assumes "sched_ok p E queue" and "queue \<noteq> []"
  shows "\<exists>q' found. chooseNext p E queue x = Inr (q', found) \<and> mset q' = mset queue \<and>
           (found \<longleftrightarrow> (\<exists>dp \<in> set queue. pkt_avail E dp)) \<and> (found \<longrightarrow> pkt_avail E (hd q'))"
  by (rule chooseNext_contract [OF assms])

text \<open>Serving the packets of a queue one after the other, as long as one can be served.\<close>

fun serve_queue :: "dram_params \<Rightarrow> sched_env \<Rightarrow> tick \<Rightarrow> nat \<Rightarrow> dram_packet list \<Rightarrow> dram_packet list \<Rightarrow>
    (dram_packet list \<times> dram_packet list) res" where
  "serve_queue p E x 0 q out = Inr (out, q)"
| "serve_queue p E x (Suc n) q out =
     (if q = [] then Inr (out, q)
      else bindE (chooseNext p E q x) (\<lambda>(q', f).
             if f then serve_queue p E x n (tl q') (out @ [hd q']) else Inr (out, q')))"

lemma serve_queue_eq: "serve_queue p E x n q out = sched.serve (p, E, x) n q out"
  by (induction n arbitrary: q out) (auto intro!: arg_cong [where f = "bindE _"])


text \<open>C11: first-ready first-come scheduling: the oldest packet that hits an open row and needs
  no extra delay goes first; with priority for the CPU, the oldest such packet of the CPU does.\<close>

theorem first_ready_goes_first:
  assumes "sched_ok p E queue"
  shows "(first_pos (seamless_hit E (min_col p E x)) queue = Some k \<longrightarrow>
            reorderQueue p E queue x = Inr (move_front k queue, True)) \<and>
         (first_pos (\<lambda>dp. seamless_hit E (min_col p E x) dp \<and> is_cpu dp) queue = Some k \<longrightarrow>
            reorderQueueCPUPrio p E queue x = Inr (move_front k queue, True))"
  using reorderQueue_seamless [OF assms] reorderQueueCPUPrio_seamless [OF assms] by blast

text \<open>The column of a burst, which the controller does not need.\<close>

definition column_of :: "dram_params \<Rightarrow> nat \<Rightarrow> nat" where
  "column_of p a =
     (case addrMapping p of
        RoCoRaBaCh \<Rightarrow> a div (banksPerRank p * ranksPerChannel p) mod columnsPerRowBuffer p
      | _ \<Rightarrow> a mod columnsPerRowBuffer p)"

lemma mixed_radix_unique:
  assumes "(a :: nat) mod n = b mod n" and "a div n = b div n"
  shows "a = b"
  using assms by (metis div_mult_mod_eq)

lemma div_same: "(a :: nat) div n div m = a div (n * m)"
  by (simp add: div_mult2_eq)

lemma map_addr_unique:
  assumes "map_addr p a = map_addr p b" and "column_of p a = column_of p b"
    and "channels p = 1" and "columnsPerStripe p = 1"
    and "a < rowsPerBank p * (ranksPerChannel p * banksPerRank p * columnsPerRowBuffer p)"
    and "b < rowsPerBank p * (ranksPerChannel p * banksPerRank p * columnsPerRowBuffer p)"
  shows "a = b"
proof -
  let ?C = "columnsPerRowBuffer p" and ?B = "banksPerRank p" and ?R = "ranksPerChannel p"
  have row: "x div (?C * ?B * ?R) mod rowsPerBank p = x div (?C * ?B * ?R)"
    if "x < rowsPerBank p * (?R * ?B * ?C)" for x
  proof -
    have "x div (?C * ?B * ?R) < rowsPerBank p"
      using that by (simp add: less_mult_imp_div_less ac_simps)
    then show ?thesis by simp
  qed
  show ?thesis
  proof (cases "addrMapping p = RoCoRaBaCh")
    case True
    have "a mod ?B = b mod ?B" "a div ?B mod ?R = b div ?B mod ?R" "a div (?B * ?R) mod ?C = b div (?B * ?R) mod ?C"
      "a div (?C * ?B * ?R) = b div (?C * ?B * ?R)"
      using assms True row [OF assms(5)] row [OF assms(6)]
      by (simp_all add: map_addr_def split_bank_def column_of_def Let_def div_same ac_simps)
    then show ?thesis using mixed_radix_unique [of "a div (?B * ?R)" ?C "b div (?B * ?R)"]
        mixed_radix_unique [of "a div ?B" ?R "b div ?B"] mixed_radix_unique [of a ?B b]
      by (simp add: div_same ac_simps)
  next
    case False
    have "a mod ?C = b mod ?C" "a div ?C mod ?B = b div ?C mod ?B" "a div (?C * ?B) mod ?R = b div (?C * ?B) mod ?R"
      "a div (?C * ?B * ?R) = b div (?C * ?B * ?R)"
      using assms False row [OF assms(5)] row [OF assms(6)]
      by (cases "addrMapping p"; simp add: map_addr_def split_bank_def column_of_def Let_def div_same ac_simps)+
    then show ?thesis using mixed_radix_unique [of "a div (?C * ?B)" ?R "b div (?C * ?B)"]
        mixed_radix_unique [of "a div ?C" ?B "b div ?C"] mixed_radix_unique [of a ?C b]
      by (simp add: div_same)
  qed
qed


subsection \<open>The properties at the DDR3 memory\<close>

definition mem4G :: memory where
  "mem4G = \<lparr>mem_start = 0, mem_size = 2 ^ 32, pmem = None, lockedAddrList = [], wakeups = []\<rparr>"

definition ddr3_ctrl :: dram_ctrl where
  "ddr3_ctrl = (DRAMCtrl_init ddr3_params 0 mem4G)
     \<lparr>isTimingMode := True, timeStampOffset := 0, busBusyUntil := 41250,
      ranks := [ddr3_rank\<lparr>pwrStateTick := 0, refreshEvent := Some 7786250\<rparr>]\<rparr>"

lemma ddr3_start: "startup ddr3_params 0 True (DRAMCtrl_init ddr3_params 0 mem4G) = Inr ddr3_ctrl"
  by (simp add: startup_def DRAMCtrl_init_def ddr3_ctrl_def ddr3_fields ddr3_rank_def rank_startup_def ev_schedule_ok
      Rank_init_def tsub_def divCeil_def)

lemma ddr3_ctrl_ok: "ctrl_inv ddr3_params ddr3_ctrl" "queues_bounded ddr3_params ddr3_ctrl" "params_ok ddr3_params"
proof -
  show "ctrl_inv ddr3_params ddr3_ctrl" "queues_bounded ddr3_params ddr3_ctrl"
    using startup_ok [of ddr3_params 0 0 mem4G] ddr3_start by (auto simp: ddr3_fields)
  have "(64 :: nat) = 2 ^ 6" by simp
  then show "params_ok ddr3_params" unfolding params_ok_def ddr3_fields by (auto intro!: exI [of _ 6])
qed

lemma ddr3_ctrl_fields [simp]:
  "readQueue ddr3_ctrl = []" "respQueue ddr3_ctrl = []" "writeQueue ddr3_ctrl = []" "mem ddr3_ctrl = mem4G"
  "busBusyUntil ddr3_ctrl = 41250" "helpers ddr3_ctrl = (\<lambda>_. None)" "outputs ddr3_ctrl = []"
  by (simp_all add: ddr3_ctrl_def DRAMCtrl_init_def)

lemma read64_served: "serves mem4G read64" "fits ddr3_params read64" "req_context (req read64) = Some 0"
  "isRead read64" "\<not> isWrite read64" "\<not> flag_memInhibit read64" "cmd read64 \<noteq> CleanEvict" "needsResponse read64"
  by (simp_all add: serves_def mem4G_def read64_def packet_simps access_def in_range_def access_branch_def mem_read_def
      makeResponse_def fits_def ddr3_fields)

lemma ddr3_banks_closed: "bk \<in> set (banks ddr3_rank) \<Longrightarrow> openRow bk = NO_ROW \<and> actAllowedAt bk = 0"
  using ddr3_rank_bank(1,2) by (auto simp: in_set_conv_nth Bank_init_def)

lemma ddr3_time_ok:
  assumes "map banks (ranks c) = [banks ddr3_rank]"
  shows "time_ok ddr3_params 100 c"
  using ddr3_banks_closed by (simp add: time_ok_eq assms ddr3_fields bank_act_at_def MaxTick_def)


definition ddr3_loaded :: dram_ctrl where
  "ddr3_loaded = ddr3_ctrl\<lparr>readQueue := [ddr3_read]\<rparr>"

lemma ddr3_read_ok: "entry_ok ddr3_params True ddr3_read"
  by (simp add: entry_ok_def dp_wf_def ddr3_read_def ddr3_fields NO_ROW_def)

lemma ddr3_loaded_ok: "ctrl_inv ddr3_params ddr3_loaded" "time_ok ddr3_params 100 ddr3_loaded"
proof -
  have "helper_inv ddr3_loaded" by (simp add: helper_inv_def ddr3_loaded_def bursts_waiting_def ddr3_read_def)
  then show "ctrl_inv ddr3_params ddr3_loaded"
    using ddr3_ctrl_ok(1) ddr3_read_ok by (simp add: ctrl_inv_def ddr3_loaded_def burst_of_def resp_inv_def wq_inv_def)
qed (rule ddr3_time_ok, simp add: ddr3_loaded_def ddr3_ctrl_def)

lemma next_request_loses_nothing_witness:
  "\<exists>c'. processNextReqEvent ddr3_params 100 ddr3_loaded = Inr c' \<and> reads_held c' = {#untimed ddr3_read#}"
  using next_request_loses_nothing [OF ddr3_loaded_ok] by (auto simp: ddr3_loaded_def reads_held_def)



definition ddr3_env :: sched_env where
  "ddr3_env = \<lparr>se_now = 100, se_ranks = [ddr3_rank], se_busBusyUntil = 41250\<rparr>"

lemma ddr3_env_ok: "sched_ok ddr3_params ddr3_env [ddr3_read, ddr3_read\<lparr>dp_bank := 3, bankId := 3\<rparr>]"
  "pkt_avail ddr3_env ddr3_read" "pkt_avail ddr3_env (ddr3_read\<lparr>dp_bank := 3, bankId := 3\<rparr>)"
proof -
  show "sched_ok ddr3_params ddr3_env [ddr3_read, ddr3_read\<lparr>dp_bank := 3, bankId := 3\<rparr>]"
    by (simp add: sched_ok_def ddr3_env_def ddr3_fields ddr3_rank_bank(1) ddr3_banks_closed bank_act_at_def MaxTick_def
        dp_wf_def ddr3_read_def NO_ROW_def)
qed (simp_all add: pkt_avail_def isAvailable_def ddr3_env_def ddr3_read_def ddr3_rank_def Rank_init_def)

lemma scheduling_decision_witness:
  "\<exists>q'. chooseNext ddr3_params ddr3_env [ddr3_read, ddr3_read\<lparr>dp_bank := 3, bankId := 3\<rparr>] 0 = Inr (q', True) \<and> length q' = 2"
proof -
  let ?q = "[ddr3_read, ddr3_read\<lparr>dp_bank := 3, bankId := 3\<rparr>]"
  obtain q' f where q: "chooseNext ddr3_params ddr3_env ?q 0 = Inr (q', f)" "mset q' = mset ?q"
      "f \<longleftrightarrow> (\<exists>dp \<in> set ?q. pkt_avail ddr3_env dp)"
    using scheduling_decision [OF ddr3_env_ok(1), of 0] by blast
  have "length q' = 2" using mset_eq_length [OF q(2)] by simp
  then show ?thesis using q ddr3_env_ok(2) by simp
qed


lemma first_ready_goes_first_witness:
  "let E = ddr3_env\<lparr>se_ranks := [upd_bank 3 (\<lambda>bk. bk\<lparr>openRow := 5\<rparr>) ddr3_rank]\<rparr>;
       second = ddr3_read\<lparr>dp_bank := 3, bankId := 3\<rparr>
   in reorderQueue ddr3_params E [ddr3_read, second] 0 = Inr ([second, ddr3_read], True)"
proof -
  let ?rk = "upd_bank 3 (\<lambda>bk. bk\<lparr>openRow := 5\<rparr>) ddr3_rank"
  let ?E = "ddr3_env\<lparr>se_ranks := [?rk]\<rparr>" and ?q = "[ddr3_read, ddr3_read\<lparr>dp_bank := 3, bankId := 3\<rparr>]"
  have b: "banks ?rk = (banks ddr3_rank)[3 := (banks ddr3_rank ! 3)\<lparr>openRow := 5\<rparr>]" by (simp add: upd_bank_def)
  have s: "sched_ok ddr3_params ?E ?q"
  proof -
    have "actAllowedAt bk = 0 \<and> preAllowedAt bk = 0" if "bk \<in> set (banks ?rk)" for bk
    proof -
      obtain i where "i < 8" "bk = banks ?rk ! i" using \<open>bk \<in> set (banks ?rk)\<close> ddr3_rank_bank(1)
        by (auto simp: in_set_conv_nth)
      then show ?thesis using ddr3_rank_bank(1,2) by (cases "i = 3") (simp_all add: Bank_init_def)
    qed
    then have "\<forall>bk \<in> set (banks ?rk). bank_act_at ddr3_params ?E bk \<le> MaxTick"
      by (simp add: bank_act_at_def ddr3_env_def MaxTick_def ddr3_fields)
    then show ?thesis using ddr3_env_ok(1) ddr3_rank_bank(1) unfolding sched_ok_def ddr3_env_def by simp
  qed
  have bk: "banks ?rk ! 2 = Bank_init\<lparr>bank_no := 2, bankgr := 2\<rparr>"
    "banks ?rk ! 3 = Bank_init\<lparr>bank_no := 3, bankgr := 3, openRow := 5\<rparr>"
    using ddr3_rank_bank(1,2) by (simp_all add: b)
  have "first_pos (seamless_hit ?E (min_col ddr3_params ?E 0)) ?q = Some 1"
    using bk ddr3_env_ok(2)
    by (simp add: seamless_hit_def row_hit_def pkt_bank_def pkt_avail_def ddr3_env_def ddr3_read_def Bank_init_def NO_ROW_def
        isAvailable_def upd_bank_def)
  then show ?thesis using first_ready_goes_first [OF s, of 0 1] by (simp add: Let_def move_front_def)
qed


end
