(* ===== verification/DRAMCache_Tags.thy ===== *)
theory DRAMCache_Tags
  imports DRAM_Ctrl
begin

text \<open>
  The tag side of the DRAM cache, \<^verbatim>\<open>src/gem5/src/mem/dramcache_ctrl.hh\<close> and
  \<^verbatim>\<open>src/gem5/src/mem/dramcache_ctrl.cc\<close>: the derived constants, the split of an address into set and tag
  and the place of a set in the DRAM array, the tag directory with the lookup, the LRU store of bypass
  tags, and the hit predictor. Three things that the cache uses are outside of the sources and are
  parameters in \<open>cache_params\<close>: the lookup of the counting Bloom filter (a function of the sequence of
  \<^verbatim>\<open>add\<close> and \<^verbatim>\<open>remove\<close> calls that the filter has seen), the numbers that the random generator draws,
  and (as an argument of the handlers) the flag \<^verbatim>\<open>CudaGPU::running\<close>.
\<close>

unbundle bit_operations_syntax

section \<open>Parameters\<close>

datatype bf_op = BfAdd addr | BfRemove addr

record cache_config =
  dramcache_block_size :: nat
  dramcache_write_allocate :: bool
  mshrs :: nat
  write_buffers :: nat
  tgts_per_mshr :: nat
  dramcache_timing :: bool
  fill_high_thresh_perc :: nat
  fill_buffer_size :: nat
  prediction_accuracy :: nat
  bypass_tag_enable :: bool
  bypass_tag_size :: nat
  dirty_clean_bypass_enable :: bool
  bloom_filter_enable :: bool

text \<open>The defaults of \<^verbatim>\<open>DRAMCacheCtrl\<close> with the queue sizes of \<^verbatim>\<open>HMC_2500_x32_Cache\<close>, in timing mode.\<close>

definition HMC_cache_config :: cache_config where
  "HMC_cache_config =
     \<lparr>dramcache_block_size = 128, dramcache_write_allocate = False, mshrs = 1024, write_buffers = 8192,
      tgts_per_mshr = 16, dramcache_timing = True, fill_high_thresh_perc = 85, fill_buffer_size = 64,
      prediction_accuracy = 95, bypass_tag_enable = False, bypass_tag_size = 64,
      dirty_clean_bypass_enable = False, bloom_filter_enable = True\<rparr>"

record cache_params =
  dramCache_block_size :: nat
  dramCache_num_sets :: nat
  dramCache_write_allocate :: bool
  totalRows :: nat
  numTarget :: nat
  dramCacheTimingMode :: bool
  fillBufferSize :: nat
  fillHighThreshold :: nat
  predAccuracy :: nat
  bypassTagEnable :: bool
  bypassTagSize :: nat
  dirtyCleanBypassEnable :: bool
  bloomFilterEnable :: bool
  cbf_lookup :: "bf_op list \<Rightarrow> addr \<Rightarrow> nat"
  randomDraw :: "nat \<Rightarrow> nat"

text \<open>
  The constructor: the rows per bank of the underlying controller and the number of sets come from
  the capacity of the devices, fifteen sets to a row.
\<close>

definition DRAMCacheCtrl_new ::
  "dram_config \<Rightarrow> cache_config \<Rightarrow> (bf_op list \<Rightarrow> addr \<Rightarrow> nat) \<Rightarrow> (nat \<Rightarrow> nat) \<Rightarrow> dram_params \<Rightarrow>
     dram_params \<times> cache_params" where
  "DRAMCacheCtrl_new d k lookup draw p =
     (let deviceCapacity = device_size d div (1024 * 1024) * devices_per_rank d * cfg_ranks_per_channel d;
          rowBufferSize = devices_per_rank d * device_rowbuffer_size d;
          rows = (1024 * 1024 * deviceCapacity) div (rowBufferSize * banksPerRank p * ranksPerChannel p);
          total = (1024 * 1024 * deviceCapacity) div rowBufferSize
      in (p\<lparr>rowsPerBank := rows\<rparr>,
          \<lparr>dramCache_block_size = dramcache_block_size k, dramCache_num_sets = total * 15,
           dramCache_write_allocate = dramcache_write_allocate k, totalRows = total,
           numTarget = tgts_per_mshr k, dramCacheTimingMode = dramcache_timing k,
           fillBufferSize = fill_buffer_size k,
           fillHighThreshold = fill_buffer_size k * fill_high_thresh_perc k div 100,
           predAccuracy = prediction_accuracy k, bypassTagEnable = bypass_tag_enable k,
           bypassTagSize = bypass_tag_size k, dirtyCleanBypassEnable = dirty_clean_bypass_enable k,
           bloomFilterEnable = bloom_filter_enable k, cbf_lookup = lookup, randomDraw = draw\<rparr>))"

section \<open>Addresses\<close>

definition blockAlign :: "cache_params \<Rightarrow> addr \<Rightarrow> addr" where
  "blockAlign k a = a AND NOT (word_of_nat (dramCache_block_size k) - 1)"

text \<open>The three results are \<^verbatim>\<open>unsigned int\<close>: the block number is cut to 32 bits.\<close>

definition getSetTagFromAddr :: "cache_params \<Rightarrow> addr \<Rightarrow> nat \<times> nat" where
  "getSetTagFromAddr k a =
     (let cacheBlock = unat a div dramCache_block_size k mod 2 ^ 32;
          cacheSet = cacheBlock mod dramCache_num_sets k mod 2 ^ 32;
          cacheTag = cacheBlock div dramCache_num_sets k mod 2 ^ 32
      in (cacheSet, cacheTag))"

definition regenerateBlkAddr :: "cache_params \<Rightarrow> nat \<Rightarrow> u64 \<Rightarrow> addr" where
  "regenerateBlkAddr k s t =
     (t * word_of_nat (dramCache_num_sets k) + word_of_nat s) * word_of_nat (dramCache_block_size k)"

text \<open>
  The number of the first burst of a block in the DRAM array, as computed in \<^verbatim>\<open>addToReadQueue\<close>,
  \<^verbatim>\<open>addToWriteQueue\<close> and \<^verbatim>\<open>addToFillQueue\<close>: \<open>n\<close> bursts to a set, and two unused bursts to each row
  of fifteen sets.
\<close>

definition set_burst :: "cache_params \<Rightarrow> nat \<Rightarrow> addr \<Rightarrow> addr" where
  "set_burst k n a =
     (let s = unat a div dramCache_block_size k mod dramCache_num_sets k;
          cacheRow = s div 15
      in word_of_nat (s * n + cacheRow * 2))"

text \<open>
  \<^verbatim>\<open>decodeAddr\<close> of the cache: a burst number is not divided by the burst size again, and for the third
  address mapping rank, bank and row are used without having been set.
\<close>

definition cache_decodeAddr ::
  "dram_params \<Rightarrow> tick \<Rightarrow> packet \<Rightarrow> addr \<Rightarrow> nat \<Rightarrow> bool \<Rightarrow> dram_packet res" where
  "cache_decodeAddr p now pkt dramPktAddr size' isRd =
     (if addrMapping p = RoRaBaChCo then Inl (Undefined ''rank, bank and row are not set'')
      else has_context pkt (make_dram_packet p now pkt dramPktAddr size' isRd (map_addr p (unat dramPktAddr))))"

section \<open>The tag directory\<close>

record cache_set =
  tag :: u64
  valid :: bool
  dirty :: bool

record tag_dir =
  sets :: "nat \<Rightarrow> cache_set"
  isGPUOwned :: "nat \<Rightarrow> bool"
  total_gpu_lines :: u64
  total_gpu_dirty_lines :: u64
  max_gpu_lines_sample_counter :: nat
  cbf :: "bf_op list"

definition tag_dir_init :: tag_dir where
  "tag_dir_init = \<lparr>sets = (\<lambda>_. \<lparr>tag = 0, valid = False, dirty = False\<rparr>), isGPUOwned = (\<lambda>_. False),
                   total_gpu_lines = 0, total_gpu_dirty_lines = 0, max_gpu_lines_sample_counter = 0, cbf = []\<rparr>"

abbreviation upd_set :: "nat \<Rightarrow> cache_set \<Rightarrow> tag_dir \<Rightarrow> tag_dir" where
  "upd_set s l d \<equiv> d\<lparr>sets := (sets d)(s := l)\<rparr>"

definition bf_do :: "cache_params \<Rightarrow> bf_op \<Rightarrow> tag_dir \<Rightarrow> tag_dir" where
  "bf_do k x d = (if bloomFilterEnable k then d\<lparr>cbf := cbf d @ [x]\<rparr> else d)"

definition set_hit :: "cache_params \<Rightarrow> tag_dir \<Rightarrow> addr \<Rightarrow> bool" where
  "set_hit k d a = (case getSetTagFromAddr k a of (s, t) \<Rightarrow> tag (sets d s) = word_of_nat t \<and> valid (sets d s))"

text \<open>The GPU has context 31. Every tenth GPU access recounts the lines that the GPU owns.\<close>

definition sample_gpu_lines :: "cache_params \<Rightarrow> tag_dir \<Rightarrow> tag_dir" where
  "sample_gpu_lines k d =
     (let n = (max_gpu_lines_sample_counter d + 1) mod 10;
          d1 = d\<lparr>max_gpu_lines_sample_counter := n\<rparr>
      in if n = 0 then d1\<lparr>total_gpu_lines := word_of_nat (count_if (isGPUOwned d1) [0 ..< dramCache_num_sets k])\<rparr>
         else d1)"

definition lookup_hit :: "cache_params \<Rightarrow> bool \<Rightarrow> packet \<Rightarrow> nat \<Rightarrow> tag_dir \<Rightarrow> tag_dir" where
  "lookup_hit k gpu pkt s d =
     (let d1 = d\<lparr>isGPUOwned := (isGPUOwned d)(s := gpu)\<rparr> in
      if isRead pkt then d1
      else
        let d2 = (if \<not> dirty (sets d1 s) \<and> isGPUOwned d1 s
                  then d1\<lparr>total_gpu_dirty_lines := total_gpu_dirty_lines d1 + 1\<rparr> else d1)
        in if dirty (sets d2 s) then d2
           else upd_set s ((sets d2 s)\<lparr>dirty := True\<rparr>) (bf_do k (BfAdd (blockAlign k (pkt_addr pkt))) d2))"

definition lookup_miss :: "cache_params \<Rightarrow> bool \<Rightarrow> packet \<Rightarrow> nat \<Rightarrow> tag_dir \<Rightarrow> tag_dir" where
  "lookup_miss k gpu pkt s d =
     (let d1 = (if valid (sets d s) \<and> isGPUOwned d s \<and> dirty (sets d s)
                then d\<lparr>total_gpu_dirty_lines := total_gpu_dirty_lines d - 1\<rparr> else d)
      in if \<not> isRead pkt \<and> gpu \<and> \<not> (dirty (sets d1 s) \<and> isGPUOwned d1 s) \<and> dramCache_write_allocate k
         then d1\<lparr>total_gpu_dirty_lines := total_gpu_dirty_lines d1 + 1\<rparr> else d1)"

definition is_gpu :: "packet \<Rightarrow> bool" where
  "is_gpu pkt \<longleftrightarrow> contextId_of (req pkt) = 31"

definition doCacheLookup :: "cache_params \<Rightarrow> tag_dir \<Rightarrow> packet \<Rightarrow> (tag_dir \<times> bool) res" where
  "doCacheLookup k d pkt =
     (let s = fst (getSetTagFromAddr k (pkt_addr pkt)) in
      assertE ''cacheSet < dramCache_num_sets'' (s < dramCache_num_sets k)
      (let d1 = (if is_gpu pkt then sample_gpu_lines k d else d) in
       Inr (if set_hit k d1 (pkt_addr pkt) then (lookup_hit k (is_gpu pkt) pkt s d1, True)
            else (lookup_miss k (is_gpu pkt) pkt s d1, False))))"

text \<open>The effect of a write-back and of a fill on the directory.\<close>

definition clear_line :: "nat \<Rightarrow> tag_dir \<Rightarrow> tag_dir" where
  "clear_line s d = upd_set s ((sets d s)\<lparr>valid := False, dirty := False\<rparr>) d"

definition fill_line :: "nat \<Rightarrow> nat \<Rightarrow> bool \<Rightarrow> tag_dir \<Rightarrow> tag_dir" where
  "fill_line s t gpu d =
     (upd_set s \<lparr>tag = word_of_nat t, valid = True, dirty = False\<rparr> d)\<lparr>isGPUOwned := (isGPUOwned d)(s := gpu)\<rparr>"

section \<open>The bypass tag store\<close>

text \<open>A list of block addresses, the most recent one first.\<close>

definition insertIntoBypassTag :: "cache_params \<Rightarrow> addr \<Rightarrow> addr list \<Rightarrow> addr list res" where
  "insertIntoBypassTag k a ts =
     (if length ts = bypassTagSize k then
        if ts = [] then Inl (Undefined ''pop_back'') else Inr (blockAlign k a # butlast ts)
      else Inr (blockAlign k a # ts))"

definition bypass_isHit :: "cache_params \<Rightarrow> addr \<Rightarrow> addr list \<Rightarrow> addr list \<times> bool" where
  "bypass_isHit k a ts =
     (let b = blockAlign k a in if b \<in> set ts then (b # remove1 b ts, True) else (ts, False))"

definition removeFromBypassTag :: "cache_params \<Rightarrow> addr \<Rightarrow> addr list \<Rightarrow> addr list \<times> bool" where
  "removeFromBypassTag k a ts =
     (let b = blockAlign k a in if b \<in> set ts then (remove1 b ts, True) else (ts, False))"

section \<open>The predictor\<close>

definition hash_pc :: "u64 \<Rightarrow> u64" where
  "hash_pc pc = fold (\<lambda>i h. h XOR drop_bit (i * 8) pc) [1 ..< 8] pc AND 0xff"

type_synonym predictor = "nat \<times> u64 \<Rightarrow> u8"

definition predict :: "predictor \<Rightarrow> nat \<Rightarrow> u64 \<Rightarrow> bool" where
  "predict t cid pc \<longleftrightarrow> \<not> t (cid, hash_pc pc) > 3"

definition decMac :: "predictor \<Rightarrow> nat \<Rightarrow> u64 \<Rightarrow> predictor" where
  "decMac t cid pc =
     (if t (cid, hash_pc pc) \<noteq> 0 then t((cid, hash_pc pc) := t (cid, hash_pc pc) - 1) else t)"

definition incMac :: "predictor \<Rightarrow> nat \<Rightarrow> u64 \<Rightarrow> predictor" where
  "incMac t cid pc =
     (if t (cid, hash_pc pc) \<noteq> 8 then t((cid, hash_pc pc) := t (cid, hash_pc pc) + 1) else t)"

text \<open>The static predictor knows the answer and is right with the accuracy asked for.\<close>

definition predict_static :: "cache_params \<Rightarrow> tag_dir \<Rightarrow> nat \<Rightarrow> addr \<Rightarrow> bool" where
  "predict_static k d drawn blk_addr =
     (let ok = randomDraw k drawn < predAccuracy k in if set_hit k d blk_addr then ok else \<not> ok)"

section \<open>Set, tag and place of a block\<close>

definition cache_ok :: "cache_params \<Rightarrow> bool" where
  "cache_ok k \<longleftrightarrow> (\<exists>b < 32. dramCache_block_size k = 2 ^ b) \<and> 0 < dramCache_num_sets k \<and> dramCache_num_sets k < 2 ^ 32"

text \<open>The blocks whose number fits into the 32 bits that the split keeps.\<close>

definition in_reach :: "cache_params \<Rightarrow> addr \<Rightarrow> bool" where
  "in_reach k a \<longleftrightarrow> unat a div dramCache_block_size k < 2 ^ 32"

lemma set_in_range: "cache_ok k \<Longrightarrow> fst (getSetTagFromAddr k a) < dramCache_num_sets k"
  by (simp add: getSetTagFromAddr_def cache_ok_def Let_def)
     (metis mod_less_divisor mod_less_eq_dividend order_le_less_trans)

lemma getSetTag_reach:
  assumes "cache_ok k" and "in_reach k a"
  shows "getSetTagFromAddr k a =
           (unat a div dramCache_block_size k mod dramCache_num_sets k,
            unat a div dramCache_block_size k div dramCache_num_sets k)"
proof -
  let ?b = "unat a div dramCache_block_size k"
  have b: "?b < 2 ^ 32" using assms(2) by (simp add: in_reach_def)
  then have "?b mod dramCache_num_sets k < 2 ^ 32" "?b div dramCache_num_sets k < 2 ^ 32"
    using mod_less_eq_dividend [of ?b "dramCache_num_sets k"] div_le_dividend [of ?b "dramCache_num_sets k"]
    by linarith+
  then show ?thesis using b by (simp add: getSetTagFromAddr_def Let_def del: power_numeral)
qed

lemma unat_blockAlign:
  assumes "cache_ok k"
  shows "unat (blockAlign k a) = unat a div dramCache_block_size k * dramCache_block_size k"
proof -
  obtain b where b: "b < 32" "dramCache_block_size k = 2 ^ b" using assms by (auto simp: cache_ok_def)
  then show ?thesis using unat_align [of b a] by (simp add: blockAlign_def)
qed

lemma blockAlign_div:
  assumes "cache_ok k"
  shows "unat (blockAlign k a) div dramCache_block_size k = unat a div dramCache_block_size k"
proof -
  have "0 < dramCache_block_size k" using assms by (auto simp: cache_ok_def)
  then show ?thesis using unat_blockAlign [OF assms, of a] by simp
qed

lemma blockAlign_idem: "cache_ok k \<Longrightarrow> blockAlign k (blockAlign k a) = blockAlign k a"
  by (intro word_unat_eq_iff [THEN iffD2]) (simp add: unat_blockAlign blockAlign_div)

lemma getSetTag_blockAlign: "cache_ok k \<Longrightarrow> getSetTagFromAddr k (blockAlign k a) = getSetTagFromAddr k a"
  by (simp add: getSetTagFromAddr_def blockAlign_div)

lemma in_reach_blockAlign: "cache_ok k \<Longrightarrow> in_reach k (blockAlign k a) \<longleftrightarrow> in_reach k a"
  by (simp add: in_reach_def blockAlign_div)

lemma regenerate_of_nat:
  "regenerateBlkAddr k s (word_of_nat t) = word_of_nat ((t * dramCache_num_sets k + s) * dramCache_block_size k)"
  by (simp add: regenerateBlkAddr_def)

lemma regenerate_getSetTag:
  assumes "cache_ok k" and "in_reach k a" and "getSetTagFromAddr k a = (s, t)"
  shows "regenerateBlkAddr k s (word_of_nat t) = blockAlign k a"
proof -
  have "t * dramCache_num_sets k + s = unat a div dramCache_block_size k"
    using assms(3) by (auto simp: getSetTag_reach [OF assms(1,2)])
  then have "regenerateBlkAddr k s (word_of_nat t) = word_of_nat (unat (blockAlign k a))"
    by (simp only: regenerate_of_nat unat_blockAlign [OF assms(1)])
  then show ?thesis by (simp del: unat_blockAlign)
qed

lemma unat_regenerate:
  assumes "cache_ok k" and "t * dramCache_num_sets k + s < 2 ^ 32"
  shows "unat (regenerateBlkAddr k s (word_of_nat t)) = (t * dramCache_num_sets k + s) * dramCache_block_size k"
proof -
  obtain b where b: "b < 32" "dramCache_block_size k = 2 ^ b" using assms by (auto simp: cache_ok_def)
  have "(t * dramCache_num_sets k + s) * dramCache_block_size k < 2 ^ 32 * 2 ^ b"
    using assms(2) b by simp
  also have "\<dots> \<le> 2 ^ 32 * 2 ^ 32" using b(1) by (intro mult_le_mono power_increasing) simp_all
  finally show ?thesis
    by (simp add: regenerate_of_nat unat_of_nat take_bit_nat_eq_self del: of_nat_mult of_nat_add)
qed

lemma getSetTag_regenerate:
  assumes "cache_ok k" and "s < dramCache_num_sets k" and "t * dramCache_num_sets k + s < 2 ^ 32"
  shows "getSetTagFromAddr k (regenerateBlkAddr k s (word_of_nat t)) = (s, t)"
    and "in_reach k (regenerateBlkAddr k s (word_of_nat t))"
proof -
  have "0 < dramCache_block_size k" using assms(1) by (auto simp: cache_ok_def)
  then have d: "unat (regenerateBlkAddr k s (word_of_nat t)) div dramCache_block_size k = t * dramCache_num_sets k + s"
    by (simp add: unat_regenerate [OF assms(1,3)])
  then show r: "in_reach k (regenerateBlkAddr k s (word_of_nat t))" using assms(3) by (simp add: in_reach_def)
  show "getSetTagFromAddr k (regenerateBlkAddr k s (word_of_nat t)) = (s, t)"
    unfolding getSetTag_reach [OF assms(1) r] d using assms(2) by simp
qed

text \<open>The numbers of the bursts in the array.\<close>

lemma set_burst_eq:
  fixes a :: addr
  assumes "cache_ok k"
  defines "s \<equiv> unat a div dramCache_block_size k mod dramCache_num_sets k"
  shows "unat (set_burst k 2 a) = 32 * (s div 15) + 2 * (s mod 15)"
proof -
  have "s < dramCache_num_sets k" "dramCache_num_sets k < 2 ^ 32" using assms(1) by (simp_all add: s_def cache_ok_def)
  then have l: "s * 2 + s div 15 * 2 < 2 ^ 64" using div_le_dividend [of s 15] by simp
  have "s * 2 + s div 15 * 2 = 32 * (s div 15) + 2 * (s mod 15)"
    using div_mult_mod_eq [of s 15] by linarith
  then show ?thesis
    using l by (simp add: set_burst_def Let_def s_def [symmetric] unat_of_nat take_bit_nat_eq_self
        del: of_nat_mult of_nat_add)
qed

text \<open>A device whose rows have 32 bursts, and fifteen sets for each of its rows.\<close>

definition geometry_ok :: "dram_params \<Rightarrow> cache_params \<Rightarrow> bool" where
  "geometry_ok p k \<longleftrightarrow>
     params_ok p \<and> cache_ok k \<and> channels p = 1 \<and> columnsPerStripe p = 1 \<and> columnsPerRowBuffer p = 32 \<and>
     addrMapping p \<noteq> RoRaBaChCo \<and> totalRows k = rowsPerBank p * (ranksPerChannel p * banksPerRank p) \<and>
     dramCache_num_sets k = totalRows k * 15"

definition burst_no :: "cache_params \<Rightarrow> addr \<Rightarrow> nat \<Rightarrow> nat" where
  "burst_no k a i = unat (set_burst k 2 a) + i"

lemma burst_no_bounds:
  assumes "geometry_ok p k" and "i < 2"
  shows "burst_no k a i < rowsPerBank p * (ranksPerChannel p * banksPerRank p * columnsPerRowBuffer p)"
    and "burst_no k a i mod 32 < 30" and "burst_no k a i div 32 < totalRows k"
proof -
  let ?s = "unat a div dramCache_block_size k mod dramCache_num_sets k"
  have ok: "cache_ok k" using assms by (simp add: geometry_ok_def)
  have e: "burst_no k a i = 32 * (?s div 15) + (2 * (?s mod 15) + i)"
    by (simp add: burst_no_def set_burst_eq [OF ok])
  have "?s mod 15 < 15" by simp
  then have lt: "2 * (?s mod 15) + i < 30" using assms(2) by linarith
  have "?s < dramCache_num_sets k" using ok by (simp add: cache_ok_def)
  then have "?s < totalRows k * 15" using assms(1) by (metis geometry_ok_def)
  then have r: "?s div 15 < totalRows k" by (simp add: less_mult_imp_div_less)
  show "burst_no k a i mod 32 < 30" using lt by (simp add: e)
  show "burst_no k a i div 32 < totalRows k" using lt r by (simp add: e)
  then have "burst_no k a i < totalRows k * 32" by (simp add: div_less_iff_less_mult)
  then show "burst_no k a i < rowsPerBank p * (ranksPerChannel p * banksPerRank p * columnsPerRowBuffer p)"
    using assms(1) by (simp add: geometry_ok_def ac_simps)
qed

lemma tad_arith:
  fixes q r q' r' i j :: nat
  assumes "32 * q + 2 * r + i = 32 * q' + 2 * r' + j" and "i < 2" and "j < 2" and "r < 15" and "r' < 15"
  shows "i = j \<and> q = q' \<and> r = r'"
proof -
  have "i = j" using assms(1-3) by presburger
  then have e: "16 * q + r = 16 * q' + r'" using assms(1) by linarith
  then have "q = q'" using assms(4,5) by linarith
  then show ?thesis using e \<open>i = j\<close> by simp
qed

lemma burst_no_inj:
  assumes "cache_ok k" and "burst_no k a i = burst_no k b j" and "i < 2" and "j < 2"
  shows "i = j" and "unat a div dramCache_block_size k mod dramCache_num_sets k =
                     unat b div dramCache_block_size k mod dramCache_num_sets k"
proof -
  let ?s = "unat a div dramCache_block_size k mod dramCache_num_sets k"
  let ?t = "unat b div dramCache_block_size k mod dramCache_num_sets k"
  have "32 * (?s div 15) + 2 * (?s mod 15) + i = 32 * (?t div 15) + 2 * (?t mod 15) + j"
    using assms(2) by (simp add: burst_no_def set_burst_eq [OF assms(1)])
  then have h: "i = j \<and> ?s div 15 = ?t div 15 \<and> ?s mod 15 = ?t mod 15"
    by (rule tad_arith) (use assms in simp_all)
  then show "i = j" by simp
  show "?s = ?t" using h by (metis div_mult_mod_eq)
qed

section \<open>The bypass tag store is an LRU store\<close>

text \<open>
  The specification: every block in the store has the time of its last use; a full store gives up the
  block that has not been used for the longest time.
\<close>

type_synonym lru = "nat \<times> (addr \<rightharpoonup> nat)"

definition lru_oldest :: "(addr \<rightharpoonup> nat) \<Rightarrow> addr \<Rightarrow> bool" where
  "lru_oldest m a \<longleftrightarrow> a \<in> dom m \<and> (\<forall>b \<in> dom m. the (m a) \<le> the (m b))"

definition lru_use :: "addr \<Rightarrow> lru \<Rightarrow> lru \<times> bool" where
  "lru_use a = (\<lambda>(t, m). if a \<in> dom m then ((t + 1, m(a \<mapsto> t)), True) else ((t, m), False))"

definition lru_remove :: "addr \<Rightarrow> lru \<Rightarrow> lru \<times> bool" where
  "lru_remove a = (\<lambda>(t, m). ((t, m(a := None)), a \<in> dom m))"

definition lru_insert :: "nat \<Rightarrow> addr \<Rightarrow> lru \<Rightarrow> lru \<Rightarrow> bool" where
  "lru_insert n a = (\<lambda>(t, m) s'.
     if card (dom m) = n then \<exists>b. lru_oldest m b \<and> s' = (t + 1, (m(b := None))(a \<mapsto> t))
     else s' = (t + 1, m(a \<mapsto> t)))"

text \<open>The list holds the blocks of the map, the one used last in front.\<close>

definition stamps :: "(addr \<rightharpoonup> nat) \<Rightarrow> addr list \<Rightarrow> nat list" where
  "stamps m ts = map (\<lambda>a. the (m a)) ts"

definition lru_rel :: "nat \<Rightarrow> addr list \<Rightarrow> lru \<Rightarrow> bool" where
  "lru_rel n ts s \<longleftrightarrow>
     distinct ts \<and> length ts \<le> n \<and> set ts = dom (snd s) \<and> (\<forall>x \<in> set (stamps (snd s) ts). x < fst s) \<and>
     sorted_wrt (>) (stamps (snd s) ts)"

lemma stamps_upd [simp]: "b \<notin> set ts \<Longrightarrow> stamps (m(b := v)) ts = stamps m ts"
  by (auto simp: stamps_def)

lemma stamps_simps [simp]: "stamps m [] = []" "stamps m (a # ts) = the (m a) # stamps m ts"
  "stamps m (ts @ us) = stamps m ts @ stamps m us"
  by (simp_all add: stamps_def)

lemma lru_rel_remove:
  assumes "lru_rel n ts (t, m)"
  shows "lru_rel n (remove1 b ts) (t, m(b := None))"
proof (cases "b \<in> set ts")
  case True
  then obtain xs ys where ts: "ts = xs @ b # ys" "b \<notin> set xs" by (metis split_list_first)
  then have r: "remove1 b ts = xs @ ys" by (simp add: remove1_append)
  have b: "b \<notin> set ys" using assms ts by (simp add: lru_rel_def)
  have "set (xs @ ys) = dom m - {b}" using assms ts b by (auto simp: lru_rel_def)
  then have "lru_rel n (xs @ ys) (t, m(b := None))"
    using assms ts b by (auto simp: lru_rel_def sorted_wrt_append)
  then show ?thesis by (simp only: r)
next
  case False
  then have "m(b := None) = m" using assms by (auto simp: lru_rel_def)
  then show ?thesis using assms False by (simp add: remove1_idem)
qed

lemma lru_rel_front:
  assumes "lru_rel n ts (t, m)" and "b \<notin> set ts" and "length ts < n"
  shows "lru_rel n (b # ts) (t + 1, m(b \<mapsto> t))"
  using assms by (auto simp: lru_rel_def less_SucI)

lemma lru_hit_refines:
  assumes "lru_rel n ts s"
  shows "lru_rel n (fst (bypass_isHit k a ts)) (fst (lru_use (blockAlign k a) s)) \<and>
         snd (bypass_isHit k a ts) = snd (lru_use (blockAlign k a) s)"
proof (cases "blockAlign k a \<in> set ts")
  case True
  let ?b = "blockAlign k a"
  obtain t m where s: "s = (t, m)" by (cases s)
  have d: "distinct ts" "length ts \<le> n" using assms by (simp_all add: lru_rel_def)
  have "lru_rel n (remove1 ?b ts) (t, m(?b := None))" using assms s by (simp add: lru_rel_remove)
  moreover have "length (remove1 ?b ts) < n"
    using True d length_pos_if_in_set [OF True] by (simp only: length_remove1 if_True)
  ultimately have "lru_rel n (?b # remove1 ?b ts) (t + 1, (m(?b := None))(?b \<mapsto> t))"
    using d by (intro lru_rel_front) simp_all
  then show ?thesis
    using True assms s by (auto simp: bypass_isHit_def lru_use_def Let_def lru_rel_def)
next
  case False
  then show ?thesis using assms by (cases s) (auto simp: bypass_isHit_def lru_use_def Let_def lru_rel_def)
qed

lemma lru_remove_refines:
  assumes "lru_rel n ts s"
  shows "lru_rel n (fst (removeFromBypassTag k a ts)) (fst (lru_remove (blockAlign k a) s)) \<and>
         snd (removeFromBypassTag k a ts) = snd (lru_remove (blockAlign k a) s)"
proof -
  obtain t m where s: "s = (t, m)" by (cases s)
  have "blockAlign k a \<notin> set ts \<Longrightarrow> remove1 (blockAlign k a) ts = ts" by (rule remove1_idem)
  then show ?thesis
    using lru_rel_remove [of n ts t m "blockAlign k a"] assms s
    by (auto simp: removeFromBypassTag_def lru_remove_def Let_def lru_rel_def)
qed

lemma last_is_oldest:
  assumes "lru_rel n ts (t, m)" and "ts \<noteq> []"
  shows "lru_oldest m (last ts)"
proof -
  obtain xs x where ts: "ts = xs @ [x]" using assms(2) by (metis append_butlast_last_id)
  have dom: "dom m = set ts" using assms(1) by (simp add: lru_rel_def)
  have "\<forall>y \<in> set (stamps m xs). the (m x) < y"
    using assms(1) by (simp add: lru_rel_def ts sorted_wrt_append)
  then have "the (m x) \<le> the (m b)" if "b \<in> set ts" for b
    using that by (auto simp: ts stamps_def less_imp_le)
  then show ?thesis unfolding lru_oldest_def dom by (simp add: ts)
qed

lemma lru_insert_refines:
  assumes R: "lru_rel (bypassTagSize k) ts s" and "0 < bypassTagSize k" and new: "blockAlign k a \<notin> set ts"
  shows "\<exists>ts' s'. insertIntoBypassTag k a ts = Inr ts' \<and> lru_insert (bypassTagSize k) (blockAlign k a) s s' \<and>
                  lru_rel (bypassTagSize k) ts' s'"
proof -
  let ?b = "blockAlign k a" and ?n = "bypassTagSize k"
  obtain t m where s: "s = (t, m)" by (cases s)
  have card: "card (dom m) = length ts" using R s by (metis distinct_card lru_rel_def snd_conv)
  show ?thesis
  proof (cases "length ts = ?n")
    case True
    then obtain xs x where ts: "ts = xs @ [x]" using assms(2) by (metis append_butlast_last_id length_greater_0_conv)
    have x: "x \<notin> set xs" using R by (simp add: ts lru_rel_def)
    have "lru_rel ?n (remove1 x ts) (t, m(x := None))" using R s by (simp add: lru_rel_remove)
    then have "lru_rel ?n xs (t, m(x := None))" using x by (simp add: ts remove1_append)
    then have "lru_rel ?n (?b # xs) (t + 1, (m(x := None))(?b \<mapsto> t))"
      using new True by (intro lru_rel_front) (simp_all add: ts)
    moreover have "lru_insert ?n ?b s (t + 1, (m(x := None))(?b \<mapsto> t))"
      using last_is_oldest [of ?n ts t m] R s card True by (auto simp: lru_insert_def ts)
    ultimately show ?thesis using True by (auto simp: insertIntoBypassTag_def ts)
  next
    case False
    then have "length ts < ?n" using R by (simp add: lru_rel_def)
    then have "lru_rel ?n (?b # ts) (t + 1, m(?b \<mapsto> t))" using R s new by (intro lru_rel_front) simp_all
    then show ?thesis using False s card by (auto simp: insertIntoBypassTag_def lru_insert_def)
  qed
qed

text \<open>Sequences of operations on the store, and the same sequences on the specification.\<close>

datatype bypass_op = BHit addr | BRemove addr | BInsert addr

fun bypass_run :: "cache_params \<Rightarrow> bypass_op list \<Rightarrow> addr list \<Rightarrow> (addr list \<times> bool list) res" where
  "bypass_run k [] ts = Inr (ts, [])"
| "bypass_run k (BHit a # xs) ts =
     (let (ts', h) = bypass_isHit k a ts in bindE (bypass_run k xs ts') (\<lambda>(u, hs). Inr (u, h # hs)))"
| "bypass_run k (BRemove a # xs) ts =
     (let (ts', h) = removeFromBypassTag k a ts in bindE (bypass_run k xs ts') (\<lambda>(u, hs). Inr (u, h # hs)))"
| "bypass_run k (BInsert a # xs) ts = bindE (insertIntoBypassTag k a ts) (bypass_run k xs)"

text \<open>No block is inserted while it is in the store.\<close>

fun fresh_inserts :: "cache_params \<Rightarrow> bypass_op list \<Rightarrow> addr list \<Rightarrow> bool" where
  "fresh_inserts k [] ts \<longleftrightarrow> True"
| "fresh_inserts k (BHit a # xs) ts \<longleftrightarrow> fresh_inserts k xs (fst (bypass_isHit k a ts))"
| "fresh_inserts k (BRemove a # xs) ts \<longleftrightarrow> fresh_inserts k xs (fst (removeFromBypassTag k a ts))"
| "fresh_inserts k (BInsert a # xs) ts \<longleftrightarrow>
     blockAlign k a \<notin> set ts \<and> (\<forall>ts'. insertIntoBypassTag k a ts = Inr ts' \<longrightarrow> fresh_inserts k xs ts')"

inductive lru_run :: "cache_params \<Rightarrow> bypass_op list \<Rightarrow> lru \<Rightarrow> lru \<Rightarrow> bool list \<Rightarrow> bool" for k where
  nothing: "lru_run k [] s s []"
| used: "lru_use (blockAlign k a) s = (s1, h) \<Longrightarrow> lru_run k xs s1 s' hs \<Longrightarrow> lru_run k (BHit a # xs) s s' (h # hs)"
| removed: "lru_remove (blockAlign k a) s = (s1, h) \<Longrightarrow> lru_run k xs s1 s' hs \<Longrightarrow> lru_run k (BRemove a # xs) s s' (h # hs)"
| inserted: "lru_insert (bypassTagSize k) (blockAlign k a) s s1 \<Longrightarrow> lru_run k xs s1 s' hs \<Longrightarrow>
    lru_run k (BInsert a # xs) s s' hs"

lemma bypass_run_refines:
  assumes "lru_rel (bypassTagSize k) ts s" and "0 < bypassTagSize k" and "fresh_inserts k xs ts"
  shows "\<exists>ts' hs s'. bypass_run k xs ts = Inr (ts', hs) \<and> lru_run k xs s s' hs \<and> lru_rel (bypassTagSize k) ts' s'"
  using assms
proof (induction k xs ts arbitrary: s rule: bypass_run.induct)
  case (1 k ts)
  then show ?case using lru_run.nothing [of k s] by (cases s) auto
next
  case (2 k a xs ts)
  obtain ts1 h s1 where h: "bypass_isHit k a ts = (ts1, h)" "lru_use (blockAlign k a) s = (s1, h)"
      "lru_rel (bypassTagSize k) ts1 s1"
    using lru_hit_refines [OF 2(2), of k a] by (cases "bypass_isHit k a ts"; cases "lru_use (blockAlign k a) s") auto
  obtain ts' hs s' where "bypass_run k xs ts1 = Inr (ts', hs)" "lru_run k xs s1 s' hs" "lru_rel (bypassTagSize k) ts' s'"
    using "2.IH" [OF h(1) [symmetric] refl h(3) 2(3)] 2(4) h(1) by auto
  then show ?case using h lru_run.used [OF h(2)] by (intro exI [of _ ts'] exI [of _ "h # hs"] exI [of _ s']) simp
next
  case (3 k a xs ts)
  obtain ts1 h s1 where h: "removeFromBypassTag k a ts = (ts1, h)" "lru_remove (blockAlign k a) s = (s1, h)"
      "lru_rel (bypassTagSize k) ts1 s1"
    using lru_remove_refines [OF 3(2), of k a]
    by (cases "removeFromBypassTag k a ts"; cases "lru_remove (blockAlign k a) s") auto
  obtain ts' hs s' where "bypass_run k xs ts1 = Inr (ts', hs)" "lru_run k xs s1 s' hs" "lru_rel (bypassTagSize k) ts' s'"
    using "3.IH" [OF h(1) [symmetric] refl h(3) 3(3)] 3(4) h(1) by auto
  then show ?case using h lru_run.removed [OF h(2)] by (intro exI [of _ ts'] exI [of _ "h # hs"] exI [of _ s']) simp
next
  case (4 k a xs ts)
  then obtain ts1 s1 where h: "insertIntoBypassTag k a ts = Inr ts1"
      "lru_insert (bypassTagSize k) (blockAlign k a) s s1" "lru_rel (bypassTagSize k) ts1 s1"
    using lru_insert_refines [of k ts s a] by auto
  obtain ts' hs s' where "bypass_run k xs ts1 = Inr (ts', hs)" "lru_run k xs s1 s' hs" "lru_rel (bypassTagSize k) ts' s'"
    using "4.IH" [OF h(3) 4(3)] 4(4) h(1) by auto
  then show ?case using h lru_run.inserted [OF h(2)] by (intro exI [of _ ts'] exI [of _ hs] exI [of _ s']) simp
qed

lemma lru_rel_empty: "lru_rel n [] (0, Map.empty)"
  by (simp add: lru_rel_def)

section \<open>The lookup\<close>

lemma sample_gpu_lines_frame [simp]:
  "sets (sample_gpu_lines k d) = sets d" "isGPUOwned (sample_gpu_lines k d) = isGPUOwned d"
  "cbf (sample_gpu_lines k d) = cbf d" "total_gpu_dirty_lines (sample_gpu_lines k d) = total_gpu_dirty_lines d"
  by (simp_all add: sample_gpu_lines_def Let_def)

lemma bf_do_frame [simp]:
  "sets (bf_do k x d) = sets d" "isGPUOwned (bf_do k x d) = isGPUOwned d"
  "cbf (bf_do k x d) = (if bloomFilterEnable k then cbf d @ [x] else cbf d)"
  by (simp_all add: bf_do_def)

lemma lookup_miss_frame [simp]:
  "sets (lookup_miss k g pkt s d) = sets d" "cbf (lookup_miss k g pkt s d) = cbf d"
  "isGPUOwned (lookup_miss k g pkt s d) = isGPUOwned d"
  by (simp_all add: lookup_miss_def Let_def)

lemma set_hit_frame: "sets d = sets d' \<Longrightarrow> set_hit k d a = set_hit k d' a"
  by (simp add: set_hit_def)

text \<open>The lookup as a whole: the answer, the sets, the owners and the calls of the filter.\<close>

lemma doCacheLookup_eq:
  assumes "cache_ok k" and "doCacheLookup k d pkt = Inr (d', hit)"
  defines "s \<equiv> fst (getSetTagFromAddr k (pkt_addr pkt))"
  shows "hit = set_hit k d (pkt_addr pkt)"
    and "sets d' = (if hit \<and> \<not> isRead pkt then (sets d)(s := (sets d s)\<lparr>dirty := True\<rparr>) else sets d)"
    and "isGPUOwned d' = (if hit then (isGPUOwned d)(s := is_gpu pkt) else isGPUOwned d)"
    and "cbf d' = (if hit \<and> \<not> isRead pkt \<and> \<not> dirty (sets d s) \<and> bloomFilterEnable k
                   then cbf d @ [BfAdd (blockAlign k (pkt_addr pkt))] else cbf d)"
proof -
  define d1 where "d1 = (if is_gpu pkt then sample_gpu_lines k d else d)"
  have f: "sets d1 = sets d" "isGPUOwned d1 = isGPUOwned d" "cbf d1 = cbf d" by (simp_all add: d1_def)
  have "(d', hit) = (if set_hit k d1 (pkt_addr pkt) then (lookup_hit k (is_gpu pkt) pkt s d1, True)
                     else (lookup_miss k (is_gpu pkt) pkt s d1, False))"
    using assms(2) by (simp add: doCacheLookup_def Let_def res_simps d1_def s_def split: if_splits)
  then have h: "hit = set_hit k d (pkt_addr pkt)"
      "d' = (if hit then lookup_hit k (is_gpu pkt) pkt s d1 else lookup_miss k (is_gpu pkt) pkt s d1)"
    using set_hit_frame [OF f(1)] by (auto split: if_splits)
  show "hit = set_hit k d (pkt_addr pkt)" by (fact h(1))
  have same: "(sets d)(s := (sets d s)\<lparr>dirty := True\<rparr>) = sets d" if "dirty (sets d s)"
    using that by (cases "sets d s") (auto simp: fun_eq_iff)
  show "sets d' = (if hit \<and> \<not> isRead pkt then (sets d)(s := (sets d s)\<lparr>dirty := True\<rparr>) else sets d)"
    using same by (auto simp: h(2) lookup_hit_def Let_def f)
  show "isGPUOwned d' = (if hit then (isGPUOwned d)(s := is_gpu pkt) else isGPUOwned d)"
    by (auto simp: h(2) lookup_hit_def Let_def f)
  show "cbf d' = (if hit \<and> \<not> isRead pkt \<and> \<not> dirty (sets d s) \<and> bloomFilterEnable k
                  then cbf d @ [BfAdd (blockAlign k (pkt_addr pkt))] else cbf d)"
    by (auto simp: h(2) lookup_hit_def Let_def f)
qed

lemma doCacheLookup_succeeds: "cache_ok k \<Longrightarrow> \<exists>d' hit. doCacheLookup k d pkt = Inr (d', hit)"
  using set_in_range [of k "pkt_addr pkt"] by (simp add: doCacheLookup_def Let_def res_simps)

text \<open>The cache of the configuration \<^verbatim>\<open>HMC_2500_x32_Cache\<close>; an exact filter and a constant generator are its parameters.\<close>

definition exact_lookup :: "bf_op list \<Rightarrow> addr \<Rightarrow> nat" where
  "exact_lookup xs a = count_if ((=) (BfAdd a)) xs - count_if ((=) (BfRemove a)) xs"

definition hmc :: "dram_params \<times> cache_params" where
  "hmc = DRAMCacheCtrl_new HMC_2500_x32_Cache HMC_cache_config exact_lookup (\<lambda>_. 0)
           (DRAMCtrl_consts HMC_2500_x32_Cache (2 ^ 25) None)"

lemmas hmc_defs = hmc_def DRAMCacheCtrl_new_def HMC_2500_x32_Cache_def HMC_cache_config_def
  DRAMCtrl_consts_def DDR3_1600_x64_def

lemma hmc_cache [simp]:
  "dramCache_block_size (snd hmc) = 128" "dramCache_num_sets (snd hmc) = 245760"
  "totalRows (snd hmc) = 16384" "bypassTagSize (snd hmc) = 64" "bloomFilterEnable (snd hmc)"
  "\<not> dramCache_write_allocate (snd hmc)" "\<not> dirtyCleanBypassEnable (snd hmc)" "\<not> bypassTagEnable (snd hmc)"
  "cbf_lookup (snd hmc) = exact_lookup" "dramCacheTimingMode (snd hmc)" "numTarget (snd hmc) = 16"
  "fillBufferSize (snd hmc) = 64" "fillHighThreshold (snd hmc) = 54" "predAccuracy (snd hmc) = 95"
  "randomDraw (snd hmc) = (\<lambda>_. 0)"
  by (simp_all add: hmc_defs)

lemma hmc_dram [simp]:
  "channels (fst hmc) = 1" "columnsPerStripe (fst hmc) = 1" "columnsPerRowBuffer (fst hmc) = 32"
  "addrMapping (fst hmc) = RoRaBaCoCh" "rowsPerBank (fst hmc) = 512" "ranksPerChannel (fst hmc) = 8"
  "banksPerRank (fst hmc) = 4" "burstSize (fst hmc) = 64" "readBufferSize (fst hmc) = 32"
  "writeBufferSize (fst hmc) = 32" "frontendLatency (fst hmc) = 10000" "backendLatency (fst hmc) = 10000"
  by (simp_all add: hmc_defs)

lemma hmc_cache_ok: "cache_ok (snd hmc)"
  by (auto simp: cache_ok_def intro!: exI [of _ 7])

lemma hmc_geometry: "geometry_ok (fst hmc) (snd hmc)"
  using hmc_cache_ok by (auto simp: geometry_ok_def params_ok_def intro!: exI [of _ 6])

section \<open>The predictor\<close>

lemma mac_value:
  assumes "t (cid, hash_pc pc) \<le> 8"
  shows "unat (((\<lambda>t. incMac t cid pc) ^^ n) t (cid, hash_pc pc)) = min 8 (unat (t (cid, hash_pc pc)) + n)"
    and "unat (((\<lambda>t. decMac t cid pc) ^^ n) t (cid, hash_pc pc)) = unat (t (cid, hash_pc pc)) - n"
proof -
  have inc: "unat (w + 1) = unat w + 1" if "w \<le> 8" for w :: u8
    using that by (simp add: word_le_nat_alt unat_word_ariths)
  have dec: "unat (w - 1) = unat w - 1" if "w \<noteq> 0" for w :: u8
    using that by (simp add: unat_minus_one)
  have le: "unat (t (cid, hash_pc pc)) \<le> 8" using assms by (simp add: word_le_nat_alt)
  show "unat (((\<lambda>t. incMac t cid pc) ^^ n) t (cid, hash_pc pc)) = min 8 (unat (t (cid, hash_pc pc)) + n)"
  proof (induction n)
    case 0
    then show ?case using le by simp
  next
    case (Suc n)
    let ?w = "((\<lambda>t. incMac t cid pc) ^^ n) t (cid, hash_pc pc)"
    have "?w \<noteq> 8 \<longleftrightarrow> unat ?w \<noteq> 8" by (simp add: word_unat_eq_iff)
    then show ?case using Suc inc [of ?w] by (auto simp: incMac_def word_le_nat_alt)
  qed
  show "unat (((\<lambda>t. decMac t cid pc) ^^ n) t (cid, hash_pc pc)) = unat (t (cid, hash_pc pc)) - n"
  proof (induction n)
    case 0
    then show ?case by simp
  next
    case (Suc n)
    then show ?case using dec by (auto simp: decMac_def unat_eq_zero)
  qed
qed

lemma mac_other:
  assumes "x \<noteq> (cid, hash_pc pc)"
  shows "((\<lambda>t. incMac t cid pc) ^^ n) t x = t x" and "((\<lambda>t. decMac t cid pc) ^^ n) t x = t x"
proof -
  show "((\<lambda>t. incMac t cid pc) ^^ n) t x = t x" by (induction n) (use assms in \<open>auto simp: incMac_def\<close>)
  show "((\<lambda>t. decMac t cid pc) ^^ n) t x = t x" by (induction n) (use assms in \<open>auto simp: decMac_def\<close>)
qed


section \<open>Properties\<close>

text \<open>C27: set and tag of an address name its block: from them the block address is regenerated exactly, and
  every set and tag is the split of the address it regenerates, as long as the block number fits into 32
  bits. Beyond that, two blocks that lie \<^verbatim>\<open>2^32\<close> blocks apart get the same set and tag.\<close>

theorem set_tag_roundtrip:
  assumes "cache_ok k"
  shows "(in_reach k a \<longrightarrow>
            (case getSetTagFromAddr k a of (s, t) \<Rightarrow> regenerateBlkAddr k s (word_of_nat t)) = blockAlign k a) \<and>
         (s < dramCache_num_sets k \<longrightarrow> t * dramCache_num_sets k + s < 2 ^ 32 \<longrightarrow>
            getSetTagFromAddr k (regenerateBlkAddr k s (word_of_nat t)) = (s, t)) \<and>
         (unat b = unat a + 2 ^ 32 * dramCache_block_size k \<longrightarrow> getSetTagFromAddr k b = getSetTagFromAddr k a)"
proof (intro conjI impI)
  show "(case getSetTagFromAddr k a of (s, t) \<Rightarrow> regenerateBlkAddr k s (word_of_nat t)) = blockAlign k a"
    if "in_reach k a"
    using regenerate_getSetTag [OF assms that] by (cases "getSetTagFromAddr k a") simp
  show "getSetTagFromAddr k (regenerateBlkAddr k s (word_of_nat t)) = (s, t)"
    if "s < dramCache_num_sets k" "t * dramCache_num_sets k + s < 2 ^ 32"
    using getSetTag_regenerate(1) [OF assms that] .
  have "0 < dramCache_block_size k" using assms by (auto simp: cache_ok_def)
  then show "getSetTagFromAddr k b = getSetTagFromAddr k a" if "unat b = unat a + 2 ^ 32 * dramCache_block_size k"
    by (simp add: getSetTagFromAddr_def that del: power_numeral)
qed

theorem set_tag_roundtrip_witness:
  "cache_ok (snd hmc) \<and> in_reach (snd hmc) 1000000 \<and>
   (case getSetTagFromAddr (snd hmc) 1000000 of (s, t) \<Rightarrow> regenerateBlkAddr (snd hmc) s (word_of_nat t))
     = blockAlign (snd hmc) 1000000"
proof -
  have "in_reach (snd hmc) 1000000" by (simp add: in_reach_def)
  then show ?thesis using set_tag_roundtrip [OF hmc_cache_ok, of 1000000] hmc_cache_ok by blast
qed

text \<open>C26: the layout of the blocks in the DRAM array: no two bursts of different blocks in the cache, and no
  two bursts of one block, share rank, bank, row and column; with the rows in one bank, the two bursts of a block
  are in one row, fifteen blocks share a row and use the first thirty of its thirty-two bursts.\<close>

theorem block_layout:
  assumes "geometry_ok p k" and "i < 2" and "j < 2"
  shows "(map_addr p (burst_no k a i) = map_addr p (burst_no k b j) \<and>
          column_of p (burst_no k a i) = column_of p (burst_no k b j) \<longrightarrow>
            i = j \<and> unat a div dramCache_block_size k mod dramCache_num_sets k =
                    unat b div dramCache_block_size k mod dramCache_num_sets k) \<and>
         (addrMapping p = RoRaBaCoCh \<longrightarrow>
            map_addr p (burst_no k a 0) = map_addr p (burst_no k a 1) \<and> column_of p (burst_no k a i) < 30)"
proof (intro conjI impI)
  have ok: "cache_ok k" "channels p = 1" "columnsPerStripe p = 1" using assms(1) by (simp_all add: geometry_ok_def)
  assume same: "map_addr p (burst_no k a i) = map_addr p (burst_no k b j) \<and>
          column_of p (burst_no k a i) = column_of p (burst_no k b j)"
  have "burst_no k a i = burst_no k b j"
    by (rule map_addr_unique [OF same [THEN conjunct1] same [THEN conjunct2] ok(2,3)])
       (use burst_no_bounds(1) [OF assms(1)] assms in auto)
  then show "i = j" and "unat a div dramCache_block_size k mod dramCache_num_sets k =
                         unat b div dramCache_block_size k mod dramCache_num_sets k"
    using burst_no_inj [OF ok(1) _ assms(2,3)] by blast+
next
  assume m: "addrMapping p = RoRaBaCoCh"
  have p: "columnsPerRowBuffer p = 32" "channels p = 1" "columnsPerStripe p = 1"
    using assms(1) by (simp_all add: geometry_ok_def)
  show "column_of p (burst_no k a i) < 30"
    using burst_no_bounds(2) [OF assms(1,2)] m p by (simp add: column_of_def)
  have "burst_no k a 0 mod 32 < 30" "burst_no k a 1 = burst_no k a 0 + 1"
    using burst_no_bounds(2) [OF assms(1), of 0 a] by (simp_all add: burst_no_def)
  then have "burst_no k a 1 div 32 = burst_no k a 0 div 32" by (simp add: div_Suc mod_Suc)
  then show "map_addr p (burst_no k a 0) = map_addr p (burst_no k a 1)" by (simp add: map_addr_def m p)
qed

theorem block_layout_witness:
  "geometry_ok (fst hmc) (snd hmc) \<and> addrMapping (fst hmc) = RoRaBaCoCh \<and>
   map_addr (fst hmc) (burst_no (snd hmc) 4096 0) = map_addr (fst hmc) (burst_no (snd hmc) 4096 1)"
  using block_layout [OF hmc_geometry, of 0 0 4096 0] hmc_geometry by simp

text \<open>C24: the store of bypass tags is an LRU store of its size: any sequence of hit tests, removals and
  insertions of blocks that are not in the store succeeds, and answers as the specification by last-use
  times does, in which a full store gives up the block that was not used for the longest time.\<close>

theorem bypass_store_lru:
  assumes "0 < bypassTagSize k" and "fresh_inserts k xs []"
  shows "\<exists>ts hs s. bypass_run k xs [] = Inr (ts, hs) \<and> length ts \<le> bypassTagSize k \<and>
           lru_run k xs (0, Map.empty) s hs \<and> set ts = dom (snd s)"
proof -
  obtain ts hs s where r: "bypass_run k xs [] = Inr (ts, hs)" "lru_run k xs (0, Map.empty) s hs"
      "lru_rel (bypassTagSize k) ts s"
    using bypass_run_refines [OF lru_rel_empty assms] by auto
  then have "length ts \<le> bypassTagSize k" "set ts = dom (snd s)" by (simp_all add: lru_rel_def)
  then show ?thesis using r by blast
qed

theorem bypass_store_lru_witness:
  "0 < bypassTagSize (snd hmc) \<and> fresh_inserts (snd hmc) [BInsert 128, BInsert 256, BHit 128, BRemove 128] [] \<and>
   (\<exists>s. lru_run (snd hmc) [BInsert 128, BInsert 256, BHit 128, BRemove 128] (0, Map.empty) s [True, True])"
proof -
  let ?xs = "[BInsert 128, BInsert 256, BHit 128, BRemove 128]"
  have b: "blockAlign (snd hmc) 128 = 128" "blockAlign (snd hmc) 256 = 256" by (simp_all add: blockAlign_def)
  have f: "fresh_inserts (snd hmc) ?xs []" by (simp add: insertIntoBypassTag_def b)
  have r: "bypass_run (snd hmc) ?xs [] = Inr ([256], [True, True])"
    by (simp add: insertIntoBypassTag_def bypass_isHit_def removeFromBypassTag_def b)
  show ?thesis using bypass_store_lru [OF _ f] f r by auto
qed





end
