(* ===== verification/Packet_Queue.thy ===== *)
theory Packet_Queue
  imports Packet
begin

text \<open>
  The queue of packets that wait to be sent through a port:
  \<^verbatim>\<open>src/gem5/src/mem/packet_queue.cc\<close> and \<^verbatim>\<open>src/gem5/src/mem/packet_queue.hh\<close>. Whether the peer of
  the port accepts a packet is an argument of the operations that send. A packet that is queued by
  the peer while it receives one is a later call.
\<close>

section \<open>State and operations\<close>

record packet_queue =
  transmitList :: "(tick \<times> packet) list"
  sendEvent :: event
  waitingOnRetry :: bool
  pq_drainState :: drain_state
  pq_drainSignals :: nat

definition PacketQueue_init :: packet_queue where
  "PacketQueue_init = \<lparr>transmitList = [], sendEvent = None, waitingOnRetry = False,
                       pq_drainState = Running, pq_drainSignals = 0\<rparr>"

definition hasAddr :: "packet_queue \<Rightarrow> addr \<Rightarrow> bool" where
  "hasAddr q a \<longleftrightarrow> list_ex (\<lambda>(t, pkt). pkt_addr pkt = a) (transmitList q)"

definition deferredPacketReady :: "tick \<Rightarrow> packet_queue \<Rightarrow> bool" where
  "deferredPacketReady now q \<longleftrightarrow> transmitList q \<noteq> [] \<and> fst (hd (transmitList q)) \<le> now"

definition deferredPacketReadyTime :: "packet_queue \<Rightarrow> tick" where
  "deferredPacketReadyTime q = (if transmitList q = [] then MaxTick else fst (hd (transmitList q)))"

definition schedSendEvent :: "tick \<Rightarrow> packet_queue \<Rightarrow> tick \<Rightarrow> packet_queue res" where
  "schedSendEvent now q when =
     (if waitingOnRetry q then
        assertE ''!sendEvent.scheduled()'' (\<not> scheduled (sendEvent q)) (Inr q)
      else if when \<noteq> MaxTick then
        (let t = max when (now + 1) in
         case sendEvent q of
           None \<Rightarrow> bindE (ev_schedule now (sendEvent q) t) (\<lambda>e. Inr (q\<lparr>sendEvent := e\<rparr>))
         | Some s \<Rightarrow>
             if t < s then bindE (ev_reschedule now (sendEvent q) t False) (\<lambda>e. Inr (q\<lparr>sendEvent := e\<rparr>))
             else Inr q)
      else
        Inr (if pq_drainState q = Draining \<and> transmitList q = [] \<and> \<not> scheduled (sendEvent q)
             then q\<lparr>pq_drainSignals := pq_drainSignals q + 1\<rparr> else q))"

text \<open>The search for the place of a packet in the middle of the list; the first element is skipped.\<close>

fun insert_later :: "tick \<Rightarrow> packet \<Rightarrow> (tick \<times> packet) list \<Rightarrow> (tick \<times> packet) list" where
  "insert_later t pkt [] = [(t, pkt)]"
| "insert_later t pkt ((s, p) # xs) =
     (if t \<ge> s then (s, p) # insert_later t pkt xs else (t, pkt) # (s, p) # xs)"

definition schedSendTiming :: "tick \<Rightarrow> packet_queue \<Rightarrow> packet \<Rightarrow> tick \<Rightarrow> bool \<Rightarrow> packet_queue res" where
  "schedSendTiming now q pkt when0 force_order =
     assertE ''when >= curTick()'' (when0 \<ge> now)
     (assertE ''!pkt->isExpressSnoop()'' (\<not> flag_expressSnoop pkt)
     (if length (transmitList q) > 1000 then Inl (PanicError ''Packet queue has grown beyond 1000 packets'')
      else
        let xs = transmitList q;
            when = (if force_order \<and> xs \<noteq> [] \<and> when0 < fst (last xs) then fst (last xs) else when0)
        in
        if xs = [] \<or> when < fst (hd xs) then
          assertE ''!force_order || transmitList.empty()'' (\<not> force_order \<or> xs = [])
            (schedSendEvent now (q\<lparr>transmitList := (when, pkt) # xs\<rparr>) when)
        else if when \<ge> fst (last xs) then Inr (q\<lparr>transmitList := xs @ [(when, pkt)]\<rparr>)
        else
          assertE ''!force_order'' (\<not> force_order)
            (Inr (q\<lparr>transmitList := hd xs # insert_later when pkt (tl xs)\<rparr>))))"

definition sendDeferredPacket :: "tick \<Rightarrow> bool \<Rightarrow> packet_queue \<Rightarrow> (packet_queue \<times> packet option) res" where
  "sendDeferredPacket now accepted q =
     assertE ''!waitingOnRetry'' (\<not> waitingOnRetry q)
     (assertE ''deferredPacketReady()'' (deferredPacketReady now q)
     (let (t, pkt) = hd (transmitList q);
          q1 = q\<lparr>transmitList := tl (transmitList q), waitingOnRetry := \<not> accepted\<rparr>
      in if accepted
         then bindE (schedSendEvent now q1 (deferredPacketReadyTime q1)) (\<lambda>q2. Inr (q2, Some pkt))
         else Inr (q1\<lparr>transmitList := (t, pkt) # transmitList q1\<rparr>, None)))"

definition processSendEvent :: "tick \<Rightarrow> bool \<Rightarrow> packet_queue \<Rightarrow> (packet_queue \<times> packet option) res" where
  "processSendEvent now accepted q0 =
     (let q = q0\<lparr>sendEvent := None\<rparr> in
      assertE ''!waitingOnRetry'' (\<not> waitingOnRetry q) (sendDeferredPacket now accepted q))"

definition pq_retry :: "tick \<Rightarrow> bool \<Rightarrow> packet_queue \<Rightarrow> (packet_queue \<times> packet option) res" where
  "pq_retry now accepted q =
     assertE ''waitingOnRetry'' (waitingOnRetry q)
       (sendDeferredPacket now accepted (q\<lparr>waitingOnRetry := False\<rparr>))"

definition pq_drain :: "packet_queue \<Rightarrow> drain_state" where
  "pq_drain q = (if transmitList q = [] then Drained else Draining)"

text \<open>A functional request looks at the queued packets in order until one of them satisfies it.\<close>

fun pq_check :: "packet \<Rightarrow> (tick \<times> packet) list \<Rightarrow> (packet \<times> (tick \<times> packet) list \<times> bool) res" where
  "pq_check pkt [] = Inr (pkt, [], False)"
| "pq_check pkt ((t, p) # xs) =
     bindE (checkFunctional_pkt pkt p) (\<lambda>(pkt', p', found).
       if found then Inr (pkt', (t, p') # xs, True)
       else bindE (pq_check pkt' xs) (\<lambda>(pkt'', xs', b). Inr (pkt'', (t, p') # xs', b)))"

definition pq_checkFunctional :: "packet_queue \<Rightarrow> packet \<Rightarrow> (packet_queue \<times> packet \<times> bool) res" where
  "pq_checkFunctional q pkt =
     bindE (pq_check pkt (transmitList q)) (\<lambda>(pkt', xs, found). Inr (q\<lparr>transmitList := xs\<rparr>, pkt', found))"

section \<open>The order of the list\<close>

lemma insert_later_stable: "insert_later t pkt xs = insert_stable fst (t, pkt) xs"
  by (induction t pkt xs rule: insert_later.induct) (auto simp: insert_stable_def)

text \<open>The tick at which a packet is queued: not before the last one when the order is forced.\<close>

definition queued_at :: "packet_queue \<Rightarrow> tick \<Rightarrow> bool \<Rightarrow> tick" where
  "queued_at q when force_order =
     (if force_order \<and> transmitList q \<noteq> [] then max when (fst (last (transmitList q))) else when)"

lemma queued_at_ge: "when \<le> queued_at q when f"
  by (simp add: queued_at_def)

lemma queued_at_eq:
  "(if f \<and> transmitList q \<noteq> [] \<and> when < fst (last (transmitList q)) then fst (last (transmitList q)) else when)
     = queued_at q when f"
  by (auto simp: queued_at_def)

lemma schedSendTiming_eq:
  "schedSendTiming now q pkt when f =
     assertE ''when >= curTick()'' (when \<ge> now)
     (assertE ''!pkt->isExpressSnoop()'' (\<not> flag_expressSnoop pkt)
     (if length (transmitList q) > 1000 then Inl (PanicError ''Packet queue has grown beyond 1000 packets'')
      else
        let w = queued_at q when f; xs = transmitList q in
        if xs = [] \<or> w < fst (hd xs) then
          assertE ''!force_order || transmitList.empty()'' (\<not> f \<or> xs = [])
            (schedSendEvent now (q\<lparr>transmitList := (w, pkt) # xs\<rparr>) w)
        else if w \<ge> fst (last xs) then Inr (q\<lparr>transmitList := xs @ [(w, pkt)]\<rparr>)
        else assertE ''!force_order'' (\<not> f) (Inr (q\<lparr>transmitList := hd xs # insert_later w pkt (tl xs)\<rparr>))))"
  unfolding schedSendTiming_def Let_def queued_at_eq by (rule refl)

text \<open>
  The list is in the order of the ready times. While the peer has refused a packet no event is
  scheduled and the first packet is ready; otherwise an event is scheduled exactly when there is a packet,
  not before the first packet is ready and not later than that or than the next tick.
\<close>

definition pq_inv :: "tick \<Rightarrow> packet_queue \<Rightarrow> bool" where
  "pq_inv now q \<longleftrightarrow>
     sorted (map fst (transmitList q)) \<and>
     (\<forall>x \<in> set (transmitList q). fst x < MaxTick) \<and>
     (if waitingOnRetry q
      then sendEvent q = None \<and> deferredPacketReady now q
      else case sendEvent q of
             None \<Rightarrow> transmitList q = []
           | Some s \<Rightarrow> now \<le> s \<and> deferredPacketReady s q \<and> s \<le> max (fst (hd (transmitList q))) (now + 1))"

lemma pq_inv_init: "pq_inv 0 PacketQueue_init"
  by (simp add: pq_inv_def PacketQueue_init_def)

lemma pq_inv_later:
  assumes "pq_inv now q" and "now \<le> t" and "\<forall>s. sendEvent q = Some s \<longrightarrow> t \<le> s"
  shows "pq_inv t q"
  using assms by (auto simp: pq_inv_def deferredPacketReady_def split: option.splits if_splits)

lemma schedSendTiming_stable:
  fixes f :: bool
  assumes inv: "pq_inv now q" and "now \<le> when" and "\<not> flag_expressSnoop pkt"
    and "length (transmitList q) \<le> 1000"
  defines "w \<equiv> queued_at q when f"
  defines "q1 \<equiv> q\<lparr>transmitList := insert_stable fst (w, pkt) (transmitList q)\<rparr>"
  shows "schedSendTiming now q pkt when f =
           (if transmitList q = [] \<or> w < fst (hd (transmitList q)) then schedSendEvent now q1 w else Inr q1)"
proof (cases "transmitList q = [] \<or> w < fst (hd (transmitList q))")
  case True
  have "f \<Longrightarrow> transmitList q = []"
  proof (rule ccontr)
    assume "f" and ne: "transmitList q \<noteq> []"
    then have "fst (last (transmitList q)) \<le> w" by (simp add: w_def queued_at_def)
    moreover have "fst (hd (transmitList q)) \<le> fst (last (transmitList q))"
      using sorted_last_max [of fst "transmitList q" "hd (transmitList q)"] inv ne by (simp add: pq_inv_def)
    ultimately show False using True ne by simp
  qed
  moreover have "insert_stable fst (w, pkt) (transmitList q) = (w, pkt) # transmitList q"
    using True by (cases "transmitList q") (auto simp: insert_stable_def)
  ultimately show ?thesis
    using True assms(2-4) by (auto simp: schedSendTiming_eq Let_def w_def [symmetric] q1_def)
next
  case False
  then obtain x xs where xs: "transmitList q = x # xs" by (cases "transmitList q") auto
  have lastf: "f \<Longrightarrow> fst (last (transmitList q)) \<le> w" using False by (simp add: w_def queued_at_def)
  have srt: "sorted (map fst (transmitList q))" using inv by (simp add: pq_inv_def)
  have mid: "insert_stable fst (w, pkt) (x # xs) = x # insert_later w pkt xs"
    using False xs by (simp add: insert_later_stable insert_stable_def)
  have at_end: "insert_stable fst (w, pkt) (transmitList q) = transmitList q @ [(w, pkt)]"
    if "fst (last (transmitList q)) \<le> w"
    using sorted_last_max [OF srt] that by (intro insert_stable_last) fastforce
  show ?thesis
    using False assms(2-4) at_end lastf mid xs
    by (auto simp: schedSendTiming_eq w_def [symmetric] q1_def Let_def assertE_def)
qed

lemma hd_insert_stable:
  "hd (insert_stable k x xs) = (if xs = [] \<or> k x < k (hd xs) then x else hd xs)"
  by (cases xs) (auto simp: insert_stable_def)

lemma insert_stable_ne [simp]: "insert_stable k x xs \<noteq> []"
  by (simp add: insert_stable_def)

lemma schedSendEvent_when:
  assumes "w \<noteq> MaxTick" and "\<not> waitingOnRetry q"
  shows "schedSendEvent now q w =
           Inr (q\<lparr>sendEvent := Some (case sendEvent q of None \<Rightarrow> max w (now + 1) | Some s \<Rightarrow> min s (max w (now + 1)))\<rparr>)"
  using assms
  by (cases "sendEvent q")
     (auto simp: schedSendEvent_def res_simps Let_def ev_reschedule_def intro!: packet_queue.equality)

lemma schedSendEvent_inv:
  assumes "sorted (map fst (transmitList q))" and "\<forall>x \<in> set (transmitList q). fst x < MaxTick"
    and "transmitList q \<noteq> []" and "w = fst (hd (transmitList q))" and "now \<le> w"
    and "if waitingOnRetry q then sendEvent q = None \<and> w \<le> now
         else \<forall>s. sendEvent q = Some s \<longrightarrow> now \<le> s \<and> w \<le> s"
  shows "\<exists>q'. schedSendEvent now q w = Inr q' \<and> pq_inv now q' \<and> transmitList q' = transmitList q"
proof (cases "waitingOnRetry q")
  case True
  then show ?thesis
    using assms by (simp add: schedSendEvent_def pq_inv_def deferredPacketReady_def)
next
  case False
  have "w < MaxTick" using assms(2-4) hd_in_set by blast
  then have "w \<noteq> MaxTick" by simp
  then show ?thesis
    using assms False
    by (auto simp: schedSendEvent_when pq_inv_def deferredPacketReady_def split: option.splits)
qed

lemma schedSendTiming_ok:
  fixes f :: bool
  assumes inv: "pq_inv now q" and now: "now \<le> when" and "\<not> flag_expressSnoop pkt"
    and "length (transmitList q) \<le> 1000" and "when < MaxTick"
  defines "w \<equiv> queued_at q when f"
  shows "\<exists>q'. schedSendTiming now q pkt when f = Inr q' \<and> pq_inv now q' \<and>
              transmitList q' = insert_stable fst (w, pkt) (transmitList q)"
proof -
  let ?q = "q\<lparr>transmitList := insert_stable fst (w, pkt) (transmitList q)\<rparr>"
  have eq: "schedSendTiming now q pkt when f =
              (if transmitList q = [] \<or> w < fst (hd (transmitList q)) then schedSendEvent now ?q w else Inr ?q)"
    unfolding w_def by (rule schedSendTiming_stable) (use assms in auto)
  have w: "now \<le> w" "w < MaxTick"
    using assms queued_at_ge [of "when" q f] by (auto simp: w_def queued_at_def pq_inv_def)
  have srt: "sorted (map fst (transmitList ?q))" "\<forall>x \<in> set (transmitList ?q). fst x < MaxTick"
    using inv w by (auto simp: pq_inv_def sorted_insert_stable)
  show ?thesis
  proof (cases "transmitList q = [] \<or> w < fst (hd (transmitList q))")
    case True
    have "\<exists>q'. schedSendEvent now ?q w = Inr q' \<and> pq_inv now q' \<and> transmitList q' = transmitList ?q"
      by (rule schedSendEvent_inv)
         (use srt True inv w in \<open>auto simp: hd_insert_stable pq_inv_def deferredPacketReady_def split: if_splits option.splits\<close>)
    then show ?thesis using eq True by auto
  next
    case False
    have "pq_inv now ?q"
      using srt False inv
      by (auto simp: pq_inv_def hd_insert_stable deferredPacketReady_def split: if_splits option.splits)
    then show ?thesis using eq False by simp
  qed
qed

text \<open>Sending the first packet: it leaves the queue if the peer accepts it, and stays in front otherwise.\<close>

lemma sendDeferredPacket_ok:
  assumes "sorted (map fst (transmitList q))" and "\<forall>x \<in> set (transmitList q). fst x < MaxTick"
    and "\<not> waitingOnRetry q" and "sendEvent q = None" and "deferredPacketReady now q"
  shows "\<exists>q'. sendDeferredPacket now acc q = Inr (q', if acc then Some (snd (hd (transmitList q))) else None) \<and>
              pq_inv now q' \<and> waitingOnRetry q' = (\<not> acc) \<and>
              transmitList q' = (if acc then tl (transmitList q) else transmitList q)"
proof -
  obtain t pkt xs where xs: "transmitList q = (t, pkt) # xs"
    using assms(5) by (cases "transmitList q") (auto simp: deferredPacketReady_def)
  show ?thesis
    using assms xs
    by (cases acc; cases xs)
       (auto simp: sendDeferredPacket_def schedSendEvent_def deferredPacketReadyTime_def pq_inv_def
         deferredPacketReady_def res_simps Let_def max_def)
qed

lemma processSendEvent_ok:
  assumes "pq_inv now q" and "sendEvent q = Some s"
  shows "\<exists>q'. processSendEvent s acc q = Inr (q', if acc then Some (snd (hd (transmitList q))) else None) \<and>
              pq_inv s q' \<and> waitingOnRetry q' = (\<not> acc) \<and>
              transmitList q' = (if acc then tl (transmitList q) else transmitList q)"
proof -
  have nw: "\<not> waitingOnRetry q" using assms by (auto simp: pq_inv_def split: if_splits)
  have "\<exists>q'. sendDeferredPacket s acc (q\<lparr>sendEvent := None\<rparr>) =
               Inr (q', if acc then Some (snd (hd (transmitList q))) else None) \<and>
             pq_inv s q' \<and> waitingOnRetry q' = (\<not> acc) \<and>
             transmitList q' = (if acc then tl (transmitList q) else transmitList q)"
    using sendDeferredPacket_ok [of "q\<lparr>sendEvent := None\<rparr>" s acc] assms nw
    by (auto simp: pq_inv_def deferredPacketReady_def)
  then show ?thesis using nw by (simp add: processSendEvent_def)
qed

lemma pq_retry_ok:
  assumes "pq_inv now q" and "waitingOnRetry q"
  shows "\<exists>q'. pq_retry now acc q = Inr (q', if acc then Some (snd (hd (transmitList q))) else None) \<and>
              pq_inv now q' \<and> waitingOnRetry q' = (\<not> acc) \<and>
              transmitList q' = (if acc then tl (transmitList q) else transmitList q)"
  using sendDeferredPacket_ok [of "q\<lparr>waitingOnRetry := False\<rparr>" now acc] assms
  by (auto simp: pq_retry_def pq_inv_def deferredPacketReady_def)

section \<open>Runs of the queue\<close>

text \<open>
  A state of a run is the time, the queue, the packets queued and the packets sent so far. Packets are
  queued for now or later and in no more than the thousand that the queue takes, the event fires at its tick,
  the peer may ask for a retry whenever it has refused a packet, and time passes up to the next event.
\<close>

type_synonym pq_run = "tick \<times> packet_queue \<times> packet list \<times> packet list"

inductive pq_step :: "pq_run \<Rightarrow> pq_run \<Rightarrow> bool" where
  enqueue: "schedSendTiming now q pkt when f = Inr q' \<Longrightarrow> now \<le> when \<Longrightarrow> when < MaxTick \<Longrightarrow>
    \<not> flag_expressSnoop pkt \<Longrightarrow> length (transmitList q) \<le> 1000 \<Longrightarrow>
    pq_step (now, q, ins, outs) (now, q', ins @ [pkt], outs)"
| fire: "sendEvent q = Some s \<Longrightarrow> processSendEvent s acc q = Inr (q', sent) \<Longrightarrow>
    pq_step (now, q, ins, outs) (s, q', ins, outs @ (case sent of None \<Rightarrow> [] | Some pkt \<Rightarrow> [pkt]))"
| retried: "waitingOnRetry q \<Longrightarrow> pq_retry now acc q = Inr (q', sent) \<Longrightarrow>
    pq_step (now, q, ins, outs) (now, q', ins, outs @ (case sent of None \<Rightarrow> [] | Some pkt \<Rightarrow> [pkt]))"
| wait: "now \<le> t \<Longrightarrow> \<forall>s. sendEvent q = Some s \<longrightarrow> t \<le> s \<Longrightarrow> pq_step (now, q, ins, outs) (t, q, ins, outs)"

definition run_inv :: "pq_run \<Rightarrow> bool" where
  "run_inv r = (case r of (now, q, ins, outs) \<Rightarrow>
     pq_inv now q \<and> mset ins = mset outs + mset (map snd (transmitList q)))"

lemma run_inv_init: "run_inv (0, PacketQueue_init, [], [])"
  by (simp add: run_inv_def pq_inv_init) (simp add: PacketQueue_init_def)

lemma sent_first:
  assumes "deferredPacketReady t q" and "transmitList q' = (if acc then tl (transmitList q) else transmitList q)"
    and "sent = (if acc then Some (snd (hd (transmitList q))) else None)"
  shows "mset (case sent of None \<Rightarrow> [] | Some pkt \<Rightarrow> [pkt]) + mset (map snd (transmitList q'))
           = mset (map snd (transmitList q))"
  using assms by (cases "transmitList q") (auto simp: deferredPacketReady_def)

lemma pq_step_inv:
  assumes "pq_step r r'" and "run_inv r"
  shows "run_inv r'"
  using assms
proof (induction rule: pq_step.induct)
  case (enqueue now q pkt "when" f q' ins outs)
  then have "pq_inv now q'" "mset (transmitList q') = add_mset (queued_at q when f, pkt) (mset (transmitList q))"
    using schedSendTiming_ok [of now q "when" pkt f] by (auto simp: run_inv_def)
  then show ?case using enqueue by (simp add: run_inv_def)
next
  case (fire q s acc q' sent now ins outs)
  then have inv: "pq_inv now q" and ready: "deferredPacketReady s q"
    by (auto simp: run_inv_def pq_inv_def split: if_splits)
  obtain q1 where "processSendEvent s acc q = Inr (q1, if acc then Some (snd (hd (transmitList q))) else None)"
      "pq_inv s q1" "transmitList q1 = (if acc then tl (transmitList q) else transmitList q)"
    using processSendEvent_ok [OF inv fire(1)] by metis
  then show ?case
    using sent_first [OF ready, of q' acc sent] fire by (auto simp: run_inv_def)
next
  case (retried q now acc q' sent ins outs)
  then have inv: "pq_inv now q" and ready: "deferredPacketReady now q"
    by (auto simp: run_inv_def pq_inv_def)
  obtain q1 where "pq_retry now acc q = Inr (q1, if acc then Some (snd (hd (transmitList q))) else None)"
      "pq_inv now q1" "transmitList q1 = (if acc then tl (transmitList q) else transmitList q)"
    using pq_retry_ok [OF inv retried(1)] by metis
  then show ?case
    using sent_first [OF ready, of q' acc sent] retried by (auto simp: run_inv_def)
next
  case (wait now t q ins outs)
  then show ?case by (auto simp: run_inv_def intro: pq_inv_later)
qed

lemma pq_run_inv: "pq_step\<^sup>*\<^sup>* r r' \<Longrightarrow> run_inv r \<Longrightarrow> run_inv r'"
  by (induction rule: rtranclp_induct) (auto intro: pq_step_inv)

text \<open>The event of the queue fires again and again, and the peer accepts every packet.\<close>

fun pq_flush :: "nat \<Rightarrow> packet_queue \<Rightarrow> packet list res" where
  "pq_flush 0 q = Inr []"
| "pq_flush (Suc n) q =
     (case sendEvent q of
        None \<Rightarrow> Inr []
      | Some s \<Rightarrow>
          bindE (processSendEvent s True q) (\<lambda>(q', sent).
          bindE (pq_flush n q') (\<lambda>rest. Inr ((case sent of None \<Rightarrow> [] | Some pkt \<Rightarrow> [pkt]) @ rest))))"

lemma pq_flush_all:
  assumes "pq_inv now q" and "\<not> waitingOnRetry q"
  shows "pq_flush (length (transmitList q)) q = Inr (map snd (transmitList q))"
  using assms
proof (induction "transmitList q" arbitrary: now q)
  case Nil
  then show ?case by (simp flip: Nil(1))
next
  case (Cons x xs)
  obtain s where s: "sendEvent q = Some s"
    using Cons.prems Cons.hyps(2) by (auto simp: pq_inv_def split: option.splits)
  obtain q' where q': "processSendEvent s True q = Inr (q', Some (snd x))" "pq_inv s q'"
      "\<not> waitingOnRetry q'" "transmitList q' = xs"
    using processSendEvent_ok [OF Cons.prems(1) s, of True] by (auto simp flip: Cons.hyps(2))
  show ?case
    using Cons.hyps(1) [OF q'(4) [symmetric] q'(2,3)] q' s by (simp flip: Cons.hyps(2))
qed

section \<open>Properties\<close>


text \<open>A run that queues two packets, the second one to be sent first.\<close>

definition pq_pkt :: "nat \<Rightarrow> packet" where
  "pq_pkt a = new_packet a (setPhys (word_of_nat a) 64 None) ReadReq"

definition pq_two :: packet_queue where
  "pq_two = PacketQueue_init\<lparr>transmitList := [(10, pq_pkt 1), (20, pq_pkt 2)], sendEvent := Some 10\<rparr>"

lemma pq_pkt_plain: "\<not> flag_expressSnoop (pq_pkt a)"
  by (simp add: pq_pkt_def new_packet_def)

lemma pq_two_reached: "pq_step\<^sup>*\<^sup>* (0, PacketQueue_init, [], []) (0, pq_two, [pq_pkt 2, pq_pkt 1], [])"
proof -
  let ?q = "PacketQueue_init\<lparr>transmitList := [(20, pq_pkt 2)], sendEvent := Some 20\<rparr>"
  have lim: "(20 :: nat) < MaxTick" by (simp add: MaxTick_def)
  have "schedSendTiming 0 PacketQueue_init (pq_pkt 2) 20 False = Inr ?q"
    by (simp add: schedSendTiming_def PacketQueue_init_def pq_pkt_plain schedSendEvent_def MaxTick_def res_simps)
  then have "pq_step (0, PacketQueue_init, [], []) (0, ?q, [] @ [pq_pkt 2], [])"
    using lim by (intro pq_step.enqueue) (auto simp: pq_pkt_plain PacketQueue_init_def)
  moreover have "schedSendTiming 0 ?q (pq_pkt 1) 10 False = Inr pq_two"
    by (simp add: schedSendTiming_def PacketQueue_init_def pq_pkt_plain schedSendEvent_def MaxTick_def res_simps
        pq_two_def)
  then have "pq_step (0, ?q, [pq_pkt 2], []) (0, pq_two, [pq_pkt 2] @ [pq_pkt 1], [])"
    by (rule pq_step.enqueue) (use lim in \<open>simp_all add: pq_pkt_plain PacketQueue_init_def MaxTick_def\<close>)
  ultimately show ?thesis by (auto intro: converse_rtranclp_into_rtranclp)
qed


text \<open>C16: a queue drains: if the peer accepts the packets, as many events as there are packets send every
  packet, once and in the order of the queue.\<close>

theorem packet_queue_drains:
  assumes "pq_step\<^sup>*\<^sup>* (0, PacketQueue_init, [], []) (now, q, ins, outs)" and "\<not> waitingOnRetry q"
  shows "pq_flush (length (transmitList q)) q = Inr (map snd (transmitList q))"
proof -
  have "pq_inv now q" using pq_run_inv [OF assms(1) run_inv_init] by (simp add: run_inv_def)
  then show ?thesis using assms(2) by (rule pq_flush_all)
qed

theorem packet_queue_drains_witness:
  "pq_step\<^sup>*\<^sup>* (0, PacketQueue_init, [], []) (0, pq_two, [pq_pkt 2, pq_pkt 1], []) \<and> \<not> waitingOnRetry pq_two \<and>
   pq_flush 2 pq_two = Inr [pq_pkt 1, pq_pkt 2]"
proof -
  have w: "\<not> waitingOnRetry pq_two" and l: "length (transmitList pq_two) = 2"
    "map snd (transmitList pq_two) = [pq_pkt 1, pq_pkt 2]"
    by (simp_all add: pq_two_def PacketQueue_init_def)
  show ?thesis using packet_queue_drains [OF pq_two_reached w] pq_two_reached w by (simp only: l simp_thms)
qed

end
