(* ===== verification/DRAMCache_Ctrl.thy ===== *)
theory DRAMCache_Ctrl
  imports DRAMCache_Tags Packet_Queue
begin

text \<open>
  The DRAM cache controller, \<^verbatim>\<open>src/gem5/src/mem/dramcache_ctrl.cc\<close> and
  \<^verbatim>\<open>src/gem5/src/mem/dramcache_ctrl.hh\<close>. It extends the DRAM controller by a tag directory, a queue for
  fills, a queue of writes whose tags are being read, registers for misses and for writes to the memory
  behind it, and the table of requests that went to cache and memory at the same time. A
  pointer to a miss register is the pair of its queue (0 for the misses, 1 for the writes) and its number.
  New packets are numbered from \<open>newPkt\<close>; a packet's number stands for its address. This theory has the
  state, the blocking of the port, write-backs, fills and the receipt of requests;
  \<open>DRAMCache_Events\<close> has the event handlers and the side of the memory.
\<close>

unbundle bit_operations_syntax

section \<open>State\<close>

record pam_req =
  isHit :: int
  isPamComplete :: bool
  pam_mshr :: nat
  pam_pkt :: nat

record dramcache = dram_ctrl +
  dir :: tag_dir
  fillQueue :: "dram_packet list"
  isInFillQueue :: "(addr \<times> addr) set"
  isInWriteQ :: "(addr \<times> addr) set"
  dramPktWriteRespQueue :: "dram_packet list"
  respondWriteEvent :: event
  mshrQueue :: mshr_queue
  writeBuffer :: mshr_queue
  noTargetMSHR :: "(nat \<times> nat) option"
  c_order :: nat
  blocked :: u8
  portBlocked :: bool
  cacheMustSendRetry :: bool
  cacheFillsThisTime :: nat
  cacheWritesThisTime :: nat
  pamQueue :: "addr \<Rightarrow> pam_req option"
  bypassTag :: "addr list"
  switched_gpu_running :: bool
  drawn :: nat
  newPkt :: nat
  reqQueue :: packet_queue

definition DRAMCacheCtrl_init :: "dram_params \<Rightarrow> dram_config \<Rightarrow> cache_config \<Rightarrow> memory \<Rightarrow> dramcache" where
  "DRAMCacheCtrl_init p d g m =
     dram_ctrl.extend (DRAMCtrl_init p (bank_groups_per_rank d) m)
       \<lparr>dir = tag_dir_init, fillQueue = [], isInFillQueue = {}, isInWriteQ = {}, dramPktWriteRespQueue = [],
        respondWriteEvent = None,
        mshrQueue = MSHRQueue_init (int (mshrs g)) (int (read_buffer_size d)) 0 0,
        writeBuffer = MSHRQueue_init (int (write_buffers g)) (int (write_buffer_size d + 500)) 0 1,
        noTargetMSHR = None, c_order = 0, blocked = 0, portBlocked = False, cacheMustSendRetry = False, cacheFillsThisTime = 0,
        cacheWritesThisTime = 0, pamQueue = (\<lambda>_. None), bypassTag = [], switched_gpu_running = False,
        drawn = 0, newPkt = 0, reqQueue = PacketQueue_init\<rparr>"

definition get_mq :: "nat \<Rightarrow> dramcache \<Rightarrow> mshr_queue" where
  "get_mq qi c = (if qi = 0 then mshrQueue c else writeBuffer c)"

definition put_mq :: "nat \<Rightarrow> mshr_queue \<Rightarrow> dramcache \<Rightarrow> dramcache" where
  "put_mq qi q c = (if qi = 0 then c\<lparr>mshrQueue := q\<rparr> else c\<lparr>writeBuffer := q\<rparr>)"

definition put_mshr :: "nat \<Rightarrow> nat \<Rightarrow> mshr \<Rightarrow> dramcache \<Rightarrow> dramcache" where
  "put_mshr qi i m c = put_mq qi (upd_reg (get_mq qi c) i m) c"

section \<open>Blocking and miss registers\<close>

text \<open>The causes are 0 and 1 for a full queue of registers and 2 for a register with all targets taken.\<close>

definition setBlocked :: "nat \<Rightarrow> dramcache \<Rightarrow> dramcache res" where
  "setBlocked cause c =
     bindE (if blocked c = 0 then assertE ''!blocked'' (\<not> portBlocked c) (Inr (c\<lparr>portBlocked := True\<rparr>)) else Inr c)
       (\<lambda>c1. Inr (c1\<lparr>blocked := blocked c1 OR push_bit cause 1\<rparr>))"

definition clearBlocked :: "nat \<Rightarrow> dramcache \<Rightarrow> dramcache res" where
  "clearBlocked cause c =
     (let c1 = c\<lparr>blocked := blocked c AND NOT (push_bit cause 1)\<rparr> in
      if blocked c1 = 0 then
        assertE ''blocked'' (portBlocked c1)
          (let c2 = c1\<lparr>portBlocked := False\<rparr> in
           Inr (if cacheMustSendRetry c2 then (emit RetryReq c2)\<lparr>cacheMustSendRetry := False\<rparr> else c2))
      else Inr c1)"

definition schedMemSideSendEvent :: "tick \<Rightarrow> tick \<Rightarrow> dramcache \<Rightarrow> dramcache res" where
  "schedMemSideSendEvent now time c =
     bindE (schedSendEvent now (reqQueue c) time) (\<lambda>q. Inr (c\<lparr>reqQueue := q\<rparr>))"

definition allocateBufferInternal ::
  "cache_params \<Rightarrow> tick \<Rightarrow> nat \<Rightarrow> addr \<Rightarrow> nat \<Rightarrow> packet \<Rightarrow> tick \<Rightarrow> bool \<Rightarrow> dramcache \<Rightarrow> (dramcache \<times> nat) res" where
  "allocateBufferInternal k now qi a size' pkt time sched_send c =
     assertE ''addr == blockAlign(addr)'' (a = blockAlign k a)
     (bindE (q_allocate now (get_mq qi c) a size' pkt time (c_order c)) (\<lambda>(q, i).
      let c1 = put_mq qi q (c\<lparr>c_order := c_order c + 1\<rparr>) in
      bindE (if isFull q then setBlocked qi c1 else Inr c1) (\<lambda>c2.
      if sched_send then bindE (schedMemSideSendEvent now time c2) (\<lambda>c3. Inr (c3, i)) else Inr (c2, i))))"

definition cache_markInService :: "nat \<Rightarrow> nat \<Rightarrow> dramcache \<Rightarrow> dramcache res" where
  "cache_markInService qi i c =
     (let wasFull = isFull (get_mq qi c) in
      bindE (q_markInService (get_mq qi c) i False) (\<lambda>q.
      let c1 = put_mq qi q c in if wasFull \<and> \<not> isFull q then clearBlocked qi c1 else Inr c1))"

definition allocateMissBuffer ::
  "cache_params \<Rightarrow> tick \<Rightarrow> packet \<Rightarrow> tick \<Rightarrow> bool \<Rightarrow> dramcache \<Rightarrow> (dramcache \<times> nat) res" where
  "allocateMissBuffer k now pkt time sched_send c =
     allocateBufferInternal k now 0 (blockAlign k (pkt_addr pkt)) (dramCache_block_size k) pkt time sched_send c"

definition allocateWriteBuffer :: "cache_params \<Rightarrow> tick \<Rightarrow> packet \<Rightarrow> tick \<Rightarrow> dramcache \<Rightarrow> (dramcache \<times> nat) res" where
  "allocateWriteBuffer k now pkt time c =
     assertE ''pkt->isWrite() && !pkt->isRead()'' (isWrite pkt \<and> \<not> isRead pkt)
       (allocateBufferInternal k now 1 (blockAlign k (pkt_addr pkt)) (dramCache_block_size k) pkt time True c)"

text \<open>A register is released, and the cause of blocking with it when its queue was full.\<close>

definition release_mshr :: "bool \<Rightarrow> nat \<Rightarrow> nat \<Rightarrow> dramcache \<Rightarrow> dramcache res" where
  "release_mshr wasFull qi i c =
     bindE (q_deallocate (get_mq qi c) i) (\<lambda>q.
     let c1 = put_mq qi q c in if wasFull \<and> \<not> isFull q then clearBlocked qi c1 else Inr c1)"

text \<open>\<^verbatim>\<open>mshr->allocateTarget(pkt, pkt->headerDelay, order++)\<close>.\<close>

definition add_target :: "tick \<Rightarrow> nat \<Rightarrow> packet \<Rightarrow> dramcache \<Rightarrow> dramcache res" where
  "add_target now i pkt c =
     bindE (allocateTarget now (reg (mshrQueue c) i) pkt (headerDelay pkt) (c_order c)) (\<lambda>(m, msgs).
     Inr (c\<lparr>mshrQueue := (upd_reg (mshrQueue c) i m)\<lparr>upstreamMsgs := upstreamMsgs (mshrQueue c) @ msgs\<rparr>,
            c_order := c_order c + 1\<rparr>))"

definition coalesce :: "cache_params \<Rightarrow> tick \<Rightarrow> nat \<Rightarrow> packet \<Rightarrow> dramcache \<Rightarrow> dramcache res" where
  "coalesce k now i pkt c =
     bindE (add_target now i pkt c) (\<lambda>c1.
     if getNumTargets (reg (mshrQueue c1) i) = numTarget k
     then setBlocked 2 (c1\<lparr>noTargetMSHR := Some (0, i)\<rparr>) else Inr c1)"

section \<open>Memory accesses and responses\<close>

definition cache_access :: "packet \<Rightarrow> dramcache \<Rightarrow> (dramcache \<times> packet) res" where
  "cache_access pkt c =
     assertE ''pkt->isRequest()'' (isRequest pkt)
       (bindE (access (mem c) pkt) (\<lambda>(m, pkt'). Inr (c\<lparr>mem := m\<rparr>, pkt')))"

definition respond :: "tick \<Rightarrow> packet \<Rightarrow> tick \<Rightarrow> dramcache \<Rightarrow> dramcache res" where
  "respond now pkt latency c =
     assertE ''pkt->isResponse()'' (isResponse pkt)
       (Inr (emit (RespOut (pkt\<lparr>headerDelay := 0, payloadDelay := 0\<rparr>)
                    (now + latency + headerDelay pkt + payloadDelay pkt)) c))"

definition access_respond :: "tick \<Rightarrow> tick \<Rightarrow> packet \<Rightarrow> dramcache \<Rightarrow> dramcache res" where
  "access_respond now latency pkt c =
     bindE (cache_access pkt c) (\<lambda>(c1, pkt1). respond now pkt1 latency c1)"

text \<open>The block at \<open>src\<close> is copied into the packet, which becomes a response.\<close>

definition copy_respond :: "cache_params \<Rightarrow> tick \<Rightarrow> tick \<Rightarrow> packet \<Rightarrow> packet \<Rightarrow> dramcache \<Rightarrow> dramcache res" where
  "copy_respond k now latency src pkt c =
     bindE (getPtr src) (\<lambda>s.
     bindE (getPtr pkt) (\<lambda>d.
     bindE (memcpy d 0 s 0 (dramCache_block_size k)) (\<lambda>d'.
     bindE (makeResponse (pkt\<lparr>pdata := Some d'\<rparr>)) (\<lambda>pkt1. respond now pkt1 latency c))))"

text \<open>\<^verbatim>\<open>while (mshr->hasTargets())\<close>: the body for each target's packet, then \<^verbatim>\<open>popTarget\<close>.\<close>

fun serve_targets ::
  "(packet \<Rightarrow> dramcache \<Rightarrow> dramcache res) \<Rightarrow> nat \<Rightarrow> nat \<Rightarrow> target list \<Rightarrow> dramcache \<Rightarrow> dramcache res" where
  "serve_targets f qi i [] c = Inr c"
| "serve_targets f qi i (t # ts) c =
     bindE (f (t_pkt t) c) (\<lambda>c1.
     serve_targets f qi i ts (put_mshr qi i (popTarget (reg (get_mq qi c1) i)) c1))"

definition serve_mshr ::
  "(packet \<Rightarrow> dramcache \<Rightarrow> dramcache res) \<Rightarrow> nat \<Rightarrow> nat \<Rightarrow> dramcache \<Rightarrow> dramcache res" where
  "serve_mshr f qi i c = serve_targets f qi i (tgts (targets (reg (get_mq qi c) i))) c"

text \<open>The first target of a register is taken off; it is the packet that was sent to the memory.\<close>

definition drop_first :: "nat \<Rightarrow> dramcache \<Rightarrow> (dramcache \<times> packet) res" where
  "drop_first i c =
     (let m = reg (mshrQueue c) i in
      assertE ''mshr->getNumTargets()>=1'' (getNumTargets m \<ge> 1)
      (bindE (getTarget m) (\<lambda>t. Inr (put_mshr 0 i (popTarget m) c, t_pkt t))))"

section \<open>Write-backs and fills\<close>

definition wb_request :: "cache_params \<Rightarrow> addr \<Rightarrow> nat \<Rightarrow> request" where
  "wb_request k a cid = setPhys a (dramCache_block_size k) (Some cid)"

definition doWriteBack :: "cache_params \<Rightarrow> tick \<Rightarrow> addr \<Rightarrow> nat \<Rightarrow> dramcache \<Rightarrow> dramcache res" where
  "doWriteBack k now evictAddr cid c =
     (let r = wb_request k evictAddr cid;
          dummyRdPkt = allocate_data (new_packet (newPkt c) r ReadReq);
          wbPkt = allocate_data (new_packet (newPkt c + 1) r WriteReq)
      in
      bindE (cache_access dummyRdPkt (c\<lparr>newPkt := newPkt c + 2\<rparr>)) (\<lambda>(c1, rd).
      assertE ''dummyRdPkt->isResponse()'' (isResponse rd)
      (bindE (getPtr rd) (\<lambda>s.
       bindE (getPtr wbPkt) (\<lambda>d0.
       bindE (memcpy d0 0 s 0 (dramCache_block_size k)) (\<lambda>d.
       bindE (allocateWriteBuffer k now (wbPkt\<lparr>pdata := Some d\<rparr>) (now + 1) c1) (\<lambda>(c2, _).
       Inr (c2\<lparr>dir := clear_line (fst (getSetTagFromAddr k evictAddr)) (dir c2)\<rparr>))))))))"

definition fillQueueFull :: "cache_params \<Rightarrow> dramcache \<Rightarrow> nat \<Rightarrow> bool" where
  "fillQueueFull k c neededEntries \<longleftrightarrow> length (fillQueue c) + neededEntries > fillBufferSize k"

fun fill_bursts ::
  "dram_params \<Rightarrow> cache_params \<Rightarrow> tick \<Rightarrow> packet \<Rightarrow> nat \<Rightarrow> addr \<Rightarrow> dramcache \<Rightarrow> dramcache res" where
  "fill_bursts p k now pkt 0 a c = Inr c"
| "fill_bursts p k now pkt (Suc n) a c =
     (if (pkt_addr pkt, a) \<in> isInFillQueue c then fill_bursts p k now pkt n (a + 1) c
      else
        has_context pkt (bindE (cache_decodeAddr p now pkt a (burstSize p) False) (\<lambda>dp.
        assertE ''fillQueue.size() < fillBufferSize'' (length (fillQueue c) < fillBufferSize k)
        (let c1 = c\<lparr>fillQueue := fillQueue c @ [dp\<lparr>requestAddr := pkt_addr pkt, isFill := True\<rparr>],
                    isInFillQueue := insert (pkt_addr pkt, a) (isInFillQueue c)\<rparr>
         in assertE ''fillQueue.size() == isInFillQueue.size()''
              (length (fillQueue c1) = card (isInFillQueue c1))
              (fill_bursts p k now pkt n (a + 1) c1)))))"

text \<open>The eviction of the line that the fill replaces.\<close>

definition evict_line :: "cache_params \<Rightarrow> tick \<Rightarrow> nat \<Rightarrow> dramcache \<Rightarrow> dramcache res" where
  "evict_line k now s c =
     (let l = sets (dir c) s; evictAddr = regenerateBlkAddr k s (tag l) in
      if dirty l \<and> valid l then
        doWriteBack k now evictAddr (if isGPUOwned (dir c) s then 31 else 0)
          (c\<lparr>dir := bf_do k (BfRemove evictAddr) (dir c)\<rparr>)
      else Inr c)"

definition update_bypass :: "cache_params \<Rightarrow> bool \<Rightarrow> addr \<Rightarrow> addr \<Rightarrow> dramcache \<Rightarrow> dramcache res" where
  "update_bypass k wasGPU a evictAddr c =
     (if bypassTagEnable k \<and> \<not> wasGPU then
        bindE (insertIntoBypassTag k evictAddr (fst (removeFromBypassTag k a (bypassTag c)))) (\<lambda>ts.
        Inr (c\<lparr>bypassTag := ts\<rparr>))
      else Inr c)"

definition addToFillQueue ::
  "dram_params \<Rightarrow> cache_params \<Rightarrow> bool \<Rightarrow> tick \<Rightarrow> dramcache \<Rightarrow> packet \<Rightarrow> nat \<Rightarrow> dramcache res" where
  "addToFillQueue p k gpu_running now c pkt pktCount =
     assertE ''pkt->isWrite()'' (isWrite pkt)
     (let (s, t) = getSetTagFromAddr k (pkt_addr pkt);
          evictAddr = regenerateBlkAddr k s (tag (sets (dir c) s))
      in
      if gpu_running \<and> \<not> is_gpu pkt \<and> (dirtyCleanBypassEnable k \<or> bloomFilterEnable k)
      then sched_nextReq now now c
      else
        bindE (evict_line k now s c) (\<lambda>c1.
        let wasGPU = isGPUOwned (dir c1) s;
            c2 = c1\<lparr>dir := fill_line s t (is_gpu pkt) (dir c1)\<rparr>
        in
        bindE (update_bypass k wasGPU (pkt_addr pkt) evictAddr c2) (\<lambda>c3.
        if fillQueueFull k c3 pktCount then Inr c3
        else
          bindE (fill_bursts p k now pkt pktCount (set_burst k pktCount (pkt_addr pkt)) c3)
            (sched_nextReq now now))))"

text \<open>A fill for the block of a packet that came back from the memory.\<close>

definition fill_from ::
  "dram_params \<Rightarrow> cache_params \<Rightarrow> bool \<Rightarrow> tick \<Rightarrow> addr \<Rightarrow> nat \<Rightarrow> dramcache \<Rightarrow> dramcache res" where
  "fill_from p k gpu_running now a cid c =
     addToFillQueue p k gpu_running now (c\<lparr>newPkt := newPkt c + 1\<rparr>)
       (new_packet (newPkt c) (wb_request k a cid) WriteReq) 2"

section \<open>Requests\<close>

definition in_queue :: "dram_params \<Rightarrow> (addr \<times> addr) set \<Rightarrow> dram_packet list \<Rightarrow> packet \<Rightarrow> addr \<Rightarrow> bool" where
  "in_queue p is_in q pkt a \<longleftrightarrow> (pkt_addr pkt, a) \<in> is_in \<and> list_ex (subsumed_by a (burstSize p)) q"

text \<open>The counter of a split packet, made with the first burst that is queued.\<close>

definition need_helper :: "nat \<Rightarrow> nat option \<Rightarrow> dramcache \<Rightarrow> nat option \<times> dramcache" where
  "need_helper pktCount h c =
     (if pktCount > 1 \<and> h = None
      then (Some (nextHelper c),
            c\<lparr>helpers := (helpers c)(nextHelper c \<mapsto> (pktCount, 0)), nextHelper := nextHelper c + 1\<rparr>)
      else (h, c))"

fun cache_read_bursts ::
  "dram_params \<Rightarrow> tick \<Rightarrow> packet \<Rightarrow> nat \<Rightarrow> nat \<Rightarrow> addr \<Rightarrow> nat \<Rightarrow> nat option \<Rightarrow> dramcache \<Rightarrow>
     (dramcache \<times> nat \<times> nat option) res" where
  "cache_read_bursts p now pkt pktCount 0 a served h c = Inr (c, served, h)"
| "cache_read_bursts p now pkt pktCount (Suc n) a served h c =
     (if in_queue p (isInWriteQ c) (writeQueue c) pkt a \<or> in_queue p (isInFillQueue c) (fillQueue c) pkt a then
        cache_read_bursts p now pkt pktCount n (a + 1) (served + 1) h c
      else
        let (h1, c1) = need_helper pktCount h c in
        has_context pkt (bindE (cache_decodeAddr p now pkt a (burstSize p) True) (\<lambda>dp.
        assertE ''!readQueueFull(1)'' (\<not> readQueueFull p c1 1)
          (cache_read_bursts p now pkt pktCount n (a + 1) served h1
            (c1\<lparr>readQueue := readQueue c1 @ [dp\<lparr>burstHelper := h1\<rparr>]\<rparr>)))))"

text \<open>
  A CPU read that no queue has served even in part may be sent to the memory at the same time: the
  predictor is asked, and for a predicted miss a copy of the packet goes into a miss register.
\<close>

definition send_pam :: "cache_params \<Rightarrow> tick \<Rightarrow> packet \<Rightarrow> nat \<Rightarrow> dramcache \<Rightarrow> dramcache res" where
  "send_pam k now pkt served c =
     (if served = 0 \<and> \<not> is_gpu pkt \<and> pamQueue c (pkt_addr pkt) = None then
        let blk_addr = blockAlign k (pkt_addr pkt);
            predicted_hit = predict_static k (dir c) (drawn c) blk_addr;
            c1 = c\<lparr>drawn := drawn c + 1\<rparr>
        in
        if predicted_hit then Inr c1
        else
          let clone_pkt = copy_packet (newPkt c1) pkt False True in
          bindE (allocateMissBuffer k now clone_pkt (now + 5) True (c1\<lparr>newPkt := newPkt c1 + 1\<rparr>)) (\<lambda>(c2, i).
          Inr (c2\<lparr>pamQueue := (pamQueue c2)(blk_addr \<mapsto>
                     \<lparr>isHit = - 1, isPamComplete = False, pam_mshr = i, pam_pkt = pkt_id pkt\<rparr>)\<rparr>))
      else Inr c)"

definition cache_addToReadQueue ::
  "dram_params \<Rightarrow> cache_params \<Rightarrow> tick \<Rightarrow> dramcache \<Rightarrow> packet \<Rightarrow> nat \<Rightarrow> dramcache res" where
  "cache_addToReadQueue p k now c pkt pktCount =
     assertE ''!pkt->isWrite()'' (\<not> isWrite pkt)
     (assertE ''pktCount != 0'' (pktCount \<noteq> 0)
     (bindE (cache_read_bursts p now pkt pktCount pktCount (set_burst k pktCount (pkt_addr pkt)) 0 None c)
       (\<lambda>(c1, served, h).
      if served = pktCount then access_respond now (frontendLatency p) pkt c1
      else
        let c2 = (case h of None \<Rightarrow> c1
                  | Some i \<Rightarrow> c1\<lparr>helpers := (helpers c1)(i := map_option (\<lambda>(n, _). (n, served)) (helpers c1 i))\<rparr>)
        in bindE (send_pam k now pkt served c2) (sched_nextReq now now))))"

fun cache_write_bursts ::
  "dram_params \<Rightarrow> tick \<Rightarrow> packet \<Rightarrow> nat \<Rightarrow> nat \<Rightarrow> addr \<Rightarrow> nat option \<Rightarrow> dramcache \<Rightarrow> dramcache res" where
  "cache_write_bursts p now pkt pktCount 0 a h c = Inr c"
| "cache_write_bursts p now pkt pktCount (Suc n) a h c =
     (let (h1, c1) = need_helper pktCount h c in
      has_context pkt (bindE (cache_decodeAddr p now pkt a (burstSize p) False) (\<lambda>dp.
      assertE ''writeQueue.size() < writeBufferSize'' (length (writeQueue c1) < writeBufferSize p)
      (let c2 = c1\<lparr>writeQueue := writeQueue c1 @ [dp\<lparr>burstHelper := h1\<rparr>],
                   isInWriteQ := insert (pkt_addr pkt, a) (isInWriteQ c1)\<rparr>
       in assertE ''writeQueue.size() == isInWriteQueue.size()''
            (length (writeQueue c2) = card (isInWriteQ c2))
            (cache_write_bursts p now pkt pktCount n (a + 1) h1 c2)))))"

text \<open>The write takes effect on the memory now, through a copy of the packet; the response comes later.\<close>

definition cache_addToWriteQueue ::
  "dram_params \<Rightarrow> cache_params \<Rightarrow> tick \<Rightarrow> dramcache \<Rightarrow> packet \<Rightarrow> nat \<Rightarrow> dramcache res" where
  "cache_addToWriteQueue p k now c pkt pktCount =
     assertE ''pkt->isWrite()'' (isWrite pkt)
     (bindE (cache_write_bursts p now pkt pktCount pktCount (set_burst k pktCount (pkt_addr pkt)) None c) (\<lambda>c1.
      bindE (cache_access (copy_packet (newPkt c1) pkt False True) (c1\<lparr>newPkt := newPkt c1 + 1\<rparr>)) (\<lambda>(c2, _).
      sched_nextReq now now c2)))"

text \<open>The request goes around the cache, because its block was evicted not long ago.\<close>

definition bypass_request ::
  "dram_params \<Rightarrow> cache_params \<Rightarrow> tick \<Rightarrow> packet \<Rightarrow> dramcache \<Rightarrow> dramcache res" where
  "bypass_request p k now pkt c =
     (if isRead pkt then bindE (allocateMissBuffer k now pkt (now + 5) True c) (\<lambda>(c1, _). Inr c1)
      else
        bindE (cache_access pkt c) (\<lambda>(c1, pkt1).
        let clone_pkt = allocate_data (new_packet (newPkt c1)
                          (wb_request k (pkt_addr pkt1) (contextId_of (req pkt1))) WriteReq)
        in
        bindE (allocateWriteBuffer k now clone_pkt (now + 5) (c1\<lparr>newPkt := newPkt c1 + 1\<rparr>)) (\<lambda>(c2, _).
        respond now pkt1 (frontendLatency p) c2)))"

definition cpu_bypasses :: "cache_params \<Rightarrow> bool \<Rightarrow> packet \<Rightarrow> dramcache \<Rightarrow> bool" where
  "cpu_bypasses k gpu_running pkt c \<longleftrightarrow>
     \<not> is_gpu pkt \<and> gpu_running \<and>
     (dirtyCleanBypassEnable k \<and> \<not> dirty (sets (dir c) (fst (getSetTagFromAddr k (pkt_addr pkt)))) \<or>
      bloomFilterEnable k \<and> cbf_lookup k (cbf (dir c)) (blockAlign k (pkt_addr pkt)) = 0)"

definition accept_request ::
  "dram_params \<Rightarrow> cache_params \<Rightarrow> bool \<Rightarrow> tick \<Rightarrow> packet \<Rightarrow> dramcache \<Rightarrow> (dramcache \<times> bool) res" where
  "accept_request p k gpu_running now pkt c =
     (if isRead pkt then
        if cpu_bypasses k gpu_running pkt c then
          bindE (allocateMissBuffer k now pkt 5 True c) (\<lambda>(c1, _). Inr (c1, True))
        else
          assertE ''size != 0'' (pkt_size pkt \<noteq> 0)
          (if readQueueFull p c 2 then Inr (c\<lparr>retryRdReq := True\<rparr>, False)
           else bindE (cache_addToReadQueue p k now c pkt 2) (\<lambda>c1. Inr (c1, True)))
      else if isWrite pkt then
        assertE ''size != 0'' (pkt_size pkt \<noteq> 0)
        (if writeQueueFull p c 2 then Inr (c\<lparr>retryWrReq := True\<rparr>, False)
         else bindE (cache_addToWriteQueue p k now c pkt 2) (\<lambda>c1. Inr (c1, True)))
      else Inl (FatalError ''neither read not write''))"

text \<open>The part of \<^verbatim>\<open>recvTimingReq\<close> after the tests for a blocked cache and for outstanding blocks.\<close>

definition route_request ::
  "dram_params \<Rightarrow> cache_params \<Rightarrow> bool \<Rightarrow> tick \<Rightarrow> packet \<Rightarrow> dramcache \<Rightarrow> (dramcache \<times> bool) res" where
  "route_request p k gpu_running now pkt c =
     (if bypassTagEnable k then
        let (ts, hit) = bypass_isHit k (pkt_addr pkt) (bypassTag c); c1 = c\<lparr>bypassTag := ts\<rparr> in
        if hit then bindE (bypass_request p k now pkt c1) (\<lambda>c2. Inr (c2, True))
        else accept_request p k gpu_running now pkt (c1\<lparr>switched_gpu_running := gpu_running\<rparr>)
      else accept_request p k gpu_running now pkt (c\<lparr>switched_gpu_running := gpu_running\<rparr>))"

definition cache_recvTimingReq ::
  "dram_params \<Rightarrow> cache_params \<Rightarrow> bool \<Rightarrow> tick \<Rightarrow> dramcache \<Rightarrow> packet \<Rightarrow> (dramcache \<times> bool) res" where
  "cache_recvTimingReq p k gpu_running now c0 pkt =
     (if \<not> dramCacheTimingMode k then
        bindE (access_respond now (frontendLatency p) pkt c0) (\<lambda>c1. Inr (c1, True))
      else
        let c = c0\<lparr>pendingDelete := []\<rparr> in
        if flag_memInhibit pkt \<or> cmd pkt = CleanEvict then Inr (c\<lparr>pendingDelete := [pkt]\<rparr>, True)
        else if blocked c \<noteq> 0 then Inr (c\<lparr>cacheMustSendRetry := True\<rparr>, False)
        else
          let c1 = c\<lparr>prevArrival := now\<rparr>; blk_addr = blockAlign k (pkt_addr pkt) in
          case findMatch (mshrQueue c1) blk_addr False of
            Some i \<Rightarrow>
              if cmd pkt = WriteReq then Inl (FatalError ''DRAMCache got a write request coalescing with read'')
              else bindE (coalesce k now i pkt c1) (\<lambda>c2. Inr (c2, True))
          | None \<Rightarrow>
              if findMatch (writeBuffer c1) blk_addr False \<noteq> None \<and> isRead pkt then
                bindE (access_respond now (frontendLatency p) pkt c1) (\<lambda>c2. Inr (c2, True))
              else route_request p k gpu_running now pkt c1)"

definition cache_recvAtomic :: "dram_params \<Rightarrow> dramcache \<Rightarrow> packet \<Rightarrow> (dramcache \<times> packet \<times> tick) res" where
  "cache_recvAtomic p c pkt =
     bindE (cache_access pkt c) (\<lambda>(c1, pkt1).
       Inr (c1, pkt1, if \<not> flag_memInhibit pkt1 \<and> hasData pkt1 then tRP p + tRCD p + tCL p else 0))"

end
