(* ===== verification/DRAMCache_Events.thy ===== *)
theory DRAMCache_Events
  imports DRAMCache_Ctrl
begin

text \<open>
  The event handlers of the DRAM cache controller, \<^verbatim>\<open>src/gem5/src/mem/dramcache_ctrl.cc\<close>: the next burst, the
  end of reads and of writes in the DRAM array, the responses of the memory behind the cache, the requests
  that go to it, and draining.
\<close>

section \<open>The next burst\<close>

definition cache_doDRAMAccess :: "dram_params \<Rightarrow> tick \<Rightarrow> dram_packet \<Rightarrow> dramcache \<Rightarrow> (dramcache \<times> dram_packet) res" where
  "cache_doDRAMAccess p now dp c =
     do_access p now (if dp_isRead dp then readQueue c else if isFill dp then fillQueue c else writeQueue c) dp c"

definition cache_switch_bus :: "dramcache \<Rightarrow> dramcache \<times> bool" where
  "cache_switch_bus c =
     (case busState c of
        READ_TO_WRITE \<Rightarrow> (c\<lparr>readsThisTime := 0, busState := WRITE\<rparr>, True)
      | WRITE_TO_READ \<Rightarrow>
          (c\<lparr>cacheWritesThisTime := 0, cacheFillsThisTime := 0, writesThisTime := 0, busState := READ\<rparr>, True)
      | _ \<Rightarrow> (c, False))"

definition cache_serve_read :: "dram_params \<Rightarrow> tick \<Rightarrow> bool \<Rightarrow> dramcache \<Rightarrow> dramcache res" where
  "cache_serve_read p now switched c1 =
     (let dp = hd (readQueue c1) in
      assertE ''dram_pkt->rankRef.isAvailable()'' (pkt_avail (env_of now c1) dp)
      (let c2 = (if switched \<and> dp_rank dp = activeRank c1
                 then c1\<lparr>busBusyUntil := busBusyUntil c1 + (tWTR p + tCL p)\<rparr> else c1) in
       bindE (cache_doDRAMAccess p now dp c2) (\<lambda>(c3, dp').
       let c4 = c3\<lparr>readQueue := tl (readQueue c3)\<rparr> in
       assertE ''dram_pkt->size <= burstSize'' (dp_size dp' \<le> burstSize p)
       (assertE ''dram_pkt->readyTime >= curTick()'' (dp_readyTime dp' \<ge> now)
       (bindE (push_resp now dp' c4) (\<lambda>c5.
        Inr (if length (writeQueue c5) + length (fillQueue c5) > writeHighThreshold p
             then c5\<lparr>busState := READ_TO_WRITE\<rparr> else c5)))))))"

definition push_write_resp :: "tick \<Rightarrow> dram_packet \<Rightarrow> dramcache \<Rightarrow> dramcache res" where
  "push_write_resp now dp c =
     bindE (if dramPktWriteRespQueue c = [] then
              assertE ''!respondWriteEvent.scheduled()'' (\<not> scheduled (respondWriteEvent c))
                (ev_schedule now (respondWriteEvent c) (dp_readyTime dp))
            else
              assertE ''dramPktWriteRespQueue.back()->readyTime <= dram_pkt->readyTime''
                (dp_readyTime (last (dramPktWriteRespQueue c)) \<le> dp_readyTime dp)
              (assertE ''respondWriteEvent.scheduled()'' (scheduled (respondWriteEvent c))
                 (Inr (respondWriteEvent c))))
       (\<lambda>e. Inr (c\<lparr>respondWriteEvent := e, dramPktWriteRespQueue := dramPktWriteRespQueue c @ [dp]\<rparr>))"

definition cache_serve_write :: "dram_params \<Rightarrow> tick \<Rightarrow> bool \<Rightarrow> dramcache \<Rightarrow> dramcache res" where
  "cache_serve_write p now switched c1 =
     (let dp = hd (writeQueue c1) in
      assertE ''dram_pkt->rankRef.isAvailable()'' (pkt_avail (env_of now c1) dp)
      (assertE ''dram_pkt->size <= burstSize'' (dp_size dp \<le> burstSize p)
      (let c2 = (if switched \<and> dp_rank dp = activeRank c1
                 then c1\<lparr>busBusyUntil := busBusyUntil c1 + tRTW p\<rparr> else c1) in
       bindE (cache_doDRAMAccess p now dp c2) (\<lambda>(c3, dp').
       let c4 = c3\<lparr>writeQueue := tl (writeQueue c3),
                   isInWriteQ := isInWriteQ c3 - {(pkt_addr (dp_pkt dp), dp_addr dp)}\<rparr> in
       bindE (push_write_resp now dp' c4) (\<lambda>c5.
       Inr (c5\<lparr>cacheWritesThisTime := cacheWritesThisTime c5 + 1\<rparr>))))))"

definition cache_serve_fill :: "dram_params \<Rightarrow> tick \<Rightarrow> bool \<Rightarrow> dramcache \<Rightarrow> dramcache res" where
  "cache_serve_fill p now switched c1 =
     (let dp = hd (fillQueue c1) in
      assertE ''dram_pkt->rankRef.isAvailable()'' (pkt_avail (env_of now c1) dp)
      (assertE ''dram_pkt->size <= burstSize'' (dp_size dp \<le> burstSize p)
      (let c2 = (if switched \<and> dp_rank dp = activeRank c1
                 then c1\<lparr>busBusyUntil := busBusyUntil c1 + tRTW p\<rparr> else c1) in
       bindE (cache_doDRAMAccess p now dp c2) (\<lambda>(c3, dp').
       let c4 = c3\<lparr>cacheFillsThisTime := cacheFillsThisTime c3 + 1, fillQueue := tl (fillQueue c3),
                   isInFillQueue := isInFillQueue c3 - {(requestAddr dp, dp_addr dp)}\<rparr> in
       assertE ''fillQueue.size() == isInFillQueue.size()'' (length (fillQueue c4) = card (isInFillQueue c4))
         (Inr c4)))))"

definition cache_next_read :: "dram_params \<Rightarrow> tick \<Rightarrow> bool \<Rightarrow> dramcache \<Rightarrow> (dramcache \<times> bool) res" where
  "cache_next_read p now switched c =
     (if readQueue c = [] then
        if (writeQueue c \<noteq> [] \<or> fillQueue c \<noteq> []) \<and>
           (drainState c = Draining \<or> length (writeQueue c) + length (fillQueue c) > writeLowThreshold p)
        then Inr (c\<lparr>busState := READ_TO_WRITE\<rparr>, True)
        else Inr (if drainState c = Draining \<and> respQueue c = [] \<and> dramPktWriteRespQueue c = []
                  then emit DrainDone c else c, False)
      else
        bindE (chooseNext p (env_of now c) (readQueue c) (if switched then tCS p else 0)) (\<lambda>(q, found_read).
        let c1 = c\<lparr>readQueue := q\<rparr> in
        if \<not> found_read then Inr (c1, False)
        else bindE (cache_serve_read p now switched c1) (\<lambda>c2. Inr (c2, True))))"

text \<open>In the write state: writes, or fills when there are no writes or too many fills.\<close>

definition pick_write_or_fill ::
  "dram_params \<Rightarrow> cache_params \<Rightarrow> tick \<Rightarrow> bool \<Rightarrow> dramcache \<Rightarrow> (dramcache \<times> bool) res" where
  "pick_write_or_fill p k now switched c =
     (let delay = (if switched then min (tRTW p) (tCS p) else 0) in
      if writeQueue c \<noteq> [] \<and> (length (fillQueue c) < fillHighThreshold k \<or>
           length (writeQueue c) > min (writeHighThreshold p) (fillHighThreshold k)) then
        bindE (chooseNext p (env_of now c) (writeQueue c) delay) (\<lambda>(q, found_write).
        let c1 = c\<lparr>writeQueue := q\<rparr> in
        if \<not> found_write then Inr (c1, False)
        else bindE (cache_serve_write p now switched c1) (\<lambda>c2. Inr (c2, True)))
      else if writeQueue c = [] \<or> (writeQueue c \<noteq> [] \<and> length (fillQueue c) \<ge> fillHighThreshold k) then
        bindE (chooseNext p (env_of now c) (fillQueue c) delay) (\<lambda>(q, found_fill).
        let c1 = c\<lparr>fillQueue := q\<rparr> in
        if \<not> found_fill then Inr (c1, False)
        else bindE (cache_serve_fill p now switched c1) (\<lambda>c2. Inr (c2, True)))
      else Inl (FatalError ''busState write; unable determine service fills or writes''))"

definition cache_next_write ::
  "dram_params \<Rightarrow> cache_params \<Rightarrow> tick \<Rightarrow> bool \<Rightarrow> dramcache \<Rightarrow> (dramcache \<times> bool) res" where
  "cache_next_write p k now switched c =
     bindE (pick_write_or_fill p k now switched c) (\<lambda>(c1, go).
     if \<not> go then Inr (c1, False)
     else Inr (if (writeQueue c1 = [] \<and> fillQueue c1 = []) \<or>
                  (length (writeQueue c1) + length (fillQueue c1) + minWritesPerSwitch p < writeLowThreshold p \<and>
                   drainState c1 \<noteq> Draining) \<or>
                  (readQueue c1 \<noteq> [] \<and> writesThisTime c1 \<ge> minWritesPerSwitch p)
               then c1\<lparr>busState := WRITE_TO_READ\<rparr> else c1, True))"

definition cache_processNextReqEvent :: "dram_params \<Rightarrow> cache_params \<Rightarrow> tick \<Rightarrow> dramcache \<Rightarrow> dramcache res" where
  "cache_processNextReqEvent p k now c0 =
     (let c = c0\<lparr>nextReqEvent := None\<rparr> in
      bindE (check_ranks now (ranks c)) (\<lambda>rs.
      let c1 = c\<lparr>ranks := rs\<rparr> in
      if count_if (\<lambda>rk. \<not> isAvailable rk) (ranks c) = ranksPerChannel p then Inr c1
      else
        let (c2, switched) = cache_switch_bus c1 in
        bindE (if busState c2 = READ then cache_next_read p now switched c2
               else cache_next_write p k now switched c2) (\<lambda>(c3, go).
        if \<not> go then Inr c3
        else
          bindE (sched_nextReq now (max (nextReqTime c3) now) c3) (\<lambda>c4.
          Inr (if retryWrReq c4 \<and> length (writeQueue c4) < writeBufferSize p
               then emit RetryReq (c4\<lparr>retryWrReq := False\<rparr>) else c4)))))"
section \<open>Responses of the DRAM array\<close>

text \<open>A write that misses: the line is taken over, or the block goes to the memory.\<close>

definition write_miss :: "cache_params \<Rightarrow> tick \<Rightarrow> packet \<Rightarrow> dramcache \<Rightarrow> dramcache res" where
  "write_miss k now pkt c =
     (if dramCache_write_allocate k then
        let (s, t) = getSetTagFromAddr k (pkt_addr pkt) in
        bindE (if dirty (sets (dir c) s)
               then doWriteBack k now (regenerateBlkAddr k s (tag (sets (dir c) s)))
                      (if isGPUOwned (dir c) s then 31 else 0) c
               else Inr c) (\<lambda>c1.
        Inr (c1\<lparr>dir := (upd_set s ((sets (dir c1) s)\<lparr>tag := word_of_nat t, dirty := True\<rparr>) (dir c1))
                         \<lparr>isGPUOwned := (isGPUOwned (dir c1))(s := is_gpu pkt)\<rparr>\<rparr>))
      else
        let new_pkt = allocate_data (new_packet (newPkt c)
                        (wb_request k (pkt_addr pkt) (contextId_of (req pkt))) WriteReq) in
        bindE (getPtr new_pkt) (\<lambda>d0.
        bindE (getPtr pkt) (\<lambda>s.
        bindE (memcpy d0 0 s 0 (dramCache_block_size k)) (\<lambda>d.
        bindE (allocateWriteBuffer k now (new_pkt\<lparr>pdata := Some d\<rparr>) (now + 1) (c\<lparr>newPkt := newPkt c + 1\<rparr>))
          (\<lambda>(c1, _). Inr c1)))))"

definition finish_write :: "dram_params \<Rightarrow> cache_params \<Rightarrow> tick \<Rightarrow> packet \<Rightarrow> dramcache \<Rightarrow> dramcache res" where
  "finish_write p k now pkt c =
     bindE (doCacheLookup k (dir c) pkt) (\<lambda>(d, hit).
     bindE (if hit then Inr (c\<lparr>dir := d\<rparr>) else write_miss k now pkt (c\<lparr>dir := d\<rparr>)) (\<lambda>c1.
     assertE ''!respPkt->isResponse()'' (\<not> isResponse pkt)
     (bindE (makeResponse pkt) (\<lambda>pkt1. respond now pkt1 (frontendLatency p) c1))))"

text \<open>
  The common part of the two respond events: the counter of the split packet is counted up, and
  \<open>last_burst\<close> is done with its last burst. A packet of one burst is not supported.
\<close>

definition count_burst ::
  "string \<Rightarrow> dram_packet \<Rightarrow> (dramcache \<Rightarrow> dramcache res) \<Rightarrow> dramcache \<Rightarrow> dramcache res" where
  "count_burst msg dp last_burst c =
     (case burstHelper dp of
        None \<Rightarrow> Inl (FatalError msg)
      | Some h \<Rightarrow>
          (case helpers c h of
             None \<Rightarrow> Inl (Undefined ''burstHelper'')
           | Some (n, j) \<Rightarrow>
               if j + 1 = n then last_burst (c\<lparr>helpers := (helpers c)(h := None)\<rparr>)
               else Inr (c\<lparr>helpers := (helpers c)(h \<mapsto> (n, j + 1))\<rparr>)))"

definition processWriteRespondEvent :: "dram_params \<Rightarrow> cache_params \<Rightarrow> tick \<Rightarrow> dramcache \<Rightarrow> dramcache res" where
  "processWriteRespondEvent p k now c0 =
     (let c = c0\<lparr>respondWriteEvent := None\<rparr> in
      case dramPktWriteRespQueue c of
        [] \<Rightarrow> Inl (Undefined ''dramPktWriteRespQueue.front()'')
      | dp # rest \<Rightarrow>
          bindE (count_burst ''DRAMCache ctrl doesnt support single burst for write'' dp
                   (finish_write p k now (dp_pkt dp)) c) (\<lambda>c1.
          let c2 = c1\<lparr>dramPktWriteRespQueue := rest\<rparr> in
          case rest of
            [] \<Rightarrow> Inr (if drainState c2 = Draining \<and> writeQueue c2 = [] \<and> readQueue c2 = [] \<and> respQueue c2 = []
                       then emit DrainDone c2 else c2)
          | dp' # _ \<Rightarrow>
              assertE ''dramPktWriteRespQueue.front()->readyTime >= curTick()'' (dp_readyTime dp' \<ge> now)
              (assertE ''!respondWriteEvent.scheduled()'' (\<not> scheduled (respondWriteEvent c2))
              (bindE (ev_schedule now (respondWriteEvent c2) (dp_readyTime dp')) (\<lambda>e.
                Inr (c2\<lparr>respondWriteEvent := e\<rparr>))))))"

text \<open>
  The end of a read that was sent to the memory as well. When the memory has answered, its block is the
  data of the first target; the packet and the targets that joined it are answered from the memory image
  (for a hit) or from that block (for a miss, which also fills the line). When it has not, a hit answers all of
  them, and a miss makes the packet a target of its own register.
\<close>

definition pam_done ::
  "dram_params \<Rightarrow> cache_params \<Rightarrow> bool \<Rightarrow> tick \<Rightarrow> packet \<Rightarrow> pam_req \<Rightarrow> bool \<Rightarrow> dramcache \<Rightarrow> dramcache res" where
  "pam_done p k gpu_running now pkt pr hit c =
     (let i = pam_mshr pr; lat = frontendLatency p + backendLatency p in
      bindE
       (if hit then
          bindE (access_respond now lat pkt c) (\<lambda>c1.
          bindE (drop_first i c1) (\<lambda>(c2, _). serve_mshr (access_respond now lat) 0 i c2))
        else
          bindE (drop_first i c) (\<lambda>(c1, first_tgt_pkt).
          bindE (copy_respond k now lat first_tgt_pkt pkt c1) (\<lambda>c2.
          has_context pkt
          (bindE (serve_mshr (copy_respond k now lat first_tgt_pkt) 0 i c2) (\<lambda>c3.
           fill_from p k gpu_running now (pkt_addr first_tgt_pkt) (contextId_of (req pkt)) c3)))))
       (\<lambda>c4. release_mshr (isFull (mshrQueue c4)) 0 i
               (c4\<lparr>pamQueue := (pamQueue c4)(pkt_addr pkt := None)\<rparr>)))"

definition pam_early ::
  "dram_params \<Rightarrow> cache_params \<Rightarrow> tick \<Rightarrow> packet \<Rightarrow> pam_req \<Rightarrow> bool \<Rightarrow> dramcache \<Rightarrow> dramcache res" where
  "pam_early p k now pkt pr hit c =
     (let i = pam_mshr pr; lat = frontendLatency p + backendLatency p in
      if hit then
        bindE (access_respond now lat pkt c) (\<lambda>c1.
        bindE (drop_first i c1) (\<lambda>(c2, _).
        bindE (serve_mshr (access_respond now lat) 0 i c2) (\<lambda>c3.
        let was_sent = inService (reg (mshrQueue c3) i) in
        bindE (release_mshr (isFull (mshrQueue c3)) 0 i c3) (\<lambda>c4.
        Inr (if was_sent then c4 else c4\<lparr>pamQueue := (pamQueue c4)(pkt_addr pkt := None)\<rparr>)))))
      else add_target now i pkt c)"

text \<open>A read that did not go to the memory: a hit is answered, a miss goes to the memory now.\<close>

definition miss_or_hit :: "dram_params \<Rightarrow> cache_params \<Rightarrow> tick \<Rightarrow> packet \<Rightarrow> bool \<Rightarrow> dramcache \<Rightarrow> dramcache res" where
  "miss_or_hit p k now pkt hit c =
     (if hit then access_respond now (frontendLatency p + backendLatency p) pkt c
      else
        case findMatch (mshrQueue c) (blockAlign k (pkt_addr pkt)) False of
          Some i \<Rightarrow> coalesce k now i pkt c
        | None \<Rightarrow> bindE (allocateMissBuffer k now pkt (now + 1) True c) (\<lambda>(c1, _). Inr c1))"

text \<open>The last burst of a read: the tags are known.\<close>

definition finish_read ::
  "dram_params \<Rightarrow> cache_params \<Rightarrow> bool \<Rightarrow> tick \<Rightarrow> packet \<Rightarrow> dramcache \<Rightarrow> dramcache res" where
  "finish_read p k gpu_running now pkt c =
     bindE (doCacheLookup k (dir c) pkt) (\<lambda>(d, hit).
     let c1 = c\<lparr>dir := d\<rparr> in
     case pamQueue c1 (pkt_addr pkt) of
       Some pr \<Rightarrow>
         if pam_pkt pr = pkt_id pkt then
           let pr' = pr\<lparr>isHit := (if hit then 1 else 0)\<rparr>;
               c2 = c1\<lparr>pamQueue := (pamQueue c1)(pkt_addr pkt \<mapsto> pr')\<rparr>
           in if isPamComplete pr' then pam_done p k gpu_running now pkt pr' hit c2
              else pam_early p k now pkt pr' hit c2
         else miss_or_hit p k now pkt hit c1
     | None \<Rightarrow> miss_or_hit p k now pkt hit c1)"

definition processRespondHelper :: "tick \<Rightarrow> dramcache \<Rightarrow> dramcache res" where
  "processRespondHelper now c =
     (let c1 = c\<lparr>respQueue := tl (respQueue c)\<rparr> in
      bindE
        (case respQueue c1 of
           [] \<Rightarrow> Inr (if drainState c1 = Draining \<and> writeQueue c1 = [] \<and> readQueue c1 = [] \<and>
                         dramPktWriteRespQueue c1 = []
                      then emit DrainDone c1 else c1)
         | dp' # _ \<Rightarrow>
             assertE ''respQueue.front()->readyTime >= curTick()'' (dp_readyTime dp' \<ge> now)
             (assertE ''!respondEvent.scheduled()'' (\<not> scheduled (respondEvent c1))
             (bindE (ev_schedule now (respondEvent c1) (dp_readyTime dp')) (\<lambda>e. Inr (c1\<lparr>respondEvent := e\<rparr>)))))
        (\<lambda>c2. Inr (if retryRdReq c2 then emit RetryReq (c2\<lparr>retryRdReq := False\<rparr>) else c2)))"

definition cache_processRespondEvent ::
  "dram_params \<Rightarrow> cache_params \<Rightarrow> bool \<Rightarrow> tick \<Rightarrow> dramcache \<Rightarrow> dramcache res" where
  "cache_processRespondEvent p k gpu_running now c0 =
     (let c = c0\<lparr>respondEvent := None\<rparr> in
      case respQueue c of
        [] \<Rightarrow> Inl (Undefined ''respQueue.front()'')
      | dp # rest \<Rightarrow>
          bindE (count_burst ''DRAMCache ctrl doesnt support single burst for read'' dp
                   (finish_read p k gpu_running now (dp_pkt dp)) c) (processRespondHelper now))"

section \<open>Responses of the memory\<close>

definition clear_no_target :: "nat \<Rightarrow> nat \<Rightarrow> dramcache \<Rightarrow> dramcache res" where
  "clear_no_target qi i c =
     (if noTargetMSHR c = Some (qi, i)
      then bindE (clearBlocked 2 c) (\<lambda>c1. Inr (c1\<lparr>noTargetMSHR := None\<rparr>)) else Inr c)"

text \<open>The answer to a request that the cache was asked for at the same time.\<close>

definition pam_response ::
  "dram_params \<Rightarrow> cache_params \<Rightarrow> bool \<Rightarrow> tick \<Rightarrow> packet \<Rightarrow> nat \<Rightarrow> pam_req \<Rightarrow> dramcache \<Rightarrow> dramcache res" where
  "pam_response p k gpu_running now pkt i pr c0 =
     (let c = c0\<lparr>pamQueue := (pamQueue c0)(pkt_addr pkt \<mapsto> pr\<lparr>isPamComplete := True\<rparr>)\<rparr>; j = pam_mshr pr in
      if isHit pr = - 1 then
        let m = reg (mshrQueue c) j in
        assertE ''pr->mshr->getNumTargets()>=1'' (getNumTargets m \<ge> 1)
        (bindE (getTarget m) (\<lambda>t.
         bindE (getPtr (t_pkt t)) (\<lambda>d0.
         bindE (getPtr pkt) (\<lambda>s.
         bindE (memcpy d0 0 s 0 (dramCache_block_size k)) (\<lambda>d.
         let t' = t\<lparr>t_pkt := (t_pkt t)\<lparr>pdata := Some d\<rparr>\<rparr>;
             m' = m\<lparr>targets := (targets m)\<lparr>tgts := t' # tl (tgts (targets m))\<rparr>\<rparr>
         in Inr (put_mshr 0 j m' c))))))
      else
        bindE
         (if isHit pr = 1 then Inr c
          else
            assertE ''mshr==pr->mshr'' (i = j)
            (let wasFull = isFull (mshrQueue c) in
             bindE (clear_no_target 0 i c) (\<lambda>c0.
             bindE (drop_first i c0) (\<lambda>(c1, _).
             bindE (serve_mshr (copy_respond k now 1 pkt) 0 i c1) (\<lambda>c2.
             bindE (release_mshr wasFull 0 i c2) (\<lambda>c3.
             has_context pkt
             (fill_from p k gpu_running now (pkt_addr pkt) (contextId_of (req pkt)) c3)))))))
         (\<lambda>c4. Inr (c4\<lparr>pamQueue := (pamQueue c4)(pkt_addr pkt := None)\<rparr>)))"

text \<open>The answer to a miss: the block is filled in unless it is there, and all targets are answered.\<close>

definition miss_response ::
  "dram_params \<Rightarrow> cache_params \<Rightarrow> bool \<Rightarrow> tick \<Rightarrow> packet \<Rightarrow> nat \<Rightarrow> dramcache \<Rightarrow> dramcache res" where
  "miss_response p k gpu_running now pkt i c =
     assertE ''mshr->getNumTargets()>=1'' (getNumTargets (reg (mshrQueue c) i) \<ge> 1)
     (bindE (getTarget (reg (mshrQueue c) i)) (\<lambda>_.
      bindE (if set_hit k (dir c) (pkt_addr pkt) then Inr c
             else has_context pkt
                    (fill_from p k gpu_running now (pkt_addr pkt) (contextId_of (req pkt)) c)) (\<lambda>c1.
      serve_mshr (\<lambda>tgt_pkt c.
          assertE ''pkt->getAddr() == tgt_pkt->getAddr()'' (pkt_addr pkt = pkt_addr tgt_pkt)
            (access_respond now (backendLatency p) tgt_pkt c)) 0 i c1)))"

definition cache_recvTimingResp ::
  "dram_params \<Rightarrow> cache_params \<Rightarrow> bool \<Rightarrow> tick \<Rightarrow> dramcache \<Rightarrow> packet \<Rightarrow> dramcache res" where
  "cache_recvTimingResp p k gpu_running now c pkt =
     assertE ''pkt->isResponse()'' (isResponse pkt)
     (case senderState pkt of
        MSHRRef qi i # _ \<Rightarrow>
          (case (if qi = 0 then pamQueue c (pkt_addr pkt) else None) of
             Some pr \<Rightarrow> pam_response p k gpu_running now pkt i pr c
           | None \<Rightarrow>
               let wasFull = isFull (get_mq qi c) in
               bindE (clear_no_target qi i c) (\<lambda>c1.
               bindE
                (if qi = 0 \<and> isRead pkt then miss_response p k gpu_running now pkt i c1
                 else if qi = 1 \<and> isWrite pkt then
                   assertE ''mshr->getNumTargets()==1'' (getNumTargets (reg (writeBuffer c1) i) = 1)
                   (bindE (getTarget (reg (writeBuffer c1) i)) (\<lambda>_.
                    Inr (put_mshr 1 i (popTarget (reg (writeBuffer c1) i)) c1)))
                 else Inl (FatalError ''DRAMCache does not understand this response''))
                (release_mshr wasFull qi i)))
      | _ \<Rightarrow> Inl (AssertFail ''mshr''))"

section \<open>Requests to the memory\<close>

definition next_miss :: "dramcache \<Rightarrow> nat option \<Rightarrow> (nat \<times> nat) option" where
  "next_miss c miss_mshr =
     (case miss_mshr of
        None \<Rightarrow> None
      | Some i \<Rightarrow>
          (case findPending (writeBuffer c) (blkAddr (reg (mshrQueue c) i)) (isSecure (reg (mshrQueue c) i)) of
             Some w \<Rightarrow> Some (1, w)
           | None \<Rightarrow> Some (0, i)))"

text \<open>
  The next register to be served; a pending miss to the block of the write that is to go first is looked
  up among the secure blocks only.
\<close>

definition cache_getNextMSHR :: "tick \<Rightarrow> dramcache \<Rightarrow> (nat \<times> nat) option" where
  "cache_getNextMSHR now c =
     (let miss_mshr = q_getNextMSHR now (mshrQueue c); write_mshr = q_getNextMSHR now (writeBuffer c) in
      case write_mshr of
        Some w \<Rightarrow>
          if (isFull (writeBuffer c) \<and> inServiceEntries (writeBuffer c) = 0) \<or> miss_mshr = None then
            (case findPending (mshrQueue c) (blkAddr (reg (writeBuffer c) w)) True of
               Some i \<Rightarrow> if order (reg (mshrQueue c) i) < order (reg (writeBuffer c) w) then Some (0, i) else Some (1, w)
             | None \<Rightarrow> Some (1, w))
          else next_miss c miss_mshr
      | None \<Rightarrow> next_miss c miss_mshr)"

definition nextMSHRReadyTime :: "dramcache \<Rightarrow> tick" where
  "nextMSHRReadyTime c = min (q_nextMSHRReadyTime (mshrQueue c)) (q_nextMSHRReadyTime (writeBuffer c))"

definition getTimingPacket :: "cache_params \<Rightarrow> tick \<Rightarrow> dramcache \<Rightarrow> (dramcache \<times> (nat \<times> nat \<times> packet) option) res" where
  "getTimingPacket k now c =
     (case cache_getNextMSHR now c of
        None \<Rightarrow> Inr (c, None)
      | Some (qi, i) \<Rightarrow>
          let m = reg (get_mq qi c) i; c1 = c\<lparr>newPkt := newPkt c + 1\<rparr> in
          assertE ''mshr->getNumTargets()>=1'' (getNumTargets m \<ge> 1)
          (bindE (getTarget m) (\<lambda>t.
           bindE (if qi = 0 then Inr (copy_packet (newPkt c) (t_pkt t) False True)
                  else
                    let pkt = allocate_data (new_packet_blk (newPkt c) (req (t_pkt t)) WriteReq (dramCache_block_size k)) in
                    bindE (getPtr (t_pkt t)) (\<lambda>s.
                    bindE (getPtr pkt) (\<lambda>d0.
                    bindE (memcpy d0 0 s 0 (pkt_size pkt)) (\<lambda>d. Inr (pkt\<lparr>pdata := Some d\<rparr>)))))
            (\<lambda>pkt. Inr (c1, Some (qi, i, pkt\<lparr>senderState := [MSHRRef qi i]\<rparr>))))))"

text \<open>\<open>accepted\<close> says whether the memory takes the packet.\<close>

definition cache_sendDeferredPacket :: "cache_params \<Rightarrow> tick \<Rightarrow> bool \<Rightarrow> dramcache \<Rightarrow> dramcache res" where
  "cache_sendDeferredPacket k now accepted c =
     assertE ''!waitingOnRetry'' (\<not> waitingOnRetry (reqQueue c))
     (bindE (getTimingPacket k now c) (\<lambda>(c1, r).
      case r of
        None \<Rightarrow> Inr c1
      | Some (qi, i, pkt) \<Rightarrow>
          let c2 = c1\<lparr>reqQueue := (reqQueue c1)\<lparr>waitingOnRetry := \<not> accepted\<rparr>\<rparr> in
          if accepted then
            bindE (cache_markInService qi i (emit (MemReq pkt) c2)) (\<lambda>c3.
            schedMemSideSendEvent now (nextMSHRReadyTime c3) c3)
          else Inr c2))"

definition cache_processSendEvent :: "cache_params \<Rightarrow> tick \<Rightarrow> bool \<Rightarrow> dramcache \<Rightarrow> dramcache res" where
  "cache_processSendEvent k now accepted c0 =
     (let c = c0\<lparr>reqQueue := (reqQueue c0)\<lparr>sendEvent := None\<rparr>\<rparr> in
      assertE ''!waitingOnRetry'' (\<not> waitingOnRetry (reqQueue c)) (cache_sendDeferredPacket k now accepted c))"

definition cache_recvReqRetry :: "cache_params \<Rightarrow> tick \<Rightarrow> bool \<Rightarrow> dramcache \<Rightarrow> dramcache res" where
  "cache_recvReqRetry k now accepted c =
     assertE ''waitingOnRetry'' (waitingOnRetry (reqQueue c))
       (cache_sendDeferredPacket k now accepted (c\<lparr>reqQueue := (reqQueue c)\<lparr>waitingOnRetry := False\<rparr>\<rparr>))"

section \<open>Draining\<close>

definition cache_drain :: "tick \<Rightarrow> dramcache \<Rightarrow> (dramcache \<times> drain_state) res" where
  "cache_drain now c =
     (if \<not> (writeQueue c = [] \<and> readQueue c = [] \<and> respQueue c = [] \<and> dramPktWriteRespQueue c = []) then
        bindE (if writeQueue c \<noteq> [] \<and> \<not> scheduled (nextReqEvent c)
               then sched_nextReq now now c else Inr c) (\<lambda>c1. Inr (c1, Draining))
      else Inr (c, Drained))"

end
