(* ===== verification/DRAMCache_Frame.thy ===== *)
theory DRAMCache_Frame
  imports DRAMCache_Events
begin

text \<open>
  What the operations of the DRAM cache leave alone. The invariants of the next theory speak of the tag
  directory, the packets in the four queues of bursts, the blocking of the port and whether the two queues of
  registers are full; these parts of the state are its \<open>view\<close>. The lemmas are rules of a calculus of weakest
  preconditions: the rule of an operation says which result states have to be considered after it. A failure
  is acceptable in this calculus when it is not a failed assertion of the port.
\<close>

section \<open>Weakest preconditions\<close>

named_theorems wp_intro \<open>rules for weakest preconditions\<close>

definition wp :: "(fail \<Rightarrow> bool) \<Rightarrow> 'a res \<Rightarrow> ('a \<Rightarrow> bool) \<Rightarrow> bool" where
  "wp E m Q = (case m of Inl e \<Rightarrow> E e | Inr x \<Rightarrow> Q x)"

lemma wp_simps [simp]: "wp E (Inr x) Q = Q x" "wp E (Inl e) Q = E e"
  by (simp_all add: wp_def)

lemma wp_done: "Q x \<Longrightarrow> wp E (Inr x) Q" "E e \<Longrightarrow> wp E (Inl e) Q"
  by simp_all

lemma wp_bindE [wp_intro]: "wp E m (\<lambda>x. wp E (f x) Q) \<Longrightarrow> wp E (bindE m f) Q"
  by (cases m) simp_all

lemma wp_assertE [wp_intro]:
  "(P \<Longrightarrow> wp E k Q) \<Longrightarrow> (\<not> P \<Longrightarrow> E (AssertFail msg)) \<Longrightarrow> wp E (assertE msg P k) Q"
  by (cases P) simp_all

lemma wp_if [wp_intro]:
  "(b \<Longrightarrow> wp E m Q) \<Longrightarrow> (\<not> b \<Longrightarrow> wp E m' Q) \<Longrightarrow> wp E (if b then m else m') Q"
  by simp

lemma wp_prod [wp_intro]: "(\<And>a b. x = (a, b) \<Longrightarrow> wp E (f a b) Q) \<Longrightarrow> wp E (case x of (a, b) \<Rightarrow> f a b) Q"
  by (cases x) simp

lemma wp_option [wp_intro]:
  "(x = None \<Longrightarrow> wp E m Q) \<Longrightarrow> (\<And>y. x = Some y \<Longrightarrow> wp E (f y) Q) \<Longrightarrow>
     wp E (case x of None \<Rightarrow> m | Some y \<Rightarrow> f y) Q"
  by (cases x) simp_all

lemma wp_list [wp_intro]:
  "(xs = [] \<Longrightarrow> wp E m Q) \<Longrightarrow> (\<And>y ys. xs = y # ys \<Longrightarrow> wp E (f y ys) Q) \<Longrightarrow>
     wp E (case xs of [] \<Rightarrow> m | y # ys \<Rightarrow> f y ys) Q"
  by (cases xs) simp_all

lemma wp_mono: "wp E m P \<Longrightarrow> (\<And>x. P x \<Longrightarrow> Q x) \<Longrightarrow> wp E m Q"
  by (cases m) simp_all

lemma wp_result: "wp E m Q \<Longrightarrow> m = Inr x \<Longrightarrow> Q x"
  by simp

text \<open>The rule for a result of which nothing is known.\<close>

lemma wp_any: "wp E m (\<lambda>_. True) \<Longrightarrow> (\<And>x. m = Inr x \<Longrightarrow> Q x) \<Longrightarrow> wp E m Q"
  by (cases m) simp_all

definition port_ok :: "fail \<Rightarrow> bool" where
  "port_ok e \<longleftrightarrow> e \<noteq> AssertFail ''!blocked'' \<and> e \<noteq> AssertFail ''blocked''"

lemma port_ok_simps [simp]:
  "port_ok (FatalError s)" "port_ok (PanicError s)" "port_ok (Undefined s)"
  "port_ok (AssertFail s) \<longleftrightarrow> s \<noteq> ''!blocked'' \<and> s \<noteq> ''blocked''"
  by (simp_all add: port_ok_def)

section \<open>Operations on packets, memory and registers\<close>

lemma wp_leaf [wp_intro]:
  "(\<And>x. getPtr pkt = Inr x \<Longrightarrow> Q1 x) \<Longrightarrow> wp port_ok (getPtr pkt) Q1"
  "(\<And>x. memcpy d i s j n = Inr x \<Longrightarrow> Q2 x) \<Longrightarrow> wp port_ok (memcpy d i s j n) Q2"
  "(\<And>x. makeResponse pkt = Inr x \<Longrightarrow> Q3 x) \<Longrightarrow> wp port_ok (makeResponse pkt) Q3"
  "(\<And>x. getTarget m = Inr x \<Longrightarrow> Q4 x) \<Longrightarrow> wp port_ok (getTarget m) Q4"
  "(\<And>x. ev_schedule now e t = Inr x \<Longrightarrow> Q5 x) \<Longrightarrow> wp port_ok (ev_schedule now e t) Q5"
  "(\<And>x. allocateTarget now m pkt t n = Inr x \<Longrightarrow> Q6 x) \<Longrightarrow> wp port_ok (allocateTarget now m pkt t n) Q6"
  "(\<And>x. insertIntoBypassTag k a ts = Inr x \<Longrightarrow> Q7 x) \<Longrightarrow> wp port_ok (insertIntoBypassTag k a ts) Q7"
  "(\<And>x. schedSendEvent now q t = Inr x \<Longrightarrow> Q8 x) \<Longrightarrow> wp port_ok (schedSendEvent now q t) Q8"
  by (rule wp_any, auto simp: getPtr_def memcpy_def makeResponse_def getTarget_def ev_schedule_def allocateTarget_def
      insertIntoBypassTag_def schedSendEvent_def ev_reschedule_def Let_def case_prod_beta
      intro!: wp_intro split: option.splits)+

lemma wp_has_context [wp_intro]: "wp port_ok k Q \<Longrightarrow> wp port_ok (has_context pkt k) Q"
  by (auto simp: has_context_def intro!: wp_intro)

lemma wp_access [wp_intro]:
  assumes "\<And>x. access m pkt = Inr x \<Longrightarrow> Q x"
  shows "wp port_ok (access m pkt) Q"
proof -
  have "wp port_ok (trackLoadLocked m pkt) (\<lambda>_. True)"
    by (auto simp: trackLoadLocked_def Let_def case_prod_beta intro!: wp_intro split: option.splits)
  moreover have "wp port_ok (writeOK m pkt) (\<lambda>_. True)"
    by (auto simp: writeOK_def checkLockedAddrList_def Let_def case_prod_beta intro!: wp_intro split: option.splits)
  ultimately have "wp port_ok (access_branch m pkt) (\<lambda>_. True)"
    by (auto simp: access_branch_def swap_access_def store_data_def mem_read_def mem_write_def Let_def
        intro!: wp_intro elim!: wp_mono split: option.splits)
  then have "wp port_ok (access m pkt) (\<lambda>_. True)"
    by (auto simp: access_def intro!: wp_intro elim!: wp_mono)
  then show ?thesis using assms by (rule wp_any)
qed


lemma wp_addToReadyList [wp_intro]:
  "(\<And>x. addToReadyList q i = Inr x \<Longrightarrow> Q x) \<Longrightarrow> wp E (addToReadyList q i) Q"
  using addToReadyList_succeeds [of q i] by auto

lemma wp_q_allocate [wp_intro]:
  assumes "\<And>q' i. (isFull q \<longrightarrow> isFull q') \<Longrightarrow> Q (q', i)"
  shows "wp port_ok (q_allocate now q a sz pkt t n) Q"
proof (rule wp_any)
  show "wp port_ok (q_allocate now q a sz pkt t n) (\<lambda>_. True)"
    by (auto simp: q_allocate_def mshr_allocate_def Let_def case_prod_beta intro!: wp_intro split: list.splits)
  show "Q x" if "q_allocate now q a sz pkt t n = Inr x" for x
    using that assms q_allocate_shape [of now q a sz pkt t n] by (cases x) (fastforce simp: isFull_def)
qed

lemma wp_deallocateOne:
  assumes "\<And>q'. (isFull q' \<longrightarrow> isFull q) \<Longrightarrow> Q q'"
  shows "wp port_ok (deallocateOne q i) Q"
proof (rule wp_any)
  show "wp port_ok (deallocateOne q i) (\<lambda>_. True)"
    by (auto simp: deallocateOne_def erase_def mshr_deallocate_def Let_def intro!: wp_intro)
  show "Q x" if "deallocateOne q i = Inr x" for x
    using assms deallocateOne_shape [OF that] by (auto simp: isFull_def)
qed

lemma wp_q_deallocate [wp_intro]:
  "(\<And>q'. (isFull q' \<longrightarrow> isFull q) \<Longrightarrow> Q q') \<Longrightarrow> wp port_ok (q_deallocate q i) Q"
  by (simp add: q_deallocate_def wp_deallocateOne)

lemma isFull_frame [simp]:
  "isFull (upd_reg q i m) = isFull q" "isFull (q\<lparr>upstreamMsgs := ms\<rparr>) = isFull q"
  "isFull (q\<lparr>readyList := rl, inServiceEntries := n\<rparr>) = isFull q"
  by (simp_all add: isFull_def)

lemma wp_q_markInService [wp_intro]:
  assumes "\<And>q'. (isFull q' \<longrightarrow> isFull q) \<Longrightarrow> Q q'"
  shows "wp port_ok (q_markInService q i d) Q"
  using assms
  by (auto simp: q_markInService_def mshr_markInService_def erase_def Let_def intro!: wp_intro)

lemma wp_doCacheLookup [wp_intro]:
  "(\<And>x. doCacheLookup k d pkt = Inr x \<Longrightarrow> Q x) \<Longrightarrow> wp port_ok (doCacheLookup k d pkt) Q"
  by (rule wp_any) (auto simp: doCacheLookup_def Let_def intro!: wp_intro)

lemma wp_decodeAddr [wp_intro]:
  assumes "\<And>dp. dp_pkt dp = pkt \<Longrightarrow> Q dp"
  shows "wp port_ok (cache_decodeAddr p now pkt a n rd) Q"
  using assms
  by (auto simp: cache_decodeAddr_def make_dram_packet_def Let_def case_prod_beta intro!: wp_intro)

section \<open>The view of the state\<close>

record cache_view =
  v_dir :: tag_dir
  v_reads :: "dram_packet list"
  v_writes :: "dram_packet list"
  v_resps :: "dram_packet list"
  v_wresps :: "dram_packet list"
  v_blocked :: u8
  v_port :: bool
  v_noTarget :: bool
  v_mshrs :: bool
  v_wbufs :: bool

definition view :: "dramcache \<Rightarrow> cache_view" where
  "view c = \<lparr>v_dir = dir c, v_reads = readQueue c, v_writes = writeQueue c, v_resps = respQueue c,
             v_wresps = dramPktWriteRespQueue c, v_blocked = blocked c, v_port = portBlocked c,
             v_noTarget = (noTargetMSHR c \<noteq> None), v_mshrs = isFull (mshrQueue c), v_wbufs = isFull (writeBuffer c)\<rparr>"

lemma view_sel:
  "dir c = v_dir (view c)" "readQueue c = v_reads (view c)" "writeQueue c = v_writes (view c)"
  "respQueue c = v_resps (view c)" "dramPktWriteRespQueue c = v_wresps (view c)" "blocked c = v_blocked (view c)"
  "portBlocked c = v_port (view c)" "(noTargetMSHR c \<noteq> None) = v_noTarget (view c)"
  "isFull (mshrQueue c) = v_mshrs (view c)" "isFull (writeBuffer c) = v_wbufs (view c)"
  by (simp_all add: view_def)

lemma view_field [simp]:
  "view (c\<lparr>dir := x1\<rparr>) = (view c)\<lparr>v_dir := x1\<rparr>" "view (c\<lparr>readQueue := x2\<rparr>) = (view c)\<lparr>v_reads := x2\<rparr>"
  "view (c\<lparr>writeQueue := x3\<rparr>) = (view c)\<lparr>v_writes := x3\<rparr>" "view (c\<lparr>respQueue := x4\<rparr>) = (view c)\<lparr>v_resps := x4\<rparr>"
  "view (c\<lparr>dramPktWriteRespQueue := x5\<rparr>) = (view c)\<lparr>v_wresps := x5\<rparr>"
  "view (c\<lparr>blocked := x6\<rparr>) = (view c)\<lparr>v_blocked := x6\<rparr>" "view (c\<lparr>portBlocked := x7\<rparr>) = (view c)\<lparr>v_port := x7\<rparr>"
  "view (c\<lparr>noTargetMSHR := x8\<rparr>) = (view c)\<lparr>v_noTarget := (x8 \<noteq> None)\<rparr>"
  "view (put_mq qi q c) = (if qi = 0 then (view c)\<lparr>v_mshrs := isFull q\<rparr> else (view c)\<lparr>v_wbufs := isFull q\<rparr>)"
  by (simp_all add: view_def put_mq_def)

lemma view_upd [simp]:
  "view (c\<lparr>isInWriteQueue := x1\<rparr>) = view c" "view (c\<lparr>ranks := x2\<rparr>) = view c" "view (c\<lparr>busState := x3\<rparr>) = view c"
  "view (c\<lparr>nextReqEvent := x4\<rparr>) = view c" "view (c\<lparr>respondEvent := x5\<rparr>) = view c" "view (c\<lparr>retryRdReq := x6\<rparr>) = view c"
  "view (c\<lparr>retryWrReq := x7\<rparr>) = view c" "view (c\<lparr>busBusyUntil := x8\<rparr>) = view c" "view (c\<lparr>nextReqTime := x9\<rparr>) = view c"
  "view (c\<lparr>prevArrival := y1\<rparr>) = view c" "view (c\<lparr>activeRank := y2\<rparr>) = view c" "view (c\<lparr>writesThisTime := y3\<rparr>) = view c"
  "view (c\<lparr>readsThisTime := y4\<rparr>) = view c" "view (c\<lparr>helpers := y5\<rparr>) = view c" "view (c\<lparr>nextHelper := y6\<rparr>) = view c"
  "view (c\<lparr>pendingDelete := y7\<rparr>) = view c" "view (c\<lparr>mem := y8\<rparr>) = view c" "view (emit z1 c) = view c"
  "view (c\<lparr>fillQueue := z2\<rparr>) = view c" "view (c\<lparr>isInFillQueue := z3\<rparr>) = view c" "view (c\<lparr>isInWriteQ := z4\<rparr>) = view c"
  "view (c\<lparr>respondWriteEvent := z5\<rparr>) = view c" "view (c\<lparr>c_order := z6\<rparr>) = view c" "view (c\<lparr>cacheMustSendRetry := z7\<rparr>) = view c"
  "view (c\<lparr>cacheFillsThisTime := z8\<rparr>) = view c" "view (c\<lparr>cacheWritesThisTime := z9\<rparr>) = view c" "view (c\<lparr>pamQueue := u1\<rparr>) = view c"
  "view (c\<lparr>bypassTag := u2\<rparr>) = view c" "view (c\<lparr>switched_gpu_running := u3\<rparr>) = view c" "view (c\<lparr>drawn := u4\<rparr>) = view c"
  "view (c\<lparr>newPkt := u5\<rparr>) = view c" "view (c\<lparr>reqQueue := u6\<rparr>) = view c"
  by (simp_all add: view_def emit_def)

lemma view_put_mshr [simp]: "view (put_mshr qi i m c) = view c"
  by (simp add: view_def put_mshr_def put_mq_def get_mq_def)

section \<open>Operations that keep the view\<close>

lemma wp_cache_access [wp_intro]:
  "(\<And>c' x. view c' = view c \<Longrightarrow> Q (c', x)) \<Longrightarrow> wp port_ok (cache_access pkt c) Q"
  by (auto simp: cache_access_def intro!: wp_intro)

lemma wp_respond [wp_intro]:
  "(\<And>c'. view c' = view c \<Longrightarrow> Q c') \<Longrightarrow> wp port_ok (respond now pkt lat c) Q"
  by (auto simp: respond_def intro!: wp_intro)

lemma wp_access_respond [wp_intro]:
  "(\<And>c'. view c' = view c \<Longrightarrow> Q c') \<Longrightarrow> wp port_ok (access_respond now lat pkt c) Q"
  by (auto simp: access_respond_def intro!: wp_intro)

lemma wp_copy_respond [wp_intro]:
  "(\<And>c'. view c' = view c \<Longrightarrow> Q c') \<Longrightarrow> wp port_ok (copy_respond k now lat src pkt c) Q"
  by (auto simp: copy_respond_def intro!: wp_intro)

lemma wp_serve_targets:
  assumes "\<And>pkt c. wp port_ok (f pkt c) (\<lambda>c'. view c' = view c)"
  shows "wp port_ok (serve_targets f qi i ts c) (\<lambda>c'. view c' = view c)"
proof (induction ts arbitrary: c)
  case (Cons t ts)
  have "wp port_ok (serve_targets f qi i ts (put_mshr qi i (popTarget (reg (get_mq qi x) i)) x)) (\<lambda>c'. view c' = view c)"
    if "view x = view c" for x
    using Cons that by (metis view_put_mshr)
  then show ?case by (auto intro!: wp_bindE wp_mono [OF assms])
qed simp

lemma wp_serve_mshr [wp_intro]:
  assumes "\<And>c'. view c' = view c \<Longrightarrow> Q c'" and "\<And>pkt c. wp port_ok (f pkt c) (\<lambda>c'. view c' = view c)"
  shows "wp port_ok (serve_mshr f qi i c) Q"
  using wp_mono [OF wp_serve_targets [OF assms(2)] assms(1)] by (simp add: serve_mshr_def)

lemma wp_drop_first [wp_intro]:
  "(\<And>c' x. view c' = view c \<Longrightarrow> Q (c', x)) \<Longrightarrow> wp port_ok (drop_first i c) Q"
  by (auto simp: drop_first_def Let_def intro!: wp_intro)

lemma wp_add_target [wp_intro]:
  "(\<And>c'. view c' = view c \<Longrightarrow> Q c') \<Longrightarrow> wp port_ok (add_target now i pkt c) Q"
  by (auto simp: add_target_def view_def intro!: wp_intro)

lemma wp_schedMemSide [wp_intro]:
  "(\<And>c'. view c' = view c \<Longrightarrow> Q c') \<Longrightarrow> wp port_ok (schedMemSideSendEvent now t c) Q"
  by (auto simp: schedMemSideSendEvent_def intro!: wp_intro)

lemma wp_sched_nextReq [wp_intro]:
  "(\<And>c'. view c' = view c \<Longrightarrow> Q c') \<Longrightarrow> wp port_ok (sched_nextReq now t c) Q"
  by (auto simp: sched_nextReq_def intro!: wp_intro)

lemma wp_fill_bursts [wp_intro]:
  "(\<And>c'. view c' = view c \<Longrightarrow> Q c') \<Longrightarrow> wp port_ok (fill_bursts p k now pkt n a c) Q"
proof (induction p k now pkt n a c arbitrary: Q rule: fill_bursts.induct)
  case (2 p k now pkt n a c)
  then show ?case by (auto simp: Let_def intro!: wp_intro)
qed simp

lemma wp_update_bypass [wp_intro]:
  "(\<And>c'. view c' = view c \<Longrightarrow> Q c') \<Longrightarrow> wp port_ok (update_bypass k g a e c) Q"
  by (auto simp: update_bypass_def intro!: wp_intro)

lemma wp_getTimingPacket [wp_intro]:
  "(\<And>c' x. view c' = view c \<Longrightarrow> Q (c', x)) \<Longrightarrow> wp port_ok (getTimingPacket k now c) Q"
  by (auto simp: getTimingPacket_def Let_def intro!: wp_intro)

lemma view_need_helper [simp]: "need_helper n h c = (h', c') \<Longrightarrow> view c' = view c"
  by (auto simp: need_helper_def split: if_splits)


end
