(* ===== verification/DRAMCache_Inv.thy ===== *)
theory DRAMCache_Inv
  imports DRAMCache_Frame
begin

text \<open>
  The invariants of the DRAM cache controller over its requests and events. The first is about the tag
  directory and the filter: when writes do not allocate, the calls that the filter has seen are those that
  the dirty blocks in the cache call for. The second is about blocking: the mask of causes and the flag of
  the port say exactly which resources are used up, so that the assertions of the port hold.
\<close>

unbundle bit_operations_syntax

section \<open>The directory and the filter\<close>

text \<open>How often a block was added, less how often it was removed.\<close>

definition bf_net :: "bf_op list \<Rightarrow> addr \<Rightarrow> int" where
  "bf_net xs a = int (count_if ((=) (BfAdd a)) xs) - int (count_if ((=) (BfRemove a)) xs)"

lemma bf_net_simps [simp]:
  "bf_net [] a = 0"
  "bf_net (xs @ [BfAdd b]) a = bf_net xs a + (if b = a then 1 else 0)"
  "bf_net (xs @ [BfRemove b]) a = bf_net xs a - (if b = a then 1 else 0)"
  by (auto simp: bf_net_def)

definition line_addr :: "cache_params \<Rightarrow> tag_dir \<Rightarrow> nat \<Rightarrow> addr" where
  "line_addr k d s = regenerateBlkAddr k s (tag (sets d s))"

definition dirty_block :: "cache_params \<Rightarrow> tag_dir \<Rightarrow> addr \<Rightarrow> bool" where
  "dirty_block k d b \<longleftrightarrow>
     (\<exists>s < dramCache_num_sets k. valid (sets d s) \<and> dirty (sets d s) \<and> b = line_addr k d s)"

definition tags_ok :: "cache_params \<Rightarrow> tag_dir \<Rightarrow> bool" where
  "tags_ok k d \<longleftrightarrow>
     (\<forall>s < dramCache_num_sets k. valid (sets d s) \<longrightarrow>
        unat (tag (sets d s)) * dramCache_num_sets k + s < 2 ^ 32)"

definition dir_inv :: "cache_params \<Rightarrow> tag_dir \<Rightarrow> bool" where
  "dir_inv k d \<longleftrightarrow>
     tags_ok k d \<and> (bloomFilterEnable k \<longrightarrow> (\<forall>b. bf_net (cbf d) b = (if dirty_block k d b then 1 else 0)))"

lemma line_addr_split:
  assumes "cache_ok k" "tags_ok k d" "s < dramCache_num_sets k" "valid (sets d s)"
  shows "getSetTagFromAddr k (line_addr k d s) = (s, unat (tag (sets d s)))" "in_reach k (line_addr k d s)"
proof -
  have b: "unat (tag (sets d s)) * dramCache_num_sets k + s < 2 ^ 32" using assms(2-4) by (simp only: tags_ok_def)
  show "getSetTagFromAddr k (line_addr k d s) = (s, unat (tag (sets d s)))" "in_reach k (line_addr k d s)"
    using getSetTag_regenerate [OF assms(1,3) b] by (simp_all add: line_addr_def)
qed

lemma line_addr_inj:
  assumes "cache_ok k" "tags_ok k d" "s < dramCache_num_sets k" "s' < dramCache_num_sets k"
    "valid (sets d s)" "valid (sets d s')" "line_addr k d s = line_addr k d s'"
  shows "s = s'"
  using line_addr_split(1) [OF assms(1,2,3,5)] line_addr_split(1) [OF assms(1,2,4,6)] assms(7) by (metis prod.inject)

lemma tag_bound:
  assumes "cache_ok k" and "getSetTagFromAddr k a = (s, t)"
  shows "s < dramCache_num_sets k" "t * dramCache_num_sets k + s < 2 ^ 32" "unat (word_of_nat t :: u64) = t"
proof -
  let ?b = "unat a div dramCache_block_size k mod 2 ^ 32"
  have b: "?b < 2 ^ 32" by simp
  have l: "?b mod dramCache_num_sets k < 2 ^ 32" "?b div dramCache_num_sets k < 2 ^ 32"
    by (rule le_less_trans [OF mod_less_eq_dividend b], rule le_less_trans [OF div_le_dividend b])
  have s: "s = ?b mod dramCache_num_sets k" and t: "t = ?b div dramCache_num_sets k"
    using assms(2) unfolding getSetTagFromAddr_def Let_def mod_less [OF l(1)] mod_less [OF l(2)] by simp_all
  show "s < dramCache_num_sets k" using assms(1) by (simp add: s cache_ok_def)
  show "t * dramCache_num_sets k + s < 2 ^ 32" unfolding s t using b by (simp only: div_mult_mod_eq)
  have "t < 2 ^ 32" using l(2) by (simp only: t)
  then have "t < 2 ^ 64" by simp
  then show "unat (word_of_nat t :: u64) = t" by (simp add: unat_of_nat take_bit_nat_eq_self)
qed

lemma hit_line:
  assumes "cache_ok k" "in_reach k a" "set_hit k d a" and s: "s = fst (getSetTagFromAddr k a)"
  shows "valid (sets d s)" "line_addr k d s = blockAlign k a" "s < dramCache_num_sets k"
proof -
  obtain t where st: "getSetTagFromAddr k a = (s, t)" using s by (cases "getSetTagFromAddr k a") auto
  then show "valid (sets d s)" using assms(3) by (simp add: set_hit_def)
  show "line_addr k d s = blockAlign k a"
    using assms(3) st regenerate_getSetTag [OF assms(1,2) st] by (simp add: line_addr_def set_hit_def)
  show "s < dramCache_num_sets k" using tag_bound(1) [OF assms(1) st] .
qed

text \<open>A dirty block is one on which a lookup hits a dirty line.\<close>

lemma dirty_block_hit:
  assumes "cache_ok k" "tags_ok k d" "in_reach k a"
  shows "dirty_block k d (blockAlign k a) \<longleftrightarrow>
           set_hit k d a \<and> dirty (sets d (fst (getSetTagFromAddr k a)))"
proof
  assume "set_hit k d a \<and> dirty (sets d (fst (getSetTagFromAddr k a)))"
  then show "dirty_block k d (blockAlign k a)" unfolding dirty_block_def using hit_line [OF assms(1,3) _ refl] by metis
next
  assume "dirty_block k d (blockAlign k a)"
  then obtain s where s: "s < dramCache_num_sets k" "valid (sets d s)" "dirty (sets d s)"
      "blockAlign k a = line_addr k d s"
    by (auto simp: dirty_block_def)
  have "getSetTagFromAddr k a = (s, unat (tag (sets d s)))"
    using line_addr_split(1) [OF assms(1,2) s(1,2)] getSetTag_blockAlign [OF assms(1), of a] s(4) by simp
  then show "set_hit k d a \<and> dirty (sets d (fst (getSetTagFromAddr k a)))" using s by (simp add: set_hit_def)
qed

lemma dir_inv_lookup:
  assumes ok: "cache_ok k" and inv: "dir_inv k d" and "in_reach k (pkt_addr pkt)"
    and l: "doCacheLookup k d pkt = Inr (d', hit)"
  shows "dir_inv k d'"
proof -
  define s where "s = fst (getSetTagFromAddr k (pkt_addr pkt))"
  note eq = doCacheLookup_eq [OF ok l, folded s_def]
  have t: "tags_ok k d" using inv by (simp add: dir_inv_def)
  then have t': "tags_ok k d'" by (auto simp: tags_ok_def eq(2))
  have la: "line_addr k d' r = line_addr k d r" for r by (simp add: line_addr_def eq(2))
  show ?thesis
  proof (cases "hit \<and> \<not> isRead pkt \<and> \<not> dirty (sets d s)")
    case True
    have h: "set_hit k d (pkt_addr pkt)" using True eq(1) by simp
    note hl = hit_line [OF ok assms(3) h s_def]
    have "dirty_block k d' b \<longleftrightarrow> dirty_block k d b \<or> b = blockAlign k (pkt_addr pkt)" for b
      using True hl by (auto simp: dirty_block_def la eq(2))
    moreover have "\<not> dirty_block k d (blockAlign k (pkt_addr pkt))"
      using True dirty_block_hit [OF ok t assms(3)] by (simp add: s_def)
    ultimately show ?thesis using inv t' True by (auto simp: dir_inv_def eq(4))
  next
    case False
    then have "dirty_block k d' = dirty_block k d" by (auto simp: dirty_block_def la eq(2) fun_eq_iff)
    moreover have "cbf d' = cbf d" using False by (auto simp: eq(4))
    ultimately show ?thesis using inv t' by (simp add: dir_inv_def)
  qed
qed

text \<open>The eviction of a line, and the fill that follows it.\<close>

definition evict_dir :: "cache_params \<Rightarrow> nat \<Rightarrow> tag_dir \<Rightarrow> tag_dir" where
  "evict_dir k s d =
     (if dirty (sets d s) \<and> valid (sets d s) then clear_line s (bf_do k (BfRemove (line_addr k d s)) d) else d)"

lemma dir_inv_evict:
  assumes ok: "cache_ok k" and inv: "dir_inv k d" and s: "s < dramCache_num_sets k"
  shows "dir_inv k (evict_dir k s d)"
proof (cases "dirty (sets d s) \<and> valid (sets d s)")
  case True
  let ?d = "evict_dir k s d"
  have t: "tags_ok k d" using inv by (simp add: dir_inv_def)
  have e: "sets ?d = (sets d)(s := (sets d s)\<lparr>valid := False, dirty := False\<rparr>)"
      "cbf ?d = (if bloomFilterEnable k then cbf d @ [BfRemove (line_addr k d s)] else cbf d)"
    using True by (simp_all add: evict_dir_def clear_line_def)
  have la: "line_addr k ?d r = line_addr k d r" for r by (simp add: line_addr_def e(1))
  have "dirty_block k ?d b \<longleftrightarrow> dirty_block k d b \<and> b \<noteq> line_addr k d s" for b
  proof
    show "dirty_block k ?d b \<Longrightarrow> dirty_block k d b \<and> b \<noteq> line_addr k d s"
      using line_addr_inj [OF ok t _ s] True by (auto simp: dirty_block_def la e(1) split: if_splits)
    show "dirty_block k d b \<and> b \<noteq> line_addr k d s \<Longrightarrow> dirty_block k ?d b"
      unfolding dirty_block_def la e(1) by (metis fun_upd_other)
  qed
  moreover have "dirty_block k d (line_addr k d s)" using True s by (auto simp: dirty_block_def)
  moreover have "tags_ok k ?d" using t by (auto simp: tags_ok_def e(1))
  ultimately show ?thesis using inv by (auto simp: dir_inv_def e(2))
qed (use inv in \<open>auto simp: evict_dir_def\<close>)

lemma dir_inv_fill:
  assumes ok: "cache_ok k" and inv: "dir_inv k d" and clean: "\<not> (dirty (sets d s) \<and> valid (sets d s))"
    and st: "getSetTagFromAddr k a = (s, t)"
  shows "dir_inv k (fill_line s t g d)"
proof -
  let ?d = "fill_line s t g d"
  have e: "sets ?d = (sets d)(s := \<lparr>tag = word_of_nat t, valid = True, dirty = False\<rparr>)" "cbf ?d = cbf d"
    by (simp_all add: fill_line_def)
  have "dirty_block k ?d b \<longleftrightarrow> dirty_block k d b" for b
    using clean by (auto simp: dirty_block_def line_addr_def e(1))
  moreover have "tags_ok k ?d" using inv tag_bound [OF ok st] by (auto simp: dir_inv_def tags_ok_def e(1))
  ultimately show ?thesis using inv by (simp add: dir_inv_def e(2))
qed

lemma dir_inv_init: "dir_inv k tag_dir_init"
  by (auto simp: dir_inv_def tags_ok_def dirty_block_def tag_dir_init_def)

section \<open>The blocking of the port\<close>

text \<open>The mask of the three causes.\<close>

definition blk_word :: "bool \<Rightarrow> bool \<Rightarrow> bool \<Rightarrow> u8" where
  "blk_word a b d = (if a then 1 else 0) OR (if b then 2 else 0) OR (if d then 4 else 0)"

definition causes :: "bool \<Rightarrow> bool \<Rightarrow> bool \<Rightarrow> dramcache \<Rightarrow> bool" where
  "causes a b d c \<longleftrightarrow> blocked c = blk_word a b d \<and> portBlocked c = (a \<or> b \<or> d)"

lemma blk_word_zero: "blk_word a b d = 0 \<longleftrightarrow> \<not> a \<and> \<not> b \<and> \<not> d"
  by (cases a; cases b; cases d) (simp_all add: blk_word_def)

lemma blk_word_set:
  "blk_word a b d OR push_bit 0 1 = blk_word True b d"
  "blk_word a b d OR push_bit 1 1 = blk_word a True d"
  "blk_word a b d OR push_bit 2 1 = blk_word a b True"
  by (cases a; cases b; cases d; simp add: blk_word_def)+

lemma blk_word_clear:
  "blk_word a b d AND NOT (push_bit 0 1) = blk_word False b d"
  "blk_word a b d AND NOT (push_bit 1 1) = blk_word a False d"
  "blk_word a b d AND NOT (push_bit 2 1) = blk_word a b False"
  by (cases a; cases b; cases d; simp add: blk_word_def)+

lemma setBlocked_causes:
  assumes "causes a b d c"
  shows "setBlocked 0 c = Inr (c\<lparr>portBlocked := True, blocked := blk_word True b d\<rparr>)"
    and "setBlocked 1 c = Inr (c\<lparr>portBlocked := True, blocked := blk_word a True d\<rparr>)"
    and "setBlocked 2 c = Inr (c\<lparr>portBlocked := True, blocked := blk_word a b True\<rparr>)"
proof -
  have c: "blocked c = blk_word a b d" "portBlocked c = (a \<or> b \<or> d)" using assms by (simp_all add: causes_def)
  have s: "setBlocked i c = Inr (c\<lparr>portBlocked := True, blocked := blk_word a b d OR push_bit i 1\<rparr>)" for i
    by (cases "a \<or> b \<or> d") (simp_all add: setBlocked_def c blk_word_zero)
  show "setBlocked 0 c = Inr (c\<lparr>portBlocked := True, blocked := blk_word True b d\<rparr>)"
    and "setBlocked 1 c = Inr (c\<lparr>portBlocked := True, blocked := blk_word a True d\<rparr>)"
    and "setBlocked 2 c = Inr (c\<lparr>portBlocked := True, blocked := blk_word a b True\<rparr>)"
    by (simp_all only: s blk_word_set)
qed

definition unblock :: "bool \<Rightarrow> bool \<Rightarrow> bool \<Rightarrow> dramcache \<Rightarrow> dramcache" where
  "unblock a b d c =
     (let c1 = c\<lparr>blocked := blk_word a b d, portBlocked := (a \<or> b \<or> d)\<rparr> in
      if \<not> (a \<or> b \<or> d) \<and> cacheMustSendRetry c then (emit RetryReq c1)\<lparr>cacheMustSendRetry := False\<rparr> else c1)"

lemma clearBlocked_causes:
  assumes "causes a b d c"
  shows "a \<Longrightarrow> clearBlocked 0 c = Inr (unblock False b d c)"
    and "b \<Longrightarrow> clearBlocked 1 c = Inr (unblock a False d c)"
    and "d \<Longrightarrow> clearBlocked 2 c = Inr (unblock a b False c)"
proof -
  have c: "blocked c = blk_word a b d" "portBlocked c = (a \<or> b \<or> d)" using assms by (simp_all add: causes_def)
  have s: "clearBlocked i c = Inr (unblock a' b' d' c)"
    if "blk_word a b d AND NOT (push_bit i 1) = blk_word a' b' d'" and "a \<or> b \<or> d" for i a' b' d'
    using that by (auto simp: clearBlocked_def unblock_def Let_def c blk_word_zero)
  show "a \<Longrightarrow> clearBlocked 0 c = Inr (unblock False b d c)"
    and "b \<Longrightarrow> clearBlocked 1 c = Inr (unblock a False d c)"
    and "d \<Longrightarrow> clearBlocked 2 c = Inr (unblock a b False c)"
    using s [OF blk_word_clear(1)] s [OF blk_word_clear(2)] s [OF blk_word_clear(3)] by blast+
qed

section \<open>The invariant\<close>

definition v_full :: "nat \<Rightarrow> cache_view \<Rightarrow> bool" where
  "v_full qi v = (if qi = 0 then v_mshrs v else v_wbufs v)"

lemma v_full_mq: "isFull (get_mq qi c) = v_full qi (view c)"
  by (simp add: v_full_def view_def get_mq_def)

lemma v_full_upd [simp]: "v_full qi (v\<lparr>v_dir := d\<rparr>) = v_full qi v" "v_full qi (v\<lparr>v_noTarget := x\<rparr>) = v_full qi v"
  "v_full 0 v = v_mshrs v" "v_full 1 v = v_wbufs v"
  by (simp_all add: v_full_def)

definition all_reach :: "cache_params \<Rightarrow> dram_packet list \<Rightarrow> bool" where
  "all_reach k q \<longleftrightarrow> (\<forall>dp \<in> set q. in_reach k (pkt_addr (dp_pkt dp)))"

lemma all_reach_simps [simp]:
  "all_reach k []" "all_reach k (dp # q) \<longleftrightarrow> in_reach k (pkt_addr (dp_pkt dp)) \<and> all_reach k q"
  "all_reach k (q @ r) \<longleftrightarrow> all_reach k q \<and> all_reach k r"
  by (auto simp: all_reach_def)

definition base_inv :: "cache_params \<Rightarrow> cache_view \<Rightarrow> bool" where
  "base_inv k v \<longleftrightarrow>
     all_reach k (v_reads v) \<and> all_reach k (v_writes v) \<and> all_reach k (v_resps v) \<and> all_reach k (v_wresps v) \<and>
     v_blocked v = blk_word (v_mshrs v) (v_wbufs v) (v_noTarget v) \<and> v_port v = (v_mshrs v \<or> v_wbufs v \<or> v_noTarget v)"

definition cache_inv :: "cache_params \<Rightarrow> cache_view \<Rightarrow> bool" where
  "cache_inv k v \<longleftrightarrow> dir_inv k (v_dir v) \<and> base_inv k v"

lemma base_inv_dir [simp]: "base_inv k (v\<lparr>v_dir := d\<rparr>) = base_inv k v"
  by (simp add: base_inv_def)

lemma base_causes: "base_inv k (view c) \<Longrightarrow> causes (v_mshrs (view c)) (v_wbufs (view c)) (v_noTarget (view c)) c"
  by (simp add: base_inv_def causes_def view_def)

lemma causes_frame [simp]: "causes a b d (put_mq qi q c) = causes a b d c" "causes a b d (c\<lparr>c_order := n\<rparr>) = causes a b d c"
  "causes a b d (c\<lparr>noTargetMSHR := x\<rparr>) = causes a b d c"
  by (simp_all add: causes_def put_mq_def)

lemma view_unblock [simp]:
  "view (unblock a b d c) = (view c)\<lparr>v_blocked := blk_word a b d, v_port := (a \<or> b \<or> d)\<rparr>"
  by (simp add: unblock_def Let_def)

text \<open>After a change of one of the queues of registers the mask is brought up to date.\<close>

lemma two_queues: "qi < 2 \<longleftrightarrow> qi = 0 \<or> qi = (1 :: nat)"
  by auto

lemma wp_block_full:
  assumes inv: "base_inv k (view c)" and "qi < 2" and full: "v_full qi (view c) \<longrightarrow> isFull q"
    and Q: "\<And>c'. v_dir (view c') = v_dir (view c) \<Longrightarrow> base_inv k (view c') \<Longrightarrow>
              (qi = 1 \<longrightarrow> v_mshrs (view c') = v_mshrs (view c)) \<Longrightarrow> Q c'"
  shows "wp port_ok (if isFull q then setBlocked qi (put_mq qi q c) else Inr (put_mq qi q c)) Q"
proof (cases "isFull q")
  case True
  have cs: "causes (v_mshrs (view c)) (v_wbufs (view c)) (v_noTarget (view c)) (put_mq qi q c)"
    using base_causes [OF inv] by simp
  consider "qi = 0" | "qi = 1" using assms(2) by linarith
  then obtain c' where c': "setBlocked qi (put_mq qi q c) = Inr c'" "v_dir (view c') = v_dir (view c)"
      "base_inv k (view c')" "qi = 1 \<longrightarrow> v_mshrs (view c') = v_mshrs (view c)"
    by cases (use inv True setBlocked_causes [OF cs] in \<open>simp_all add: base_inv_def del: One_nat_def\<close>)
  show ?thesis using Q [OF c'(2-4)] True c'(1) by simp
next
  case False
  have "base_inv k (view (put_mq qi q c))"
    using inv full False by (cases "v_full qi (view c)") (simp_all add: base_inv_def v_full_def split: if_splits)
  then have "Q (put_mq qi q c)" by (intro Q) simp_all
  then show ?thesis using False by simp
qed

lemma wp_unblock_free:
  assumes inv: "base_inv k (view c)" and "qi < 2" and full: "isFull q \<longrightarrow> v_full qi (view c)" and was: "was = v_full qi (view c)"
    and Q: "\<And>c'. v_dir (view c') = v_dir (view c) \<Longrightarrow> base_inv k (view c') \<Longrightarrow>
              (qi = 1 \<longrightarrow> v_mshrs (view c') = v_mshrs (view c)) \<Longrightarrow> Q c'"
  shows "wp port_ok (if was \<and> \<not> isFull q then clearBlocked qi (put_mq qi q c) else Inr (put_mq qi q c)) Q"
proof (cases "was \<and> \<not> isFull q")
  case True
  have cs: "causes (v_mshrs (view c)) (v_wbufs (view c)) (v_noTarget (view c)) (put_mq qi q c)"
    using base_causes [OF inv] by simp
  consider "qi = 0" | "qi = 1" using assms(2) by linarith
  then obtain c' where c': "clearBlocked qi (put_mq qi q c) = Inr c'" "v_dir (view c') = v_dir (view c)"
      "base_inv k (view c')" "qi = 1 \<longrightarrow> v_mshrs (view c') = v_mshrs (view c)"
    by cases (use inv was True clearBlocked_causes [OF cs] in \<open>simp_all add: base_inv_def del: One_nat_def\<close>)
  show ?thesis using Q [OF c'(2-4)] True c'(1) by simp
next
  case False
  have "base_inv k (view (put_mq qi q c))"
    using inv full was False
    by (cases "v_full qi (view c)"; cases "isFull q") (simp_all add: base_inv_def v_full_def split: if_splits)
  then have "Q (put_mq qi q c)" by (intro Q) simp_all
  then show ?thesis unfolding if_not_P [OF False] by simp
qed

section \<open>Registers, write-backs and fills\<close>

lemma wp_allocateBufferInternal:
  assumes "base_inv k (view c)" and "qi < 2"
    and Q: "\<And>c' i. v_dir (view c') = v_dir (view c) \<Longrightarrow> base_inv k (view c') \<Longrightarrow>
              (qi = 1 \<longrightarrow> v_mshrs (view c') = v_mshrs (view c)) \<Longrightarrow> Q (c', i)"
  shows "wp port_ok (allocateBufferInternal k now qi a n pkt t sched c) Q"
  unfolding allocateBufferInternal_def Let_def
  apply (rule wp_assertE, rule wp_bindE, rule wp_q_allocate, simp only: prod.case, rule wp_bindE,
      rule wp_block_full [where k = k])
  using assms by (auto simp: v_full_mq intro!: wp_intro Q)

lemma wp_allocateMissBuffer:
  assumes "base_inv k (view c)"
    and "\<And>c' i. v_dir (view c') = v_dir (view c) \<Longrightarrow> base_inv k (view c') \<Longrightarrow> Q (c', i)"
  shows "wp port_ok (allocateMissBuffer k now pkt t sched c) Q"
  unfolding allocateMissBuffer_def by (rule wp_allocateBufferInternal [OF assms(1)]) (simp, rule assms(2))

lemma wp_allocateWriteBuffer:
  assumes "base_inv k (view c)"
    and "\<And>c' i. v_dir (view c') = v_dir (view c) \<Longrightarrow> base_inv k (view c') \<Longrightarrow>
              v_mshrs (view c') = v_mshrs (view c) \<Longrightarrow> Q (c', i)"
  shows "wp port_ok (allocateWriteBuffer k now pkt t c) Q"
  unfolding allocateWriteBuffer_def
  by (rule wp_assertE, rule wp_allocateBufferInternal [OF assms(1)], simp, rule assms(2)) simp_all

lemma wp_markInService:
  assumes "base_inv k (view c)" and "qi < 2"
    and "\<And>c'. v_dir (view c') = v_dir (view c) \<Longrightarrow> base_inv k (view c') \<Longrightarrow> Q c'"
  shows "wp port_ok (cache_markInService qi i c) Q"
  unfolding cache_markInService_def Let_def
  by (rule wp_bindE, rule wp_q_markInService, rule wp_unblock_free [where k = k]) (use assms in \<open>auto simp: v_full_mq\<close>)

lemma wp_release_mshr:
  assumes "base_inv k (view c)" and "qi < 2" and "was = v_full qi (view c)"
    and "\<And>c'. v_dir (view c') = v_dir (view c) \<Longrightarrow> base_inv k (view c') \<Longrightarrow> Q c'"
  shows "wp port_ok (release_mshr was qi i c) Q"
  unfolding release_mshr_def Let_def
  by (rule wp_bindE, rule wp_q_deallocate, rule wp_unblock_free [where k = k]) (use assms in \<open>auto simp: v_full_mq\<close>)

lemma wp_coalesce:
  assumes "base_inv k (view c)"
    and "\<And>c'. v_dir (view c') = v_dir (view c) \<Longrightarrow> base_inv k (view c') \<Longrightarrow> Q c'"
  shows "wp port_ok (coalesce k' now i pkt c) Q"
proof -
  have "wp port_ok (setBlocked 2 (c1\<lparr>noTargetMSHR := Some x\<rparr>)) Q" if "view c1 = view c" for c1 x
  proof -
    have "base_inv k (view c1)" using assms(1) that by simp
    then have "causes (v_mshrs (view c1)) (v_wbufs (view c1)) (v_noTarget (view c1)) (c1\<lparr>noTargetMSHR := Some x\<rparr>)"
      using base_causes by simp
    then show ?thesis
      using \<open>base_inv k (view c1)\<close> that by (auto simp: setBlocked_causes(3) base_inv_def intro!: assms(2))
  qed
  then show ?thesis using assms by (auto simp: coalesce_def intro!: wp_intro)
qed

lemma wp_clear_no_target:
  assumes "base_inv k (view c)"
    and "\<And>c'. v_dir (view c') = v_dir (view c) \<Longrightarrow> base_inv k (view c') \<Longrightarrow> v_mshrs (view c') = v_mshrs (view c) \<Longrightarrow>
           v_wbufs (view c') = v_wbufs (view c) \<Longrightarrow> Q c'"
  shows "wp port_ok (clear_no_target qi i c) Q"
proof (cases "noTargetMSHR c = Some (qi, i)")
  case True
  then have "v_noTarget (view c)" by (simp add: view_def)
  moreover have "causes (v_mshrs (view c)) (v_wbufs (view c)) (v_noTarget (view c)) c" using base_causes [OF assms(1)] .
  ultimately show ?thesis
    using assms(1) True by (auto simp: clear_no_target_def clearBlocked_causes(3) base_inv_def intro!: assms(2))
qed (use assms in \<open>simp add: clear_no_target_def\<close>)

lemma wp_doWriteBack:
  assumes "base_inv k (view c)"
    and "\<And>c'. v_dir (view c') = clear_line (fst (getSetTagFromAddr k a)) (v_dir (view c)) \<Longrightarrow> base_inv k (view c') \<Longrightarrow>
           v_mshrs (view c') = v_mshrs (view c) \<Longrightarrow> Q c'"
  shows "wp port_ok (doWriteBack k now a cid c) Q"
  unfolding doWriteBack_def Let_def
  by (intro wp_intro wp_allocateWriteBuffer; clarsimp) (simp_all add: assms view_sel)

lemma wp_evict_line:
  assumes "cache_ok k" "base_inv k (view c)" "tags_ok k (v_dir (view c))" "s < dramCache_num_sets k"
    and "\<And>c'. v_dir (view c') = evict_dir k s (v_dir (view c)) \<Longrightarrow> base_inv k (view c') \<Longrightarrow>
           v_mshrs (view c') = v_mshrs (view c) \<Longrightarrow> Q c'"
  shows "wp port_ok (evict_line k now s c) Q"
proof -
  have a: "fst (getSetTagFromAddr k (line_addr k (v_dir (view c)) s)) = s" if "valid (sets (v_dir (view c)) s)"
    using line_addr_split(1) [of k "v_dir (view c)" s] assms(1,3,4) that by simp
  have "Q c" if "\<not> (dirty (sets (v_dir (view c)) s) \<and> valid (sets (v_dir (view c)) s))"
    using that by (intro assms(5)) (auto simp: assms(2) evict_dir_def)
  then show ?thesis
    unfolding evict_line_def Let_def line_addr_def [symmetric]
    by (intro wp_intro wp_doWriteBack; clarsimp) (simp_all add: assms a evict_dir_def view_sel)
qed

lemma wp_addToFillQueue:
  assumes "cache_ok k" "cache_inv k (view c)"
    and "\<And>c'. cache_inv k (view c') \<Longrightarrow> v_mshrs (view c') = v_mshrs (view c) \<Longrightarrow> Q c'"
  shows "wp port_ok (addToFillQueue p k g now c pkt n) Q"
proof -
  obtain s t where st: "getSetTagFromAddr k (pkt_addr pkt) = (s, t)" by (cases "getSetTagFromAddr k (pkt_addr pkt)")
  have s: "s < dramCache_num_sets k" using tag_bound(1) [OF assms(1) st] .
  have inv: "dir_inv k (v_dir (view c))" "base_inv k (view c)" "tags_ok k (v_dir (view c))"
    using assms(2) by (simp_all add: cache_inv_def dir_inv_def)
  have clean: "\<not> (dirty (sets (evict_dir k s d) s) \<and> valid (sets (evict_dir k s d) s))" for d
    by (auto simp: evict_dir_def clear_line_def)
  have fill: "dir_inv k (fill_line s t x (evict_dir k s (v_dir (view c))))" for x
    using dir_inv_fill [OF assms(1) dir_inv_evict [OF assms(1) inv(1) s] clean st] .
  show ?thesis
    unfolding addToFillQueue_def Let_def st prod.case
    by (intro wp_intro wp_evict_line; clarsimp)
       (simp_all add: assms inv s fill cache_inv_def view_sel)
qed

lemma wp_fill_from:
  assumes "cache_ok k" "cache_inv k (view c)"
    and "\<And>c'. cache_inv k (view c') \<Longrightarrow> v_mshrs (view c') = v_mshrs (view c) \<Longrightarrow> Q c'"
  shows "wp port_ok (fill_from p k g now a cid c) Q"
  unfolding fill_from_def by (rule wp_addToFillQueue [OF assms(1)]) (simp_all add: assms)

section \<open>Requests\<close>

lemma wp_cache_read_bursts:
  assumes "base_inv k (view c)" "in_reach k (pkt_addr pkt)"
    and "\<And>c' m h'. v_dir (view c') = v_dir (view c) \<Longrightarrow> base_inv k (view c') \<Longrightarrow> Q (c', m, h')"
  shows "wp port_ok (cache_read_bursts p now pkt pc n a sv h c) Q"
  using assms(1,3)
proof (induction n arbitrary: a sv h c)
  case (Suc n)
  have push: "base_inv k ((view c1)\<lparr>v_reads := v_reads (view c1) @ [dp]\<rparr>)"
    if "view c1 = view c" "dp_pkt dp = pkt" for c1 dp
    using Suc.prems(1) that assms(2) by (simp add: base_inv_def)
  show ?case
    unfolding cache_read_bursts.simps Let_def
    by (intro wp_intro Suc.IH; clarsimp?) (auto simp: Suc.prems push view_sel)
qed (simp add: assms)

lemma wp_cache_write_bursts:
  assumes "base_inv k (view c)" "in_reach k (pkt_addr pkt)"
    and "\<And>c'. v_dir (view c') = v_dir (view c) \<Longrightarrow> base_inv k (view c') \<Longrightarrow> Q c'"
  shows "wp port_ok (cache_write_bursts p now pkt pc n a h c) Q"
  using assms(1,3)
proof (induction n arbitrary: a h c)
  case (Suc n)
  have push: "base_inv k ((view c1)\<lparr>v_writes := v_writes (view c1) @ [dp]\<rparr>)"
    if "view c1 = view c" "dp_pkt dp = pkt" for c1 dp
    using Suc.prems(1) that assms(2) by (simp add: base_inv_def)
  show ?case
    unfolding cache_write_bursts.simps Let_def
    by (intro wp_intro Suc.IH; clarsimp?) (auto simp: Suc.prems push view_sel)
qed (simp add: assms)

lemma wp_send_pam:
  assumes "cache_inv k (view c)" and "\<And>c'. cache_inv k (view c') \<Longrightarrow> Q c'"
  shows "wp port_ok (send_pam k now pkt sv c) Q"
  unfolding send_pam_def Let_def
  by (intro wp_intro wp_allocateMissBuffer; clarsimp?) (use assms in \<open>simp_all add: cache_inv_def\<close>)

lemma wp_addToReadQueue:
  assumes "cache_inv k (view c)" "in_reach k (pkt_addr pkt)" and "\<And>c'. cache_inv k (view c') \<Longrightarrow> Q c'"
  shows "wp port_ok (cache_addToReadQueue p k now c pkt n) Q"
  unfolding cache_addToReadQueue_def Let_def
  by (intro wp_intro wp_cache_read_bursts [where k = k] wp_send_pam; (clarsimp split: option.splits)?)
     (use assms in \<open>auto simp: cache_inv_def split: option.splits\<close>)

lemma wp_addToWriteQueue:
  assumes "cache_inv k (view c)" "in_reach k (pkt_addr pkt)" and "\<And>c'. cache_inv k (view c') \<Longrightarrow> Q c'"
  shows "wp port_ok (cache_addToWriteQueue p k now c pkt n) Q"
  unfolding cache_addToWriteQueue_def
  by (intro wp_intro wp_cache_write_bursts [where k = k]; clarsimp?) (use assms in \<open>simp_all add: cache_inv_def\<close>)

lemma wp_bypass_request:
  assumes "cache_inv k (view c)" and "\<And>c'. cache_inv k (view c') \<Longrightarrow> Q c'"
  shows "wp port_ok (bypass_request p k now pkt c) Q"
  unfolding bypass_request_def Let_def
  by (intro wp_intro wp_allocateMissBuffer wp_allocateWriteBuffer; clarsimp?) (use assms in \<open>simp_all add: cache_inv_def\<close>)

lemma wp_accept_request:
  assumes "cache_inv k (view c)" "in_reach k (pkt_addr pkt)" and "\<And>c' b. cache_inv k (view c') \<Longrightarrow> Q (c', b)"
  shows "wp port_ok (accept_request p k g now pkt c) Q"
  unfolding accept_request_def
  by (intro wp_intro wp_allocateMissBuffer wp_addToReadQueue wp_addToWriteQueue; clarsimp?)
     (use assms in \<open>simp_all add: cache_inv_def\<close>)

lemma wp_route_request:
  assumes "cache_inv k (view c)" "in_reach k (pkt_addr pkt)" and "\<And>c' b. cache_inv k (view c') \<Longrightarrow> Q (c', b)"
  shows "wp port_ok (route_request p k g now pkt c) Q"
  unfolding route_request_def Let_def
  by (intro wp_intro wp_bypass_request wp_accept_request; clarsimp?) (use assms in simp_all)

lemma wp_recvTimingReq:
  assumes "cache_inv k (view c)" "in_reach k (pkt_addr pkt)" and "\<And>c' b. cache_inv k (view c') \<Longrightarrow> Q (c', b)"
  shows "wp port_ok (cache_recvTimingReq p k g now c pkt) Q"
  unfolding cache_recvTimingReq_def Let_def
  by (intro wp_intro wp_coalesce [where k = k] wp_route_request; clarsimp?) (use assms in \<open>simp_all add: cache_inv_def\<close>)

section \<open>Events\<close>

lemma wp_count_burst:
  assumes "\<And>c'. view c' = view c \<Longrightarrow> wp port_ok (f c') Q" and "\<And>c'. view c' = view c \<Longrightarrow> Q c'"
  shows "wp port_ok (count_burst msg dp f c) Q"
  unfolding count_burst_def by (intro wp_intro; clarsimp?) (simp_all add: assms)

lemma wp_write_miss:
  assumes "cache_inv k (view c)" "\<not> dramCache_write_allocate k" and "\<And>c'. cache_inv k (view c') \<Longrightarrow> Q c'"
  shows "wp port_ok (write_miss k now pkt c) Q"
  unfolding write_miss_def Let_def
  by (intro wp_intro wp_allocateWriteBuffer; clarsimp?) (use assms in \<open>simp_all add: cache_inv_def\<close>)

lemma wp_lookup:
  assumes "cache_ok k" "cache_inv k (view c)" "in_reach k (pkt_addr pkt)"
    and "\<And>d hit. dir_inv k d \<Longrightarrow> Q (d, hit)"
  shows "wp port_ok (doCacheLookup k (dir c) pkt) Q"
proof (rule wp_doCacheLookup)
  fix x assume "doCacheLookup k (dir c) pkt = Inr x"
  then have "dir_inv k (fst x)"
    using dir_inv_lookup [OF assms(1) _ assms(3), of "dir c" "fst x" "snd x"] assms(2) by (simp add: cache_inv_def view_sel)
  then show "Q x" using assms(4) [of "fst x" "snd x"] by simp
qed

lemma wp_finish_write:
  assumes "cache_ok k" "cache_inv k (view c)" "in_reach k (pkt_addr pkt)" "\<not> dramCache_write_allocate k"
    and "\<And>c'. cache_inv k (view c') \<Longrightarrow> Q c'"
  shows "wp port_ok (finish_write p k now pkt c) Q"
  unfolding finish_write_def
  by (rule wp_bindE, rule wp_lookup [OF assms(1,2,3)], simp only: prod.case,
      intro wp_intro wp_done wp_write_miss; clarsimp?)
     (use assms in \<open>simp_all add: cache_inv_def\<close>)

lemma base_inv_queues:
  "base_inv k v \<Longrightarrow> all_reach k q \<Longrightarrow> base_inv k (v\<lparr>v_wresps := q\<rparr>)"
  "base_inv k v \<Longrightarrow> all_reach k q \<Longrightarrow> base_inv k (v\<lparr>v_resps := q\<rparr>)"
  "base_inv k v \<Longrightarrow> all_reach k q \<Longrightarrow> base_inv k (v\<lparr>v_reads := q\<rparr>)"
  "base_inv k v \<Longrightarrow> all_reach k q \<Longrightarrow> base_inv k (v\<lparr>v_writes := q\<rparr>)"
  by (simp_all add: base_inv_def)

lemma base_inv_reach:
  "base_inv k v \<Longrightarrow> all_reach k (v_wresps v)" "base_inv k v \<Longrightarrow> all_reach k (v_resps v)"
  "base_inv k v \<Longrightarrow> all_reach k (v_reads v)" "base_inv k v \<Longrightarrow> all_reach k (v_writes v)"
  by (simp_all add: base_inv_def)

lemma wp_processWriteRespondEvent:
  assumes "cache_ok k" "cache_inv k (view c)" "\<not> dramCache_write_allocate k"
    and "\<And>c'. cache_inv k (view c') \<Longrightarrow> Q c'"
  shows "wp port_ok (processWriteRespondEvent p k now c) Q"
proof (cases "dramPktWriteRespQueue c")
  case (Cons dp rest)
  have r: "in_reach k (pkt_addr (dp_pkt dp))" "all_reach k rest"
    using base_inv_reach(1) [of k "view c"] assms(2) Cons by (auto simp: cache_inv_def view_sel [symmetric])
  have q: "cache_inv k ((view c')\<lparr>v_wresps := rest\<rparr>)" if "cache_inv k (view c')" for c'
    using that r(2) by (simp add: cache_inv_def base_inv_queues)
  show ?thesis
    unfolding processWriteRespondEvent_def Let_def
    by (intro wp_intro wp_count_burst wp_finish_write [where k = k]; clarsimp?)
       (use assms Cons r q in \<open>simp_all add: q\<close>)
qed (simp add: processWriteRespondEvent_def)

lemma wp_miss_or_hit:
  assumes "cache_inv k (view c)" and "\<And>c'. cache_inv k (view c') \<Longrightarrow> Q c'"
  shows "wp port_ok (miss_or_hit p k now pkt hit c) Q"
  unfolding miss_or_hit_def
  by (intro wp_intro wp_coalesce [where k = k] wp_allocateMissBuffer; clarsimp?) (use assms in \<open>simp_all add: cache_inv_def\<close>)

lemma wp_pam_early:
  assumes "cache_inv k (view c)" and "\<And>c'. cache_inv k (view c') \<Longrightarrow> Q c'"
  shows "wp port_ok (pam_early p k now pkt pr hit c) Q"
  unfolding pam_early_def Let_def
  by (intro wp_intro wp_release_mshr [where k = k]; clarsimp?) (use assms in \<open>simp_all add: cache_inv_def view_sel\<close>)

lemma wp_pam_done:
  assumes "cache_ok k" "cache_inv k (view c)" and "\<And>c'. cache_inv k (view c') \<Longrightarrow> Q c'"
  shows "wp port_ok (pam_done p k g now pkt pr hit c) Q"
  unfolding pam_done_def Let_def
  by (intro wp_intro wp_release_mshr [where k = k] wp_fill_from; clarsimp?) (use assms in \<open>simp_all add: cache_inv_def view_sel\<close>)

lemma wp_finish_read:
  assumes "cache_ok k" "cache_inv k (view c)" "in_reach k (pkt_addr pkt)"
    and "\<And>c'. cache_inv k (view c') \<Longrightarrow> Q c'"
  shows "wp port_ok (finish_read p k g now pkt c) Q"
  unfolding finish_read_def Let_def
  by (rule wp_bindE, rule wp_lookup [OF assms(1,2,3)], simp only: prod.case,
      intro wp_intro wp_miss_or_hit wp_pam_early wp_pam_done; clarsimp?)
     (use assms in \<open>simp_all add: cache_inv_def\<close>)

lemma wp_processRespondHelper:
  assumes "cache_inv k (view c)" and "\<And>c'. cache_inv k (view c') \<Longrightarrow> Q c'"
  shows "wp port_ok (processRespondHelper now c) Q"
proof -
  have "all_reach k (tl (respQueue c))"
    using base_inv_reach(2) [of k "view c"] assms(1) by (cases "respQueue c") (auto simp: cache_inv_def view_sel [symmetric])
  moreover obtain xs where xs: "tl (respQueue c) = xs" by simp
  ultimately have q: "cache_inv k ((view c)\<lparr>v_resps := xs\<rparr>)"
    using assms(1) by (simp add: cache_inv_def base_inv_queues)
  show ?thesis
    using q unfolding processRespondHelper_def Let_def xs
    by (intro wp_intro; clarsimp?) (simp_all add: assms)
qed

lemma wp_processRespondEvent:
  assumes "cache_ok k" "cache_inv k (view c)" and "\<And>c'. cache_inv k (view c') \<Longrightarrow> Q c'"
  shows "wp port_ok (cache_processRespondEvent p k g now c) Q"
proof (cases "respQueue c")
  case (Cons dp rest)
  have r: "in_reach k (pkt_addr (dp_pkt dp))"
    using base_inv_reach(2) [of k "view c"] assms(2) Cons by (auto simp: cache_inv_def view_sel [symmetric])
  show ?thesis
    unfolding cache_processRespondEvent_def Let_def
    by (intro wp_intro wp_count_burst wp_finish_read wp_processRespondHelper [where k = k]; clarsimp?)
       (use assms Cons r in simp_all)
qed (simp add: cache_processRespondEvent_def)

end
