(* ===== verification/DRAMCache_Step.thy ===== *)
theory DRAMCache_Step
  imports DRAMCache_Inv
begin

text \<open>
  The memory side of the DRAM cache controller and its next-burst event keep the invariants of
  \<open>DRAMCache_Inv\<close>. The events and requests together are the steps of the controller; the invariants hold in
  every state that it reaches.
\<close>

section \<open>Responses of the memory and requests to it\<close>

lemma wp_pam_response:
  assumes "cache_ok k" "cache_inv k (view c)" and "\<And>c'. cache_inv k (view c') \<Longrightarrow> Q c'"
  shows "wp port_ok (pam_response p k g now pkt i pr c) Q"
  unfolding pam_response_def Let_def
  by (intro wp_intro wp_done wp_clear_no_target [where k = k] wp_release_mshr [where k = k] wp_fill_from; clarsimp?)
     (use assms in \<open>simp_all add: cache_inv_def view_sel\<close>)

lemma wp_miss_response:
  assumes "cache_ok k" "cache_inv k (view c)"
    and "\<And>c'. cache_inv k (view c') \<Longrightarrow> v_mshrs (view c') = v_mshrs (view c) \<Longrightarrow> Q c'"
  shows "wp port_ok (miss_response p k g now pkt i c) Q"
  unfolding miss_response_def Let_def
  by (intro wp_intro wp_done wp_fill_from; clarsimp?) (use assms in \<open>simp_all\<close>)

lemma wp_cache_recvTimingResp:
  assumes "cache_ok k" "cache_inv k (view c)" and "\<And>c'. cache_inv k (view c') \<Longrightarrow> Q c'"
  shows "wp port_ok (cache_recvTimingResp p k g now c pkt) Q"
proof (cases "\<exists>qi i ss. senderState pkt = MSHRRef qi i # ss")
  case True
  then obtain qi i ss where ss: "senderState pkt = MSHRRef qi i # ss" by blast
  show ?thesis
    unfolding cache_recvTimingResp_def Let_def ss list.case sender_state.case
    by (intro wp_intro wp_done wp_pam_response [where k = k] wp_clear_no_target [where k = k] wp_miss_response [where k = k]
         wp_release_mshr [where k = k]; clarsimp?)
       (use assms in \<open>simp_all add: cache_inv_def view_sel v_full_mq v_full_def\<close>)
next
  case False
  then have "wp port_ok (case senderState pkt of MSHRRef qi i # ss \<Rightarrow> f qi i | _ \<Rightarrow> Inl (AssertFail ''mshr'')) Q" for f
    by (auto split: list.splits sender_state.splits)
  then show ?thesis unfolding cache_recvTimingResp_def by (intro wp_assertE) simp_all
qed

lemma cache_getNextMSHR_queue: "cache_getNextMSHR now c = Some (qi, i) \<Longrightarrow> qi < 2"
  by (auto simp: cache_getNextMSHR_def next_miss_def Let_def split: option.splits if_splits)

lemma wp_timing_packet:
  assumes "\<And>c'. view c' = view c \<Longrightarrow> Q (c', None)"
    and "\<And>c' qi i pkt. view c' = view c \<Longrightarrow> qi < 2 \<Longrightarrow> Q (c', Some (qi, i, pkt))"
  shows "wp port_ok (getTimingPacket k now c) Q"
proof (cases "cache_getNextMSHR now c")
  case (Some x)
  obtain qi i where x: "x = (qi, i)" by (cases x)
  with Some have "qi < 2" using cache_getNextMSHR_queue by simp
  then show ?thesis
    unfolding getTimingPacket_def Some x option.case prod.case Let_def
    by (intro wp_intro wp_done; clarsimp?) (simp_all add: assms)
qed (simp add: getTimingPacket_def assms)

lemma wp_sendDeferredPacket:
  assumes "cache_inv k (view c)" and "\<And>c'. cache_inv k (view c') \<Longrightarrow> Q c'"
  shows "wp port_ok (cache_sendDeferredPacket k' now acc c) Q"
proof -
  have "wp port_ok (if acc then bindE (cache_markInService qi i (emit (MemReq pkt) c2)) (\<lambda>c3.
            schedMemSideSendEvent now (nextMSHRReadyTime c3) c3) else Inr c2) Q"
    if "view c2 = view c" "qi < 2" for c2 qi i pkt
    by (intro wp_intro wp_done wp_markInService [where k = k]; clarsimp?)
       (use assms that in \<open>simp_all add: cache_inv_def\<close>)
  then show ?thesis
    unfolding cache_sendDeferredPacket_def Let_def
    by (intro wp_assertE wp_bindE wp_timing_packet) (use assms in simp_all)
qed

lemma wp_processSendEvent:
  assumes "cache_inv k (view c)" and "\<And>c'. cache_inv k (view c') \<Longrightarrow> Q c'"
  shows "wp port_ok (cache_processSendEvent k' now acc c) Q"
  unfolding cache_processSendEvent_def Let_def
  by (intro wp_intro wp_sendDeferredPacket [where k = k]) (use assms in simp_all)

lemma wp_recvReqRetry:
  assumes "cache_inv k (view c)" and "\<And>c'. cache_inv k (view c') \<Longrightarrow> Q c'"
  shows "wp port_ok (cache_recvReqRetry k' now acc c) Q"
  unfolding cache_recvReqRetry_def
  by (intro wp_intro wp_sendDeferredPacket [where k = k]) (use assms in simp_all)

lemma wp_drain:
  assumes "cache_inv k (view c)" and "\<And>c' s. cache_inv k (view c') \<Longrightarrow> Q (c', s)"
  shows "wp port_ok (cache_drain now c) Q"
  unfolding cache_drain_def by (intro wp_intro wp_done; clarsimp?) (use assms in simp_all)

lemma wp_recvAtomic:
  assumes "cache_inv k (view c)" and "\<And>c' x. cache_inv k (view c') \<Longrightarrow> Q (c', x)"
  shows "wp port_ok (cache_recvAtomic p c pkt) Q"
  unfolding cache_recvAtomic_def by (intro wp_intro wp_done; clarsimp?) (use assms in simp_all)

section \<open>The next burst\<close>

text \<open>No operation of this event touches the port; its failures are of no concern here.\<close>

abbreviation any_fail :: "fail \<Rightarrow> bool" where
  "any_fail \<equiv> (\<lambda>_. True)"

lemma wp_ran: "(\<And>x. m = Inr x \<Longrightarrow> Q x) \<Longrightarrow> wp any_fail m Q"
  by (cases m) simp_all

definition sel_below :: "nat \<Rightarrow> scan \<Rightarrow> bool" where
  "sel_below n s \<longleftrightarrow> (\<forall>k. sel s = Some k \<longrightarrow> k < n)"

lemma sel_below_simps [simp]:
  "i < n \<Longrightarrow> sel_below n (s\<lparr>sel := Some i\<rparr>)" "sel_below n s \<Longrightarrow> i < n \<Longrightarrow> sel_below n (take_earliest i s)"
  "sel_below n scan_init"
  "sel_below n (s\<lparr>found_prepped_pkt := x1\<rparr>) = sel_below n s" "sel_below n (s\<lparr>found_seamless_pkt := x2\<rparr>) = sel_below n s"
  "sel_below n (s\<lparr>found_prepped_cpu_pkt := x3\<rparr>) = sel_below n s"
  "sel_below n (s\<lparr>found_earliest_cpu_pkt := x4\<rparr>) = sel_below n s"
  by (simp_all add: sel_below_def take_earliest_def scan_init_def)

lemma wp_load_prep: "sel_below n s \<Longrightarrow> (\<And>s'. sel_below n s' \<Longrightarrow> Q s') \<Longrightarrow> wp any_fail (load_prep prep s) Q"
  by (rule wp_ran) (auto simp: load_prep_def sel_below_def res_simps split: if_splits)

lemma wp_reorder_scan:
  "sel_below n s \<Longrightarrow> i + length dps \<le> n \<Longrightarrow> wp any_fail (reorder_scan E m prep i dps s) (sel_below n)"
proof (induction dps arbitrary: i s)
  case (Cons dp dps)
  have go: "wp any_fail (reorder_scan E m prep (Suc i) dps s') (sel_below n)" if "sel_below n s'" for s'
    using Cons that by simp
  show ?case
    unfolding reorder_scan.simps Let_def
    by (intro wp_intro wp_done wp_load_prep [where n = n] go) (use Cons.prems in simp_all)
qed simp

lemma wp_reorder_scan_cpu:
  "sel_below n s \<Longrightarrow> i + length dps \<le> n \<Longrightarrow> wp any_fail (reorder_scan_cpu E m prep i dps s) (sel_below n)"
proof (induction dps arbitrary: i s)
  case (Cons dp dps)
  have go: "wp any_fail (reorder_scan_cpu E m prep (Suc i) dps s') (sel_below n)" if "sel_below n s'" for s'
    using Cons that by simp
  show ?case
    unfolding reorder_scan_cpu.simps Let_def
    by (intro wp_intro wp_done wp_load_prep [where n = n] go) (use Cons.prems in simp_all)
qed simp

lemma first_pos_below: "first_pos P xs = Some k \<Longrightarrow> k < length xs"
  by (induction xs arbitrary: k) (auto split: if_splits)

lemma cpu_fcfs_scan_below:
  "cpu_fcfs_scan E i q f = Some k \<Longrightarrow> (\<And>j. f = Some j \<Longrightarrow> j < n) \<Longrightarrow> i + length q \<le> n \<Longrightarrow> k < n"
proof (induction E i q f rule: cpu_fcfs_scan.induct)
  case (2 E i dp dps found)
  then show ?case by (auto split: if_splits)
qed simp

lemma move_front_set: "k < length q \<Longrightarrow> set (move_front k q) \<subseteq> set q"
  by (auto simp: move_front_def dest: in_set_takeD in_set_dropD)

lemma select_pkt_set:
  "sel_below (length q) s \<Longrightarrow> q \<noteq> [] \<Longrightarrow> set (fst (select_pkt q s)) \<subseteq> set q \<and> fst (select_pkt q s) \<noteq> []"
  using move_front_set by (fastforce simp: select_pkt_def sel_below_def move_front_def split: option.splits)

lemma wp_reorder_select:
  assumes "wp any_fail m (sel_below (length q))" and "q \<noteq> []"
    and "\<And>q' f. set q' \<subseteq> set q \<Longrightarrow> q' \<noteq> [] \<Longrightarrow> Q (q', f)"
  shows "wp any_fail (bindE m (\<lambda>s. Inr (select_pkt q s))) Q"
proof (cases m)
  case (Inr s)
  then have "set (fst (select_pkt q s)) \<subseteq> set q \<and> fst (select_pkt q s) \<noteq> []"
    using assms(1,2) by (intro select_pkt_set) simp_all
  then show ?thesis using Inr assms(3) [of "fst (select_pkt q s)" "snd (select_pkt q s)"] by simp
qed simp

lemma wp_chooseNext:
  assumes Q: "\<And>q' f. set q' \<subseteq> set q \<Longrightarrow> q' \<noteq> [] \<Longrightarrow> Q (q', f)"
  shows "wp any_fail (chooseNext p E q d) Q"
proof (cases "q = []")
  case False
  have "wp any_fail (reorderQueue p E q d) Q" "wp any_fail (reorderQueueCPUPrio p E q d) Q"
    unfolding reorderQueue_def reorderQueueCPUPrio_def Let_def
    by (rule wp_reorder_select [OF _ False], (rule wp_reorder_scan wp_reorder_scan_cpu; simp), rule Q, assumption+)+
  moreover have "Q (move_front j q, True)" if "first_pos P q = Some j" for P j
    using move_front_set [OF first_pos_below [OF that]] by (rule Q) (simp add: move_front_def)
  moreover have "Q (move_front j q, True)" if "cpu_fcfs_scan E 0 q None = Some j" for j
    using move_front_set [OF cpu_fcfs_scan_below [OF that, of "length q"]] by (intro Q) (simp_all add: move_front_def)
  ultimately show ?thesis
    using False Q by (auto simp: chooseNext_def intro!: wp_assertE split: mem_sched.splits option.splits)
qed (simp add: chooseNext_def)

lemma wp_doDRAMAccess:
  "(\<And>c' dp'. view c' = view c \<Longrightarrow> dp_pkt dp' = dp_pkt dp \<Longrightarrow> Q (c', dp')) \<Longrightarrow> wp any_fail (cache_doDRAMAccess p now dp c) Q"
  by (rule wp_ran) (auto simp: cache_doDRAMAccess_def do_access_def burst_access_def Let_def res_simps split: if_splits)

lemma wp_push_resp:
  "(\<And>c'. view c' = (view c)\<lparr>v_resps := v_resps (view c) @ [dp]\<rparr> \<Longrightarrow> Q c') \<Longrightarrow> wp any_fail (push_resp now dp c) Q"
  by (rule wp_ran) (auto simp: push_resp_def res_simps view_sel split: if_splits)

lemma wp_push_write_resp:
  "(\<And>c'. view c' = (view c)\<lparr>v_wresps := v_wresps (view c) @ [dp]\<rparr> \<Longrightarrow> Q c') \<Longrightarrow> wp any_fail (push_write_resp now dp c) Q"
  by (rule wp_ran) (auto simp: push_write_resp_def res_simps view_sel split: if_splits)

lemma wp_schedule_next:
  "(\<And>c'. view c' = view c \<Longrightarrow> Q c') \<Longrightarrow> wp any_fail (sched_nextReq now t c) Q"
  by (rule wp_ran) (auto simp: sched_nextReq_def res_simps split: if_splits)

text \<open>A burst moves from the queue of reads or of writes to the queue of responses.\<close>

lemma cache_inv_moves:
  assumes "cache_inv k v" and "all_reach k (dp # q)" and "dp_pkt dp' = dp_pkt dp"
  shows "cache_inv k (v\<lparr>v_reads := q, v_resps := v_resps v @ [dp']\<rparr>)"
    and "cache_inv k (v\<lparr>v_writes := q, v_wresps := v_wresps v @ [dp']\<rparr>)"
  using assms by (simp_all add: cache_inv_def base_inv_def)

lemma wp_serve_read:
  assumes "cache_inv k (view c)" and "readQueue c \<noteq> []" and "\<And>c'. cache_inv k (view c') \<Longrightarrow> Q c'"
  shows "wp any_fail (cache_serve_read p now sw c) Q"
proof -
  obtain dp q where q: "readQueue c = dp # q" using assms(2) by (cases "readQueue c") simp_all
  then have v: "v_reads (view c) = dp # q" by (simp add: view_def)
  then have r: "all_reach k (dp # q)" using base_inv_reach(3) assms(1) by (metis cache_inv_def)
  note move = cache_inv_moves(1) [OF assms(1) r]
  show ?thesis
    unfolding cache_serve_read_def Let_def q list.sel
    by (intro wp_intro wp_done wp_doDRAMAccess wp_push_resp; (clarsimp simp: view_sel)?)
       (use assms(3) move v in \<open>simp_all\<close>)
qed

lemma wp_serve_write:
  assumes "cache_inv k (view c)" and "writeQueue c \<noteq> []" and "\<And>c'. cache_inv k (view c') \<Longrightarrow> Q c'"
  shows "wp any_fail (cache_serve_write p now sw c) Q"
proof -
  obtain dp q where q: "writeQueue c = dp # q" using assms(2) by (cases "writeQueue c") simp_all
  then have v: "v_writes (view c) = dp # q" by (simp add: view_def)
  then have r: "all_reach k (dp # q)" using base_inv_reach(4) assms(1) by (metis cache_inv_def)
  note move = cache_inv_moves(2) [OF assms(1) r]
  show ?thesis
    unfolding cache_serve_write_def Let_def q list.sel
    by (intro wp_intro wp_done wp_doDRAMAccess wp_push_write_resp; (clarsimp simp: view_sel)?)
       (use assms(3) move v in \<open>simp_all\<close>)
qed

lemma wp_serve_fill:
  assumes "\<And>c'. view c' = view c \<Longrightarrow> Q c'"
  shows "wp any_fail (cache_serve_fill p now sw c) Q"
  unfolding cache_serve_fill_def Let_def
  by (intro wp_intro wp_done wp_doDRAMAccess; clarsimp?) (use assms in simp_all)

lemma cache_inv_choice:
  assumes "cache_inv k v" shows "set q \<subseteq> set (v_reads v) \<Longrightarrow> cache_inv k (v\<lparr>v_reads := q\<rparr>)"
    and "set q \<subseteq> set (v_writes v) \<Longrightarrow> cache_inv k (v\<lparr>v_writes := q\<rparr>)"
  using assms by (auto simp: cache_inv_def base_inv_def all_reach_def)

lemma wp_next_read:
  assumes "cache_inv k (view c)" and "\<And>c' b. cache_inv k (view c') \<Longrightarrow> Q (c', b)"
  shows "wp any_fail (cache_next_read p now sw c) Q"
  unfolding cache_next_read_def Let_def
  by (intro wp_intro wp_done wp_chooseNext wp_serve_read [where k = k]; clarsimp?)
     (use assms in \<open>simp_all add: cache_inv_choice view_sel\<close>)

lemma wp_pick_write_or_fill:
  assumes "cache_inv k (view c)" and "\<And>c' b. cache_inv k (view c') \<Longrightarrow> Q (c', b)"
  shows "wp any_fail (pick_write_or_fill p k now sw c) Q"
  unfolding pick_write_or_fill_def Let_def
  by (intro wp_intro wp_done wp_chooseNext wp_serve_write [where k = k] wp_serve_fill; clarsimp?)
     (use assms in \<open>simp_all add: cache_inv_choice view_sel\<close>)

lemma wp_next_write:
  assumes "cache_inv k (view c)" and "\<And>c' b. cache_inv k (view c') \<Longrightarrow> Q (c', b)"
  shows "wp any_fail (cache_next_write p k now sw c) Q"
  unfolding cache_next_write_def
  by (intro wp_intro wp_done wp_pick_write_or_fill [OF assms(1)]; clarsimp?) (use assms in simp_all)

lemma cache_switch_bus_view: "cache_switch_bus c = (c', sw) \<Longrightarrow> view c' = view c"
  by (auto simp: cache_switch_bus_def split: bus_state.splits)

lemma wp_processNextReqEvent:
  assumes "cache_inv k (view c)" and "\<And>c'. cache_inv k (view c') \<Longrightarrow> Q c'"
  shows "wp any_fail (cache_processNextReqEvent p k now c) Q"
  unfolding cache_processNextReqEvent_def Let_def
  by (intro wp_intro wp_done wp_ran [of "check_ranks now rs" for rs] wp_next_read [where k = k] wp_next_write wp_schedule_next; clarsimp?)
     (use assms cache_switch_bus_view in \<open>simp_all\<close>)

section \<open>Steps of the controller\<close>

lemma wp_fails: "wp E m Q \<Longrightarrow> m = Inl r \<Longrightarrow> E r"
  by simp

lemma blk_word_bits:
  "bit (blk_word a b d) 0 = a" "bit (blk_word a b d) 1 = b" "bit (blk_word a b d) 2 = d"
  by (cases a; cases b; cases d; simp add: blk_word_def bit_simps)+

text \<open>
  A step is a request or an event that does not stop the simulator. The addresses of requests are in the
  reach of the directory. The events of the ranks change the ranks and may ask for the next burst; what they do
  to the ranks is open here.
\<close>

inductive cache_step :: "dram_params \<Rightarrow> cache_params \<Rightarrow> dramcache \<Rightarrow> dramcache \<Rightarrow> bool" for p k where
  request: "in_reach k (pkt_addr pkt) \<Longrightarrow> cache_recvTimingReq p k gpu now c pkt = Inr (c', taken) \<Longrightarrow> cache_step p k c c'"
| atomic: "cache_recvAtomic p c pkt = Inr (c', r) \<Longrightarrow> cache_step p k c c'"
| next_req: "cache_processNextReqEvent p k now c = Inr c' \<Longrightarrow> cache_step p k c c'"
| read_done: "cache_processRespondEvent p k gpu now c = Inr c' \<Longrightarrow> cache_step p k c c'"
| write_done: "processWriteRespondEvent p k now c = Inr c' \<Longrightarrow> cache_step p k c c'"
| response: "cache_recvTimingResp p k gpu now c pkt = Inr c' \<Longrightarrow> cache_step p k c c'"
| send: "cache_processSendEvent k now accepted c = Inr c' \<Longrightarrow> cache_step p k c c'"
| retry: "cache_recvReqRetry k now accepted c = Inr c' \<Longrightarrow> cache_step p k c c'"
| drain: "cache_drain now c = Inr (c', ds) \<Longrightarrow> cache_step p k c (c'\<lparr>drainState := ds\<rparr>)"
| start: "startup p now timing c = Inr c' \<Longrightarrow> cache_step p k c c'"
| resume: "drainResume p now timing c = Inr c' \<Longrightarrow> cache_step p k c c'"
| rank_event: "cache_step p k c (c\<lparr>ranks := rs, nextReqEvent := e\<rparr>)"

lemma view_modes [simp]:
  "view (c\<lparr>drainState := s\<rparr>) = view c" "view (c\<lparr>isTimingMode := b\<rparr>) = view c" "view (c\<lparr>timeStampOffset := t\<rparr>) = view c"
  by (simp_all add: view_def)

lemma startup_view: "startup p now timing c = Inr c' \<Longrightarrow> view c' = view c"
  by (auto simp: startup_def Let_def res_simps split: if_splits)

lemma drainResume_view: "drainResume p now timing c = Inr c' \<Longrightarrow> view c' = view c"
  by (auto simp: drainResume_def res_simps startup_view split: if_splits)

lemma cache_step_inv:
  assumes "cache_step p k c c'" "cache_ok k" "\<not> dramCache_write_allocate k" "cache_inv k (view c)"
  shows "cache_inv k (view c')"
  using assms
proof (cases rule: cache_step.cases)
  case (request pkt gpu now taken)
  show ?thesis
    by (rule wp_result [OF wp_recvTimingReq [OF assms(4) request(1), where Q = "\<lambda>(c, _). cache_inv k (view c)"]
          request(2), simplified])
next
  case (atomic pkt r)
  show ?thesis
    by (rule wp_result [OF wp_recvAtomic [OF assms(4), where Q = "\<lambda>(c, _). cache_inv k (view c)"] atomic, simplified])
next
  case (next_req now)
  show ?thesis by (rule wp_result [OF wp_processNextReqEvent [OF assms(4)] next_req])
next
  case (read_done gpu now)
  show ?thesis by (rule wp_result [OF wp_processRespondEvent [OF assms(2,4)] read_done])
next
  case (write_done now)
  show ?thesis by (rule wp_result [OF wp_processWriteRespondEvent [OF assms(2,4,3)] write_done])
next
  case (response gpu now pkt)
  show ?thesis by (rule wp_result [OF wp_cache_recvTimingResp [OF assms(2,4)] response])
next
  case (send now accepted)
  show ?thesis by (rule wp_result [OF wp_processSendEvent [OF assms(4)] send])
next
  case (retry now accepted)
  show ?thesis by (rule wp_result [OF wp_recvReqRetry [OF assms(4)] retry])
next
  case (drain now c1 ds)
  have "cache_inv k (view c1)"
    by (rule wp_result [OF wp_drain [OF assms(4), where Q = "\<lambda>(c, _). cache_inv k (view c)"] drain(2), simplified])
  then show ?thesis using drain(1) by simp
next
  case (start now timing)
  then show ?thesis using assms(4) startup_view by metis
next
  case (resume now timing)
  then show ?thesis using assms(4) drainResume_view by metis
next
  case (rank_event rs e)
  then show ?thesis using assms(4) by simp
qed

lemma cache_inv_init:
  assumes "0 < mshrs g" and "0 < write_buffers g"
  shows "cache_inv k (view (DRAMCacheCtrl_init p d g m))"
  using assms
  by (simp add: cache_inv_def base_inv_def view_def DRAMCacheCtrl_init_def dram_ctrl.defs DRAMCtrl_init_def
      dir_inv_init blk_word_def isFull_def MSHRQueue_init_def Let_def)

definition cache_reachable ::
  "dram_params \<Rightarrow> cache_params \<Rightarrow> dram_config \<Rightarrow> cache_config \<Rightarrow> dramcache \<Rightarrow> bool" where
  "cache_reachable p k d g c \<longleftrightarrow> (\<exists>m. (cache_step p k)\<^sup>*\<^sup>* (DRAMCacheCtrl_init p d g m) c)"

lemma cache_reachable_inv:
  assumes "cache_reachable p k d g c" "cache_ok k" "\<not> dramCache_write_allocate k" "0 < mshrs g" "0 < write_buffers g"
  shows "cache_inv k (view c)"
proof -
  obtain m where "(cache_step p k)\<^sup>*\<^sup>* (DRAMCacheCtrl_init p d g m) c" using assms(1) by (auto simp: cache_reachable_def)
  then show ?thesis
    by (induction rule: rtranclp_induct) (use assms cache_inv_init cache_step_inv in blast)+
qed

section \<open>The loop over the targets\<close>

text \<open>
  \<^verbatim>\<open>while (mshr->hasTargets ())\<close> as it is written: each round asks the register again, and \<open>f\<close> is what is done
  with the packet of the first target.
\<close>

partial_function (option) serve_loop ::
  "(packet \<Rightarrow> dramcache \<Rightarrow> dramcache res) \<Rightarrow> nat \<Rightarrow> nat \<Rightarrow> dramcache \<Rightarrow> dramcache res option" where
  "serve_loop f qi i c =
     (if hasTargets (reg (get_mq qi c) i) then
        (case bindE (getTarget (reg (get_mq qi c) i)) (\<lambda>target. f (t_pkt target) c) of
           Inl e \<Rightarrow> Some (Inl e)
         | Inr c1 \<Rightarrow> serve_loop f qi i (put_mshr qi i (popTarget (reg (get_mq qi c1) i)) c1))
      else Some (Inr c))"

definition keeps_registers :: "(packet \<Rightarrow> dramcache \<Rightarrow> dramcache res) \<Rightarrow> bool" where
  "keeps_registers f \<longleftrightarrow> (\<forall>pkt c c' qi. f pkt c = Inr c' \<longrightarrow> get_mq qi c' = get_mq qi c)"

lemma reg_put_mshr [simp]:
  "i < length (registers (get_mq qi c)) \<Longrightarrow> reg (get_mq qi (put_mshr qi i m c)) i = m"
  "length (registers (get_mq qi (put_mshr qi i m c))) = length (registers (get_mq qi c))"
  by (simp_all add: get_mq_def put_mshr_def put_mq_def upd_reg_def split: if_splits)

lemma serve_loop_targets:
  assumes "keeps_registers f" "i < length (registers (get_mq qi c))" "tgts (targets (reg (get_mq qi c) i)) = ts"
  shows "serve_loop f qi i c = Some (serve_targets f qi i ts c) \<and>
         (\<forall>c'. serve_targets f qi i ts c = Inr c' \<longrightarrow> \<not> hasTargets (reg (get_mq qi c') i))"
  using assms(2,3)
proof (induction ts arbitrary: c)
  case Nil
  then show ?case by (subst serve_loop.simps) (simp add: hasTargets_def)
next
  case (Cons t ts)
  have t: "hasTargets (reg (get_mq qi c) i)" "getTarget (reg (get_mq qi c) i) = Inr t"
    using Cons.prems by (simp_all add: hasTargets_def getTarget_def)
  show ?case
  proof (cases "f (t_pkt t) c")
    case (Inl e)
    then show ?thesis by (subst serve_loop.simps) (simp add: t)
  next
    case (Inr c1)
    then have q: "get_mq qi c1 = get_mq qi c" using assms(1) by (simp add: keeps_registers_def)
    let ?c = "put_mshr qi i (popTarget (reg (get_mq qi c1) i)) c1"
    have "i < length (registers (get_mq qi ?c))" "tgts (targets (reg (get_mq qi ?c) i)) = ts"
      using Cons.prems q by (simp_all add: popTarget_def)
    note IH = Cons.IH [OF this]
    then show ?thesis by (subst serve_loop.simps) (simp add: t Inr)
  qed
qed

lemma mq_frame [simp]: "get_mq qi (c\<lparr>mem := m\<rparr>) = get_mq qi c" "get_mq qi (emit out c) = get_mq qi c"
  by (simp_all add: get_mq_def emit_def)

lemma respond_keeps: "respond now pkt lat c = Inr c' \<Longrightarrow> get_mq qi c' = get_mq qi c"
  by (auto simp: respond_def res_simps)

lemma access_respond_keeps: "keeps_registers (access_respond now lat)"
  by (auto simp: keeps_registers_def access_respond_def cache_access_def res_simps dest: respond_keeps)

lemma copy_respond_keeps: "keeps_registers (copy_respond k now lat src)"
  by (auto simp: keeps_registers_def copy_respond_def res_simps dest: respond_keeps)

lemma checked_respond_keeps: "keeps_registers (\<lambda>tgt c. assertE msg (P tgt) (access_respond now lat tgt c))"
  using access_respond_keeps by (auto simp: keeps_registers_def res_simps)

section \<open>A concrete cache\<close>

definition small_config :: cache_config where
  "small_config = HMC_cache_config\<lparr>mshrs := 2, write_buffers := 2\<rparr>"

definition small_mem :: memory where
  "small_mem = \<lparr>mem_start = 0, mem_size = 512, pmem = Some (replicate 512 7), lockedAddrList = [], wakeups = []\<rparr>"

definition cache0 :: dramcache where
  "cache0 = DRAMCacheCtrl_init (fst hmc) HMC_2500_x32_Cache small_config small_mem"

definition cpu_read :: packet where
  "cpu_read = allocate_data (new_packet 0 (setPhys 256 128 (Some 0)) ReadReq)"

lemma cache0_sel [simp]:
  "dir cache0 = tag_dir_init" "blocked cache0 = 0" "bypassTag cache0 = []" "mem cache0 = small_mem" "c_order cache0 = 0"
  "mshrQueue cache0 = MSHRQueue_init 2 32 0 0" "writeBuffer cache0 = MSHRQueue_init 2 532 0 1" "reqQueue cache0 = PacketQueue_init"
  by (simp_all add: cache0_def DRAMCacheCtrl_init_def dram_ctrl.defs DRAMCtrl_init_def small_config_def HMC_2500_x32_Cache_def)

lemma cpu_read_sel [simp]:
  "pkt_addr cpu_read = 256" "cmd cpu_read = ReadReq" "\<not> flag_memInhibit cpu_read" "req_context (req cpu_read) = Some 0"
  by (simp_all add: cpu_read_def allocate_data_def new_packet_def setPhys_def)

lemma cpu_read_not_gpu [simp]: "\<not> is_gpu cpu_read"
  by (simp add: is_gpu_def contextId_of_def)

lemma cache0_bypasses:
  "dir c = tag_dir_init \<Longrightarrow> cpu_bypasses (snd hmc) True cpu_read c"
  by (simp add: cpu_bypasses_def exact_lookup_def tag_dir_init_def)

lemma alloc_init:
  assumes "1 < n" "0 \<le> r"
  shows "\<exists>q i. q_allocate now (MSHRQueue_init n r 0 j) a sz pkt t ord = Inr (q, i) \<and> \<not> isFull q"
proof -
  let ?q = "MSHRQueue_init n r 0 j" and ?N = "nat (n + r - 1)"
  have f: "freeList ?q = 0 # [1 ..< ?N]" using assms by (simp add: MSHRQueue_init_def upt_conv_Cons Let_def)
  have r: "reg ?q 0 = MSHR_init" using assms by (simp add: MSHRQueue_init_def Let_def)
  have g: "getNumTargets MSHR_init = 0" by (simp add: getNumTargets_def MSHR_init_def empty_targets_def)
  obtain m msgs where m: "mshr_allocate now MSHR_init a sz pkt t ord = Inr (m, msgs)"
    by (auto simp: mshr_allocate_def MSHR_init_def isReset_def empty_targets_def Let_def case_prod_beta)
  obtain q where q: "addToReadyList ((upd_reg ?q 0 m)\<lparr>freeList := [1 ..< ?N], allocatedList := allocatedList ?q @ [0],
                       upstreamMsgs := upstreamMsgs ?q @ msgs\<rparr>) 0 = Inr q"
    using addToReadyList_succeeds by blast
  then have "q_allocate now ?q a sz pkt t ord = Inr (q\<lparr>allocated := allocated q + 1\<rparr>, 0)"
    using g by (simp add: q_allocate_def f r m del: One_nat_def)
  moreover from this have "\<not> isFull (q\<lparr>allocated := allocated q + 1\<rparr>)"
    using q_allocate_shape [of now ?q a sz pkt t ord] assms by (fastforce simp: isFull_def MSHRQueue_init_def Let_def)
  ultimately show ?thesis by blast
qed

lemma cache0_step:
  "\<exists>c. cache_recvTimingReq (fst hmc) (snd hmc) True 0 cache0 cpu_read = Inr (c, True) \<and> dir c = tag_dir_init"
proof -
  have b: "blockAlign (snd hmc) (blockAlign (snd hmc) 256) = blockAlign (snd hmc) 256"
    by (rule blockAlign_idem [OF hmc_cache_ok])
  have n: "findMatch (MSHRQueue_init 2 w 0 j) a False = None" for w j a by (simp add: findMatch_def MSHRQueue_init_def Let_def)
  obtain q i where "q_allocate 0 (MSHRQueue_init 2 32 0 0) (blockAlign (snd hmc) 256) 128 cpu_read 5 0 = Inr (q, i)" "\<not> isFull q"
    using alloc_init [of 2 32] by fastforce
  then show ?thesis
    by (simp add: cache_recvTimingReq_def Let_def route_request_def accept_request_def n
        cache0_bypasses isRead_def testCmdAttrib_def)
      (simp add: allocateMissBuffer_def allocateBufferInternal_def get_mq_def b Let_def put_mq_def
        schedMemSideSendEvent_def schedSendEvent_def PacketQueue_init_def ev_schedule_def scheduled_def MaxTick_def)
qed

lemma cpu_read_reach: "in_reach (snd hmc) (pkt_addr cpu_read)"
  by (simp add: in_reach_def)

lemma cache1_exists: "\<exists>c. cache_reachable (fst hmc) (snd hmc) HMC_2500_x32_Cache small_config c \<and> dir c = tag_dir_init"
proof -
  obtain c where "cache_recvTimingReq (fst hmc) (snd hmc) True 0 cache0 cpu_read = Inr (c, True)" "dir c = tag_dir_init"
    using cache0_step by blast
  moreover from this(1) have "cache_step (fst hmc) (snd hmc) cache0 c" by (rule request [OF cpu_read_reach])
  ultimately show ?thesis unfolding cache_reachable_def cache0_def by blast
qed

lemma small_config_sizes [simp]: "mshrs small_config = 2" "write_buffers small_config = 2"
  by (simp_all add: small_config_def)

section \<open>Properties\<close>

text \<open>C19: the Bloom filter is told exactly about the dirty blocks: in every state that the cache reaches
  from its construction by requests and events, when writes do not allocate lines, a block has been added to
  the filter once more than it was removed if a lookup of it hits a dirty line, and as often as it was removed otherwise. So
  no block is added twice and only blocks in the filter are removed from it.\<close>

theorem filter_counts_dirty_blocks:
  assumes "cache_reachable p k d g c" and "cache_ok k" and "\<not> dramCache_write_allocate k" and "0 < mshrs g"
    and "0 < write_buffers g" and "bloomFilterEnable k" and "in_reach k a"
  shows "bf_net (cbf (dir c)) (blockAlign k a) =
           (if set_hit k (dir c) a \<and> dirty (sets (dir c) (fst (getSetTagFromAddr k a))) then 1 else 0)"
proof -
  have "dir_inv k (dir c)" using cache_reachable_inv [OF assms(1-5)] by (simp add: cache_inv_def view_sel)
  then have "tags_ok k (dir c)" "bf_net (cbf (dir c)) (blockAlign k a) = (if dirty_block k (dir c) (blockAlign k a) then 1 else 0)"
    using assms(6) by (simp_all add: dir_inv_def)
  then show ?thesis using dirty_block_hit [OF assms(2) _ assms(7)] by simp
qed

lemma filter_counts_dirty_blocks_witness:
  "\<exists>c. cache_reachable (fst hmc) (snd hmc) HMC_2500_x32_Cache small_config c \<and>
     bf_net (cbf (dir c)) (blockAlign (snd hmc) 1000) =
       (if set_hit (snd hmc) (dir c) 1000 \<and> dirty (sets (dir c) (fst (getSetTagFromAddr (snd hmc) 1000))) then 1 else 0)"
proof -
  obtain c where c: "cache_reachable (fst hmc) (snd hmc) HMC_2500_x32_Cache small_config c" using cache1_exists by blast
  have "in_reach (snd hmc) 1000" by (simp add: in_reach_def)
  then show ?thesis using filter_counts_dirty_blocks [OF c hmc_cache_ok _ _ _ _, of 1000] c by auto
qed

text \<open>C17: a CPU read that goes around the cache while the GPU runs, because the dirty bit of its line or the Bloom
  filter says so, never misses dirty data: in every state that the cache reaches, when writes do not allocate lines, its
  block is not in the cache or is clean. The filter has to have no false negatives in this state, i.e. no counter of
  it may have overflowed.\<close>

theorem bypass_misses_no_dirty_block:
  assumes "cache_reachable p k d g c" and "cache_ok k" and "\<not> dramCache_write_allocate k" and "0 < mshrs g"
    and "0 < write_buffers g" and "in_reach k (pkt_addr pkt)"
    and no_false_negative: "\<forall>b. 0 < bf_net (cbf (dir c)) b \<longrightarrow> 0 < cbf_lookup k (cbf (dir c)) b"
    and "cpu_bypasses k gpu_running pkt c"
  shows "\<not> (set_hit k (dir c) (pkt_addr pkt) \<and> dirty (sets (dir c) (fst (getSetTagFromAddr k (pkt_addr pkt)))))"
proof
  assume hit: "set_hit k (dir c) (pkt_addr pkt) \<and> dirty (sets (dir c) (fst (getSetTagFromAddr k (pkt_addr pkt))))"
  then have bf: "bloomFilterEnable k" "cbf_lookup k (cbf (dir c)) (blockAlign k (pkt_addr pkt)) = 0"
    using assms(8) by (auto simp: cpu_bypasses_def)
  have "dir_inv k (dir c)" using cache_reachable_inv [OF assms(1-5)] by (simp add: cache_inv_def view_sel)
  then have "tags_ok k (dir c)" "0 < bf_net (cbf (dir c)) (blockAlign k (pkt_addr pkt))"
    using bf(1) hit dirty_block_hit [OF assms(2) _ assms(6)] by (auto simp: dir_inv_def)
  then show False using no_false_negative bf(2) by auto
qed

lemma bypass_misses_no_dirty_block_witness:
  "\<exists>c. cache_reachable (fst hmc) (snd hmc) HMC_2500_x32_Cache small_config c \<and> cpu_bypasses (snd hmc) True cpu_read c \<and>
     \<not> (set_hit (snd hmc) (dir c) (pkt_addr cpu_read) \<and>
        dirty (sets (dir c) (fst (getSetTagFromAddr (snd hmc) (pkt_addr cpu_read)))))"
proof -
  obtain c where c: "cache_reachable (fst hmc) (snd hmc) HMC_2500_x32_Cache small_config c" "dir c = tag_dir_init"
    using cache1_exists by blast
  have "\<forall>b. 0 < bf_net (cbf (dir c)) b \<longrightarrow> 0 < cbf_lookup (snd hmc) (cbf (dir c)) b"
    by (auto simp: bf_net_def exact_lookup_def)
  then show ?thesis
    using bypass_misses_no_dirty_block [OF c(1) hmc_cache_ok _ _ _ cpu_read_reach _ cache0_bypasses [OF c(2)]]
      cache0_bypasses [OF c(2)] c(1) by auto
qed



text \<open>C21: the loop that answers the targets of a miss register always ends, whatever the register holds: it
  returns, with the result of answering the targets one after the other in the order in which they joined the
  register, and when no packet stops it the register has no targets left. The three bodies are those of the respond
  event and of the responses from the memory.\<close>

theorem target_loop_ends:
  assumes "i < length (registers (get_mq qi c))"
    and "f = access_respond now lat \<or> f = copy_respond k now lat src \<or>
         f = (\<lambda>tgt_pkt c. assertE ''pkt->getAddr() == tgt_pkt->getAddr()'' (pkt_addr pkt = pkt_addr tgt_pkt)
                (access_respond now lat tgt_pkt c))"
  shows "\<exists>r. serve_loop f qi i c = Some r \<and> r = serve_mshr f qi i c \<and>
             (\<forall>c'. r = Inr c' \<longrightarrow> \<not> hasTargets (reg (get_mq qi c') i))"
proof -
  have "keeps_registers f"
    using assms(2) by (elim disjE) (simp_all add: access_respond_keeps copy_respond_keeps checked_respond_keeps)
  from serve_loop_targets [OF this assms(1) refl] show ?thesis unfolding serve_mshr_def by blast
qed

definition waiting_read :: mshr where
  "waiting_read = MSHR_init\<lparr>targets := \<lparr>tgts = [\<lparr>recvTime = 0, t_readyTime = 5, t_order = 0, t_pkt = cpu_read, t_source = FromCPU,
      markedPending = False\<rparr>], tl_needsExclusive = False, tl_hasUpgrade = False\<rparr>\<rparr>"

lemma target_loop_ends_witness:
  "hasTargets (reg (get_mq 0 (put_mshr 0 0 waiting_read cache0)) 0) \<and>
   (\<exists>r. serve_loop (access_respond 0 5) 0 0 (put_mshr 0 0 waiting_read cache0) = Some r)"
proof -
  have "0 < length (registers (get_mq 0 cache0))" by (simp add: get_mq_def MSHRQueue_init_def)
  then show ?thesis
    using target_loop_ends [of 0 0 "put_mshr 0 0 waiting_read cache0" "access_respond 0 5" 0 5]
    by (auto simp: hasTargets_def waiting_read_def)
qed

end
