(* ===== verification/DRAMCache_Data.thy ===== *)
theory DRAMCache_Data
  imports DRAMCache_Step
begin

text \<open>
  What the DRAM cache does with the data of the blocks: the write-back of a dirty line that is evicted, and the
  effect of a write on the memory image.
\<close>

section \<open>Write-backs\<close>

lemma q_allocate_target:
  assumes "q_allocate now q a sz pkt t n = Inr (q', i)" and "q_inv q"
  shows "i \<in> set (allocatedList q') \<and> blkAddr (reg q' i) = a \<and>
         (\<exists>tgt. tgts (targets (reg q' i)) = [tgt] \<and> t_pkt tgt = pkt)"
proof -
  obtain fl m msgs rl where q: "freeList q = i # fl" "getNumTargets (reg q i) = 0"
      "mshr_allocate now (reg q i) a sz pkt t n = Inr (m, msgs)"
      "q' = (upd_reg q i m)\<lparr>freeList := fl, allocatedList := allocatedList q @ [i],
             upstreamMsgs := upstreamMsgs q @ msgs, readyList := rl, allocated := allocated q + 1\<rparr>"
    using q_allocate_shape [OF assms(1)] by blast
  have "set (freeList q) \<subseteq> {0 ..< length (registers q)}" using assms(2) by (auto simp: q_inv_def)
  then have "i < length (registers q)" using q(1) by simp
  moreover have "blkAddr m = a" "\<exists>tgt. tgts (targets m) = [tgt] \<and> t_pkt tgt = pkt"
    using q(2,3) by (auto simp: mshr_allocate_def tl_add_def getNumTargets_def Let_def res_simps)
  ultimately show ?thesis by (simp add: q(4) upd_reg_def)
qed

lemma setBlocked_frame:
  "setBlocked cause c = Inr c' \<Longrightarrow> writeBuffer c' = writeBuffer c \<and> dir c' = dir c \<and> mem c' = mem c"
  by (auto simp: setBlocked_def res_simps split: if_splits)

lemma schedMemSide_frame:
  "schedMemSideSendEvent now t c = Inr c' \<Longrightarrow> writeBuffer c' = writeBuffer c \<and> dir c' = dir c \<and> mem c' = mem c"
  by (auto simp: schedMemSideSendEvent_def res_simps)

lemma allocateWriteBuffer_shape:
  assumes "allocateWriteBuffer k now pkt t c = Inr (c', i)"
  shows "q_allocate now (writeBuffer c) (blockAlign k (pkt_addr pkt)) (dramCache_block_size k) pkt t (c_order c) =
           Inr (writeBuffer c', i) \<and> dir c' = dir c \<and> mem c' = mem c"
  using assms
  by (auto simp: allocateWriteBuffer_def allocateBufferInternal_def get_mq_def put_mq_def Let_def res_simps
      split: if_splits dest!: setBlocked_frame schedMemSide_frame)

lemma read_block:
  assumes "cache_access (allocate_data (new_packet n (wb_request k a cid) ReadReq)) c = Inr (c', rd)"
    and "pmem (mem c) = Some bytes"
  shows "c' = c \<and> pdata rd = Some (take (dramCache_block_size k) (drop (unat (a - mem_start (mem c))) bytes)) \<and>
         unat (a - mem_start (mem c)) + dramCache_block_size k \<le> length bytes"
proof -
  let ?rd = "allocate_data (new_packet n (wb_request k a cid) ReadReq)"
  have f: "cmd ?rd = ReadReq" "\<not> flag_memInhibit ?rd" "pkt_addr ?rd = a" "pkt_size ?rd = dramCache_block_size k"
      "pdata ?rd = Some (replicate (dramCache_block_size k) 0)"
    by (simp_all add: allocate_data_def new_packet_def wb_request_def setPhys_def)
  obtain m where m: "access (mem c) ?rd = Inr (m, rd)" "c' = c\<lparr>mem := m\<rparr>"
    using assms(1) by (auto simp: cache_access_def res_simps)
  note r = access_plain_read [OF m(1) f(1,2)]
  obtain r1 where r1: "mem_read (mem c) ?rd = Inr r1" "pdata rd = pdata r1" using r(2) by blast
  then show ?thesis
    using m(2) r(1) assms(2) by (auto simp: mem_read_def getPtr_def f mem_off_def memcpy_def split: if_splits)
qed

lemma doWriteBack_effect:
  assumes "doWriteBack k now a cid c = Inr c'" and "pmem (mem c) = Some bytes" and "q_inv (writeBuffer c)"
  shows "mem c' = mem c \<and> dir c' = clear_line (fst (getSetTagFromAddr k a)) (dir c) \<and>
         (\<exists>i \<in> set (allocatedList (writeBuffer c')). \<exists>tgt. tgts (targets (reg (writeBuffer c') i)) = [tgt] \<and>
            blkAddr (reg (writeBuffer c') i) = blockAlign k a \<and> cmd (t_pkt tgt) = WriteReq \<and> pkt_addr (t_pkt tgt) = a \<and>
            pdata (t_pkt tgt) = Some (take (dramCache_block_size k) (drop (unat (a - mem_start (mem c))) bytes)))"
proof -
  let ?D = "take (dramCache_block_size k) (drop (unat (a - mem_start (mem c))) bytes)"
  let ?wb = "allocate_data (new_packet (newPkt c + 1) (wb_request k a cid) WriteReq)"
  let ?c = "c\<lparr>newPkt := newPkt c + 2\<rparr>"
  have f: "getPtr ?wb = Inr (replicate (dramCache_block_size k) 0)" "cmd ?wb = WriteReq" "pkt_addr ?wb = a"
    by (simp_all add: getPtr_def allocate_data_def new_packet_def wb_request_def setPhys_def)
  obtain c1 rd where rd: "cache_access (allocate_data (new_packet (newPkt c) (wb_request k a cid) ReadReq)) ?c = Inr (c1, rd)"
    using assms(1) by (auto simp: doWriteBack_def Let_def res_simps)
  have b: "c1 = ?c" "pdata rd = Some ?D" "length ?D = dramCache_block_size k"
    using read_block [OF rd] assms(2) by auto
  have cp: "memcpy (replicate (dramCache_block_size k) 0) 0 ?D 0 (dramCache_block_size k) = Inr ?D"
    using memcpy_full [of "replicate (dramCache_block_size k) 0" "dramCache_block_size k" 0 ?D] b(3) by simp
  have g: "getPtr rd = Inr ?D" using b(2) by (simp add: getPtr_def)
  obtain c2 i where a: "allocateWriteBuffer k now (?wb\<lparr>pdata := Some ?D\<rparr>) (now + 1) ?c = Inr (c2, i)"
      "c' = c2\<lparr>dir := clear_line (fst (getSetTagFromAddr k a)) (dir c2)\<rparr>"
    using assms(1) unfolding doWriteBack_def Let_def rd bindE_simps prod.case g f(1) cp b(1)
    by (auto simp: res_simps)
  note s = allocateWriteBuffer_shape [OF a(1)]
  have "q_inv (writeBuffer ?c)" using assms(3) by simp
  note t = q_allocate_target [OF s [THEN conjunct1] this]
  then obtain tgt where "tgts (targets (reg (writeBuffer c2) i)) = [tgt]" "t_pkt tgt = ?wb\<lparr>pdata := Some ?D\<rparr>" by blast
  moreover have "blkAddr (reg (writeBuffer c2) i) = blockAlign k a" "i \<in> set (allocatedList (writeBuffer c'))"
    using t f(3) a(2) by simp_all
  moreover have "mem c' = mem c" "dir c' = clear_line (fst (getSetTagFromAddr k a)) (dir c)" "writeBuffer c' = writeBuffer c2"
    using s a(2) by simp_all
  ultimately show ?thesis using f(2,3) by fastforce
qed

text \<open>C20: no dirty data is lost when a line is evicted to make room: if the eviction succeeds, a write of
  the block, with the bytes that the memory image holds for it, waits in the write buffer for the memory, the
  line is neither valid nor dirty, and the memory image is as before.\<close>

theorem dirty_line_written_back:
  assumes "evict_line k now s c = Inr c'" and "dirty (sets (dir c) s)" and "valid (sets (dir c) s)" and "cache_ok k"
    and "tags_ok k (dir c)" and "s < dramCache_num_sets k" and "q_inv (writeBuffer c)" and "pmem (mem c) = Some bytes"
  shows "mem c' = mem c \<and> \<not> valid (sets (dir c') s) \<and> \<not> dirty (sets (dir c') s) \<and>
         (\<exists>i \<in> set (allocatedList (writeBuffer c')). \<exists>tgt. tgts (targets (reg (writeBuffer c') i)) = [tgt] \<and>
            cmd (t_pkt tgt) = WriteReq \<and> pkt_addr (t_pkt tgt) = regenerateBlkAddr k s (tag (sets (dir c) s)) \<and>
            pdata (t_pkt tgt) = Some (take (dramCache_block_size k)
              (drop (unat (regenerateBlkAddr k s (tag (sets (dir c) s)) - mem_start (mem c))) bytes)))"
proof -
  let ?a = "regenerateBlkAddr k s (tag (sets (dir c) s))"
  have "doWriteBack k now ?a (if isGPUOwned (dir c) s then 31 else 0) (c\<lparr>dir := bf_do k (BfRemove ?a) (dir c)\<rparr>) = Inr c'"
    using assms(1-3) by (simp add: evict_line_def Let_def)
  from doWriteBack_effect [OF this] have e: "mem c' = mem c"
      "dir c' = clear_line (fst (getSetTagFromAddr k ?a)) (bf_do k (BfRemove ?a) (dir c))"
      "\<exists>i \<in> set (allocatedList (writeBuffer c')). \<exists>tgt. tgts (targets (reg (writeBuffer c') i)) = [tgt] \<and>
         cmd (t_pkt tgt) = WriteReq \<and> pkt_addr (t_pkt tgt) = ?a \<and>
         pdata (t_pkt tgt) = Some (take (dramCache_block_size k) (drop (unat (?a - mem_start (mem c))) bytes))"
    using assms(7,8) by auto
  have "fst (getSetTagFromAddr k ?a) = s"
    using line_addr_split(1) [OF assms(4,5,6,3)] by (simp add: line_addr_def)
  then have "\<not> valid (sets (dir c') s)" "\<not> dirty (sets (dir c') s)" by (simp_all add: e(2) clear_line_def)
  then show ?thesis using e(1,3) by blast
qed

section \<open>Writes\<close>

lemma need_helper_frame: "need_helper n h c = (h', c') \<Longrightarrow> mem c' = mem c \<and> newPkt c' = newPkt c"
  by (auto simp: need_helper_def split: if_splits)

lemma write_bursts_frame:
  "cache_write_bursts p now pkt pc n a h c = Inr c' \<Longrightarrow> mem c' = mem c \<and> newPkt c' = newPkt c"
proof (induction n arbitrary: a h c)
  case (Suc n)
  then show ?case
    by (auto simp: has_context_def Let_def res_simps split: prod.splits dest!: need_helper_frame Suc.IH)
qed simp

lemma queued_write_access:
  assumes "cache_addToWriteQueue p k now c pkt n = Inr c'"
  shows "\<exists>r. access (mem c) (copy_packet (newPkt c) pkt False True) = Inr (mem c', r)"
proof -
  obtain c1 c2 r where "cache_write_bursts p now pkt n n (set_burst k n (pkt_addr pkt)) None c = Inr c1"
      and "cache_access (copy_packet (newPkt c1) pkt False True) (c1\<lparr>newPkt := newPkt c1 + 1\<rparr>) = Inr (c2, r)"
      and "sched_nextReq now now c2 = Inr c'"
    using assms by (auto simp: cache_addToWriteQueue_def res_simps)
  moreover from this(1) have "mem c1 = mem c" "newPkt c1 = newPkt c" using write_bursts_frame by blast+
  ultimately show ?thesis by (auto simp: cache_access_def sched_nextReq_def res_simps split: if_splits)
qed

text \<open>C22: the data of a write that goes into the write queue never reach the memory image, unless the packet
  carries them by a pointer that is not its own: two writes that differ only in their data leave the same image. The code
  makes the access with a copy of the packet that has room for data, but the data are not copied.\<close>

theorem queued_write_loses_data:
  assumes "cache_addToWriteQueue p k now c pkt n = Inr c'"
    and "cache_addToWriteQueue p k now c (pkt\<lparr>pdata := data\<rparr>) n = Inr c''" and "\<not> flag_staticData pkt"
  shows "mem c' = mem c''"
proof -
  have "copy_packet (newPkt c) (pkt\<lparr>pdata := data\<rparr>) False True = copy_packet (newPkt c) pkt False True"
    using assms(3) by (simp add: copy_packet_def Let_def)
  then show ?thesis using queued_write_access [OF assms(1)] queued_write_access [OF assms(2)] by auto
qed

text \<open>C23: a second write to a block stops the simulator while the first one is in the write queue: when the burst of
  the block is in the set of queued bursts, which has as many members as the queue has entries, and the burst can be
  decoded, the assertion that the two sizes are equal fails, for the set has no second entry for the burst.\<close>

theorem second_queued_write_stops:
  assumes "isWrite pkt" and "(pkt_addr pkt, set_burst k n (pkt_addr pkt)) \<in> isInWriteQ c"
    and "length (writeQueue c) = card (isInWriteQ c)" and "length (writeQueue c) < writeBufferSize p" and "0 < n"
    and "cache_decodeAddr p now pkt (set_burst k n (pkt_addr pkt)) (burstSize p) False = Inr dp" and "req_context (req pkt) \<noteq> None"
  shows "cache_addToWriteQueue p k now c pkt n = Inl (AssertFail ''writeQueue.size() == isInWriteQueue.size()'')"
proof -
  obtain n' where n: "n = Suc n'" using assms(5) gr0_implies_Suc by blast
  obtain h c1 where h: "need_helper n None c = (h, c1)" by (cases "need_helper n None c")
  then have c1: "writeQueue c1 = writeQueue c" "isInWriteQ c1 = isInWriteQ c"
    by (auto simp: need_helper_def split: if_splits)
  have "insert (pkt_addr pkt, set_burst k n (pkt_addr pkt)) (isInWriteQ c) = isInWriteQ c"
    using assms(2) by (rule insert_absorb)
  then have "cache_write_bursts p now pkt n (Suc n') (set_burst k n (pkt_addr pkt)) None c =
      Inl (AssertFail ''writeQueue.size() == isInWriteQueue.size()'')"
    using assms(3,4,6,7) by (simp add: h c1 has_context_def)
  then show ?thesis using assms(1) n by (simp add: cache_addToWriteQueue_def)
qed

section \<open>Concrete writes and write-backs\<close>

definition cpu_write :: "u8 list \<Rightarrow> packet" where
  "cpu_write bytes = (new_packet 0 (setPhys 256 128 (Some 0)) WriteReq)\<lparr>pdata := Some bytes\<rparr>"

lemma cpu_write_sel [simp]:
  "pkt_addr (cpu_write bs) = 256" "pkt_size (cpu_write bs) = 128" "cmd (cpu_write bs) = WriteReq" "\<not> flag_memInhibit (cpu_write bs)"
  "req (cpu_write bs) = setPhys 256 128 (Some 0)" "\<not> flag_staticData (cpu_write bs)" "senderState (cpu_write bs) = []"
  "req_context (setPhys 256 128 (Some 0)) = Some 0"
  by (simp_all add: cpu_write_def new_packet_def setPhys_def)

lemma cpu_write_decoded:
  assumes "a < 32"
  shows "\<exists>dp. cache_decodeAddr (fst hmc) now (cpu_write bs) (word_of_nat a) n False = Inr dp \<and> dp_pkt dp = cpu_write bs"
proof -
  have "unat (word_of_nat a :: addr) = a" using assms by (simp add: unat_of_nat take_bit_nat_eq_self)
  moreover have "0 < unat NO_ROW" by (simp add: NO_ROW_def unat_gt_0)
  ultimately show ?thesis
    using assms
    by (simp add: cache_decodeAddr_def map_addr_def split_bank_def make_dram_packet_def has_context_def Let_def)
qed

lemma cache0_queues [simp]:
  "writeQueue cache0 = []" "isInWriteQ cache0 = {}" "nextReqEvent cache0 = None"
  by (simp_all add: cache0_def DRAMCacheCtrl_init_def dram_ctrl.defs DRAMCtrl_init_def)

lemma cpu_write_bursts:
  "\<exists>c'. cache_write_bursts (fst hmc) 0 (cpu_write bs) 2 2 4 None cache0 = Inr c' \<and> nextReqEvent c' = None \<and>
     length (writeQueue c') = 2 \<and> isInWriteQ c' = {(256, 4), (256, 5)}"
proof -
  obtain d4 where "cache_decodeAddr (fst hmc) 0 (cpu_write bs) 4 64 False = Inr d4"
    using cpu_write_decoded [of 4] by fastforce
  moreover obtain d5 where "cache_decodeAddr (fst hmc) 0 (cpu_write bs) 5 64 False = Inr d5"
    using cpu_write_decoded [of 5] by fastforce
  ultimately show ?thesis by (simp add: numeral_2_eq_2 has_context_def need_helper_def Let_def insert_commute)
qed

lemma small_mem_access:
  assumes "pkt_addr pkt = 256" "pkt_size pkt = 128" "cmd pkt = WriteReq \<or> cmd pkt = ReadReq" "\<not> flag_memInhibit pkt"
    "pdata pkt = Some d" "length d = 128"
  shows "\<exists>m r. access small_mem pkt = Inr (m, r) \<and> isResponse r"
  using assms
  by (auto simp: access_def access_branch_def in_range_def small_mem_def pkt_attr_defs cmd_defs writeOK_def store_data_def
      mem_read_def mem_write_def memcpy_def mem_off_def getPtr_def makeResponse_def)

lemma cpu_write_queued: "\<exists>c'. cache_addToWriteQueue (fst hmc) (snd hmc) 0 cache0 (cpu_write bs) 2 = Inr c'"
proof -
  obtain c' where c': "cache_write_bursts (fst hmc) 0 (cpu_write bs) 2 2 4 None cache0 = Inr c'" "nextReqEvent c' = None"
    using cpu_write_bursts by blast
  then have m: "mem c' = small_mem" using write_bursts_frame by fastforce
  let ?p = "copy_packet (newPkt c') (cpu_write bs) False True"
  have "pkt_addr ?p = 256" "pkt_size ?p = 128" "cmd ?p = WriteReq" "\<not> flag_memInhibit ?p" "pdata ?p = Some (replicate 128 0)"
    by (simp_all add: copy_packet_def allocate_data_def Let_def)
  then obtain m2 r where "access small_mem ?p = Inr (m2, r)" using small_mem_access [of ?p] by auto
  moreover have "isRequest ?p" using \<open>cmd ?p = WriteReq\<close> by (simp add: pkt_attr_defs cmd_defs)
  moreover have "isWrite (cpu_write bs)" by (simp add: pkt_attr_defs cmd_defs)
  ultimately show ?thesis
    using c' m by (simp add: cache_addToWriteQueue_def set_burst_def cache_access_def sched_nextReq_def ev_schedule_def scheduled_def)
qed

lemma queued_write_loses_data_witness:
  "\<exists>c1 c2. cache_addToWriteQueue (fst hmc) (snd hmc) 0 cache0 (cpu_write (replicate 128 1)) 2 = Inr c1 \<and>
     cache_addToWriteQueue (fst hmc) (snd hmc) 0 cache0 (cpu_write (replicate 128 2)) 2 = Inr c2 \<and> mem c1 = mem c2"
proof -
  obtain c1 c2 where c: "cache_addToWriteQueue (fst hmc) (snd hmc) 0 cache0 (cpu_write (replicate 128 1)) 2 = Inr c1"
      "cache_addToWriteQueue (fst hmc) (snd hmc) 0 cache0 (cpu_write (replicate 128 2)) 2 = Inr c2"
    using cpu_write_queued by meson
  have "cpu_write (replicate 128 2) = (cpu_write (replicate 128 1))\<lparr>pdata := Some (replicate 128 2)\<rparr>"
    by (simp add: cpu_write_def)
  then have "mem c1 = mem c2" using queued_write_loses_data [OF c(1), of "Some (replicate 128 2)" c2] c(2) by simp
  then show ?thesis using c by blast
qed

lemma queued_write_queue:
  assumes "cache_addToWriteQueue p k now c pkt n = Inr c'"
  shows "\<exists>c1. cache_write_bursts p now pkt n n (set_burst k n (pkt_addr pkt)) None c = Inr c1 \<and>
           writeQueue c' = writeQueue c1 \<and> isInWriteQ c' = isInWriteQ c1"
  using assms by (auto simp: cache_addToWriteQueue_def cache_access_def sched_nextReq_def res_simps split: if_splits)

lemma cpu_write_fills_queue:
  assumes "cache_addToWriteQueue (fst hmc) (snd hmc) 0 cache0 (cpu_write bs) 2 = Inr c"
  shows "length (writeQueue c) = 2 \<and> isInWriteQ c = {(256, 4), (256, 5)}"
proof -
  have "set_burst (snd hmc) 2 256 = 4" by (simp add: set_burst_def)
  then obtain c1 where "cache_write_bursts (fst hmc) 0 (cpu_write bs) 2 2 4 None cache0 = Inr c1"
      "writeQueue c = writeQueue c1" "isInWriteQ c = isInWriteQ c1"
    using queued_write_queue [OF assms] by (metis cpu_write_sel(1))
  then show ?thesis using cpu_write_bursts [of bs] by (metis Inr_inject)
qed

lemma second_queued_write_stops_witness:
  "\<exists>c. cache_addToWriteQueue (fst hmc) (snd hmc) 0 cache0 (cpu_write (replicate 128 1)) 2 = Inr c \<and>
     cache_addToWriteQueue (fst hmc) (snd hmc) 0 c (cpu_write (replicate 128 2)) 2 =
       Inl (AssertFail ''writeQueue.size() == isInWriteQueue.size()'')"
proof -
  obtain c where c: "cache_addToWriteQueue (fst hmc) (snd hmc) 0 cache0 (cpu_write (replicate 128 1)) 2 = Inr c"
    using cpu_write_queued by meson
  have q: "length (writeQueue c) = 2" "isInWriteQ c = {(256, 4), (256, 5)}"
    using cpu_write_fills_queue [OF c] by simp_all
  obtain dp where "cache_decodeAddr (fst hmc) 0 (cpu_write (replicate 128 2)) 4 64 False = Inr dp"
    using cpu_write_decoded [of 4] by fastforce
  moreover have "set_burst (snd hmc) 2 256 = 4" by (simp add: set_burst_def)
  moreover have "isWrite (cpu_write (replicate 128 2))" by (simp add: pkt_attr_defs cmd_defs)
  ultimately show ?thesis
    using second_queued_write_stops [of "cpu_write (replicate 128 2)" "snd hmc" 2 c "fst hmc" 0 dp] q
    by (intro exI [of _ c] conjI c) simp
qed

definition dirty_cache :: dramcache where
  "dirty_cache = cache0\<lparr>dir := (dir cache0)\<lparr>sets := (sets (dir cache0))(2 := \<lparr>tag = 0, valid = True, dirty = True\<rparr>)\<rparr>\<rparr>"

lemma dirty_cache_sel [simp]:
  "sets (dir dirty_cache) 2 = \<lparr>tag = 0, valid = True, dirty = True\<rparr>" "writeBuffer dirty_cache = MSHRQueue_init 2 532 0 1"
  "mem dirty_cache = small_mem" "reqQueue dirty_cache = PacketQueue_init" "blocked dirty_cache = 0"
  by (simp_all add: dirty_cache_def)

lemma dirty_cache_tags: "tags_ok (snd hmc) (dir dirty_cache)"
  by (auto simp: tags_ok_def dirty_cache_def tag_dir_init_def)

lemma dirty_cache_block: "regenerateBlkAddr (snd hmc) 2 0 = 256"
  by (simp add: regenerateBlkAddr_def)

lemma small_write_buffer:
  assumes "writeBuffer c = MSHRQueue_init 2 532 0 1" "reqQueue c = PacketQueue_init" "cmd pkt = WriteReq"
  shows "\<exists>c' i. allocateWriteBuffer (snd hmc) 0 pkt 1 c = Inr (c', i)"
proof -
  obtain q i where "q_allocate 0 (MSHRQueue_init 2 532 0 1) (blockAlign (snd hmc) (pkt_addr pkt)) 128 pkt 1 (c_order c) = Inr (q, i)"
      "\<not> isFull q"
    using alloc_init [of 2 532] by fastforce
  then show ?thesis
    using assms blockAlign_idem [OF hmc_cache_ok]
    by (simp add: allocateWriteBuffer_def allocateBufferInternal_def get_mq_def put_mq_def Let_def pkt_attr_defs cmd_defs
        schedMemSideSendEvent_def schedSendEvent_def PacketQueue_init_def ev_schedule_def scheduled_def MaxTick_def)
qed

lemma small_mem_block:
  assumes "mem c = small_mem"
  shows "\<exists>rd. cache_access (allocate_data (new_packet n (wb_request (snd hmc) 256 cid) ReadReq)) c = Inr (c, rd) \<and>
           isResponse rd \<and> getPtr rd = Inr (replicate 128 7)"
proof -
  let ?p = "allocate_data (new_packet n (wb_request (snd hmc) 256 cid) ReadReq)"
  have p: "pkt_addr ?p = 256" "pkt_size ?p = 128" "cmd ?p = ReadReq" "\<not> flag_memInhibit ?p" "pdata ?p = Some (replicate 128 0)"
    by (simp_all add: allocate_data_def new_packet_def wb_request_def setPhys_def)
  obtain m r where a: "access small_mem ?p = Inr (m, r)" "isResponse r" using small_mem_access [of ?p] p by auto
  have "isRequest ?p" using p(3) by (simp add: pkt_attr_defs cmd_defs)
  then have "cache_access ?p c = Inr (c\<lparr>mem := m\<rparr>, r)" using a assms by (simp add: cache_access_def)
  then show ?thesis using read_block [of n "snd hmc" 256 cid c] a(2) assms by (auto simp: small_mem_def getPtr_def)
qed

lemma dirty_cache_evicted: "\<exists>c'. evict_line (snd hmc) 0 2 dirty_cache = Inr c'"
proof -
  let ?d = "bf_do (snd hmc) (BfRemove 256) (dir dirty_cache)" and ?cid = "if isGPUOwned (dir dirty_cache) 2 then 31 else 0"
  let ?c = "dirty_cache\<lparr>dir := ?d, newPkt := newPkt dirty_cache + 2\<rparr>"
  let ?wb = "allocate_data (new_packet (newPkt dirty_cache + 1) (wb_request (snd hmc) 256 ?cid) WriteReq)"
  obtain rd where rd: "cache_access (allocate_data (new_packet (newPkt dirty_cache) (wb_request (snd hmc) 256 ?cid) ReadReq)) ?c = Inr (?c, rd)"
      "isResponse rd" "getPtr rd = Inr (replicate 128 7)"
    using small_mem_block [of ?c] by auto
  have "cmd ?wb = WriteReq" "getPtr ?wb = Inr (replicate 128 0)"
    by (simp_all add: getPtr_def allocate_data_def new_packet_def wb_request_def setPhys_def)
  moreover obtain c' i where "allocateWriteBuffer (snd hmc) 0 (?wb\<lparr>pdata := Some (replicate 128 7)\<rparr>) 1 ?c = Inr (c', i)"
    using small_write_buffer [of ?c "?wb\<lparr>pdata := Some (replicate 128 7)\<rparr>"] \<open>cmd ?wb = WriteReq\<close> by auto
  moreover have "memcpy (replicate 128 0) 0 (replicate 128 7) 0 128 = Inr (replicate 128 7)" by (simp add: memcpy_def)
  ultimately show ?thesis
    using rd by (simp add: evict_line_def dirty_cache_block doWriteBack_def Let_def del: if_split)
qed

lemma dirty_line_written_back_witness:
  "\<exists>c'. evict_line (snd hmc) 0 2 dirty_cache = Inr c' \<and> \<not> valid (sets (dir c') 2) \<and>
     (\<exists>i \<in> set (allocatedList (writeBuffer c')). \<exists>tgt. tgts (targets (reg (writeBuffer c') i)) = [tgt] \<and>
        pkt_addr (t_pkt tgt) = 256 \<and> pdata (t_pkt tgt) = Some (replicate 128 7))"
proof -
  obtain c' where e: "evict_line (snd hmc) 0 2 dirty_cache = Inr c'" using dirty_cache_evicted by blast
  have "q_inv (writeBuffer dirty_cache)" by (simp add: q_inv_init)
  from dirty_line_written_back [OF e _ _ hmc_cache_ok dirty_cache_tags _ this, of "replicate 512 7"]
  show ?thesis using e by (auto simp: small_mem_def dirty_cache_block)
qed

end
