(* ===== verification/Event_Queue.thy ===== *)
theory Event_Queue
  imports Prelude "HOL-Library.Product_Lexorder"
begin

text \<open>
  The event queue of the simulator, \<^verbatim>\<open>src/gem5/src/sim/eventq.cc\<close>, \<^verbatim>\<open>eventq.hh\<close> and \<^verbatim>\<open>eventq_impl.hh\<close>: a linked
  list of bins, one for every time and priority, each of which is a stack of events. The events are
  objects of a store, named by numbers; the pointers \<^verbatim>\<open>nextBin\<close> and \<^verbatim>\<open>nextInBin\<close> are names of events. The
  pointer \<^verbatim>\<open>nextBin\<close> means something only for the event on the top of a bin. The theory has the operations
  on the linked structure, the list of bins that it stands for, and the refinement between them. What an event does
  when it is processed is an argument. Ticks are natural numbers and priorities integers.
\<close>

section \<open>Events and the queue\<close>

record event_obj =
  nextBin :: "nat option"
  nextInBin :: "nat option"
  ev_when :: tick
  ev_priority :: int
  ev_squashed :: bool
  ev_scheduled :: bool
  ev_autoDelete :: bool
  ev_autoSerialize :: bool
  ev_isExit :: bool
  ev_isMain :: bool
  ev_initialized :: bool
  ev_queue :: "nat option"

type_synonym store = "nat \<Rightarrow> event_obj"

record event_queue =
  eq_id :: nat
  eq_head :: "nat option"
  eq_curTick :: tick
  async_queue :: "nat list"
  eq_store :: store

text \<open>The constructor; its flags are the public writable ones.\<close>

definition Event_new :: "int \<Rightarrow> bool \<Rightarrow> bool \<Rightarrow> bool \<Rightarrow> bool \<Rightarrow> event_obj" where
  "Event_new p squashed autoDelete autoSerialize isExit =
     \<lparr>nextBin = None, nextInBin = None, ev_when = 0, ev_priority = p, ev_squashed = squashed, ev_scheduled = False,
      ev_autoDelete = autoDelete, ev_autoSerialize = autoSerialize, ev_isExit = isExit, ev_isMain = False,
      ev_initialized = True, ev_queue = None\<rparr>"

definition EventQueue_new :: "nat \<Rightarrow> store \<Rightarrow> event_queue" where
  "EventQueue_new i st = \<lparr>eq_id = i, eq_head = None, eq_curTick = 0, async_queue = [], eq_store = st\<rparr>"

definition ev_less :: "event_obj \<Rightarrow> event_obj \<Rightarrow> bool" where
  "ev_less l r \<longleftrightarrow> ev_when l < ev_when r \<or> (ev_when l = ev_when r \<and> ev_priority l < ev_priority r)"

definition ev_le :: "event_obj \<Rightarrow> event_obj \<Rightarrow> bool" where
  "ev_le l r \<longleftrightarrow> ev_when l < ev_when r \<or> (ev_when l = ev_when r \<and> ev_priority l \<le> ev_priority r)"

definition ev_eq :: "event_obj \<Rightarrow> event_obj \<Rightarrow> bool" where
  "ev_eq l r \<longleftrightarrow> ev_when l = ev_when r \<and> ev_priority l = ev_priority r"

definition upd_ev :: "nat \<Rightarrow> (event_obj \<Rightarrow> event_obj) \<Rightarrow> store \<Rightarrow> store" where
  "upd_ev e f st = st(e := f (st e))"

section \<open>Insertion and removal\<close>

definition insertBefore :: "store \<Rightarrow> nat \<Rightarrow> nat option \<Rightarrow> store" where
  "insertBefore st event cur =
     (case cur of
        None \<Rightarrow> upd_ev event (\<lambda>o'. o'\<lparr>nextBin := None, nextInBin := None\<rparr>) st
      | Some c \<Rightarrow>
          if ev_less (st event) (st c)
          then upd_ev event (\<lambda>o'. o'\<lparr>nextBin := Some c, nextInBin := None\<rparr>) st
          else upd_ev event (\<lambda>o'. o'\<lparr>nextBin := nextBin (st c), nextInBin := Some c\<rparr>) st)"

text \<open>The loop that looks for the bin of an event; it returns the last top before it, and the pointer behind that.\<close>

partial_function (option) find_bin :: "store \<Rightarrow> nat \<Rightarrow> nat \<Rightarrow> nat option \<Rightarrow> (nat \<times> nat option) option" where
  "find_bin st event prev cur =
     (if cur \<noteq> None \<and> ev_less (st (the cur)) (st event) then find_bin st event (the cur) (nextBin (st (the cur)))
      else Some (prev, cur))"

definition eq_insert :: "nat \<Rightarrow> 'a event_queue_scheme \<Rightarrow> 'a event_queue_scheme option" where
  "eq_insert event q =
     (let st = eq_store q in
      case eq_head q of
        None \<Rightarrow> Some (q\<lparr>eq_store := insertBefore st event None, eq_head := Some event\<rparr>)
      | Some h \<Rightarrow>
          if ev_le (st event) (st h) then Some (q\<lparr>eq_store := insertBefore st event (Some h), eq_head := Some event\<rparr>)
          else
            (case find_bin st event h (nextBin (st h)) of
               None \<Rightarrow> None
             | Some (prev, cur) \<Rightarrow>
                 Some (q\<lparr>eq_store := upd_ev prev (\<lambda>o'. o'\<lparr>nextBin := Some event\<rparr>) (insertBefore st event cur)\<rparr>)))"

text \<open>The loop of \<^verbatim>\<open>removeItem\<close>: the event in the bin that points to the one to be removed.\<close>

partial_function (option) find_in_bin :: "store \<Rightarrow> nat \<Rightarrow> nat \<Rightarrow> nat option \<Rightarrow> nat res option" where
  "find_in_bin st event cur nxt =
     (if nxt = Some event then Some (Inr cur)
      else if nxt = None then Some (Inl (PanicError ''event not found!''))
      else find_in_bin st event (the nxt) (nextInBin (st (the nxt))))"

definition removeItem :: "store \<Rightarrow> nat \<Rightarrow> nat \<Rightarrow> (store \<times> nat option) res option" where
  "removeItem st event top' =
     (if event = top' then
        (case nextInBin (st top') of
           None \<Rightarrow> Some (Inr (st, nextBin (st top')))
         | Some n \<Rightarrow> Some (Inr (upd_ev n (\<lambda>o'. o'\<lparr>nextBin := nextBin (st top')\<rparr>) st, Some n)))
      else
        (case find_in_bin st event top' (nextInBin (st top')) of
           None \<Rightarrow> None
         | Some (Inl err) \<Rightarrow> Some (Inl err)
         | Some (Inr cur) \<Rightarrow>
             Some (Inr (upd_ev cur (\<lambda>o'. o'\<lparr>nextInBin := nextInBin (st event)\<rparr>) st, Some top'))))"

definition eq_remove :: "nat \<Rightarrow> 'a event_queue_scheme \<Rightarrow> 'a event_queue_scheme res option" where
  "eq_remove event q =
     (let st = eq_store q in
      case eq_head q of
        None \<Rightarrow> Some (Inl (PanicError ''event not found!''))
      | Some h \<Rightarrow>
          if ev_queue (st event) \<noteq> Some (eq_id q) then Some (Inl (AssertFail ''event->queue == this''))
          else if ev_eq (st h) (st event) then
            (case removeItem st event h of
               None \<Rightarrow> None
             | Some (Inl err) \<Rightarrow> Some (Inl err)
             | Some (Inr (st', top')) \<Rightarrow> Some (Inr (q\<lparr>eq_store := st', eq_head := top'\<rparr>)))
          else
            (case find_bin st event h (nextBin (st h)) of
               None \<Rightarrow> None
             | Some (prev, cur) \<Rightarrow>
                 (case cur of
                    None \<Rightarrow> Some (Inl (PanicError ''event not found!''))
                  | Some c \<Rightarrow>
                      if \<not> ev_eq (st c) (st event) then Some (Inl (PanicError ''event not found!''))
                      else
                        (case removeItem st event c of
                           None \<Rightarrow> None
                         | Some (Inl err) \<Rightarrow> Some (Inl err)
                         | Some (Inr (st', top')) \<Rightarrow>
                             Some (Inr (q\<lparr>eq_store := upd_ev prev (\<lambda>o'. o'\<lparr>nextBin := top'\<rparr>) st'\<rparr>))))))"

section \<open>Scheduling\<close>

text \<open>
  \<open>async\<close> is \<^verbatim>\<open>inParallelMode && (this != curEventQueue() || global)\<close> and \<open>own\<close> is
  \<^verbatim>\<open>!inParallelMode || this == curEventQueue()\<close>.
\<close>

definition set_when :: "nat \<Rightarrow> tick \<Rightarrow> 'a event_queue_scheme \<Rightarrow> 'a event_queue_scheme" where
  "set_when event when q =
     q\<lparr>eq_store := upd_ev event (\<lambda>o'. o'\<lparr>ev_when := when, ev_queue := Some (eq_id q)\<rparr>) (eq_store q)\<rparr>"

definition set_flags :: "nat \<Rightarrow> (event_obj \<Rightarrow> event_obj) \<Rightarrow> 'a event_queue_scheme \<Rightarrow> 'a event_queue_scheme" where
  "set_flags event f q = q\<lparr>eq_store := upd_ev event f (eq_store q)\<rparr>"

definition eq_schedule :: "bool \<Rightarrow> nat \<Rightarrow> tick \<Rightarrow> 'a event_queue_scheme \<Rightarrow> 'a event_queue_scheme res option" where
  "eq_schedule async event when q =
     (if when < eq_curTick q then Some (Inl (AssertFail ''when >= getCurTick()''))
      else if ev_scheduled (eq_store q event) then Some (Inl (AssertFail ''!event->scheduled()''))
      else if \<not> ev_initialized (eq_store q event) then Some (Inl (AssertFail ''event->initialized()''))
      else
        (case (if async then Some ((set_when event when q)\<lparr>async_queue := async_queue q @ [event]\<rparr>)
               else eq_insert event (set_when event when q)) of
           None \<Rightarrow> None
         | Some q' \<Rightarrow> Some (Inr (set_flags event (\<lambda>o'. o'\<lparr>ev_scheduled := True\<rparr>) q'))))"

definition delete_event :: "nat \<Rightarrow> 'a event_queue_scheme \<Rightarrow> 'a event_queue_scheme res" where
  "delete_event event q =
     assertE ''!scheduled()'' (\<not> ev_scheduled (eq_store q event))
       (Inr (set_flags event (\<lambda>o'. o'\<lparr>ev_squashed := False, ev_scheduled := False, ev_autoDelete := False, ev_autoSerialize := False,
               ev_isExit := False, ev_isMain := False, ev_initialized := False\<rparr>) q))"

definition eq_deschedule :: "bool \<Rightarrow> nat \<Rightarrow> 'a event_queue_scheme \<Rightarrow> 'a event_queue_scheme res option" where
  "eq_deschedule own event q =
     (if \<not> ev_scheduled (eq_store q event) then Some (Inl (AssertFail ''event->scheduled()''))
      else if \<not> ev_initialized (eq_store q event) then Some (Inl (AssertFail ''event->initialized()''))
      else if \<not> own then Some (Inl (AssertFail ''!inParallelMode || this == curEventQueue()''))
      else
        (case eq_remove event q of
           None \<Rightarrow> None
         | Some (Inl err) \<Rightarrow> Some (Inl err)
         | Some (Inr q1) \<Rightarrow>
             let q2 = set_flags event (\<lambda>o'. o'\<lparr>ev_squashed := False, ev_scheduled := False\<rparr>) q1 in
             Some (if ev_autoDelete (eq_store q2 event) then delete_event event q2 else Inr q2)))"

definition eq_reschedule :: "bool \<Rightarrow> nat \<Rightarrow> tick \<Rightarrow> bool \<Rightarrow> 'a event_queue_scheme \<Rightarrow> 'a event_queue_scheme res option" where
  "eq_reschedule own event when always q =
     (if when < eq_curTick q then Some (Inl (AssertFail ''when >= getCurTick()''))
      else if \<not> (always \<or> ev_scheduled (eq_store q event)) then Some (Inl (AssertFail ''always || event->scheduled()''))
      else if \<not> ev_initialized (eq_store q event) then Some (Inl (AssertFail ''event->initialized()''))
      else if \<not> own then Some (Inl (AssertFail ''!inParallelMode || this == curEventQueue()''))
      else
        (case (if ev_scheduled (eq_store q event) then eq_remove event q else Some (Inr q)) of
           None \<Rightarrow> None
         | Some (Inl err) \<Rightarrow> Some (Inl err)
         | Some (Inr q1) \<Rightarrow>
             (case eq_insert event (set_when event when q1) of
                None \<Rightarrow> None
              | Some q2 \<Rightarrow>
                  Some (Inr (set_flags event (\<lambda>o'. o'\<lparr>ev_squashed := False, ev_scheduled := True\<rparr>) q2)))))"

definition checkpointReschedule :: "nat \<Rightarrow> 'a event_queue_scheme \<Rightarrow> 'a event_queue_scheme option" where
  "checkpointReschedule event q = (if ev_scheduled (eq_store q event) then eq_insert event q else Some q)"

definition replaceHead :: "nat option \<Rightarrow> 'a event_queue_scheme \<Rightarrow> 'a event_queue_scheme \<times> nat option" where
  "replaceHead s q = (q\<lparr>eq_head := s\<rparr>, eq_head q)"

text \<open>\<^verbatim>\<open>while (!async_queue.empty())\<close>.\<close>

fun insert_async :: "nat list \<Rightarrow> 'a event_queue_scheme \<Rightarrow> 'a event_queue_scheme option" where
  "insert_async [] q = Some (q\<lparr>async_queue := []\<rparr>)"
| "insert_async (e # es) q = (case eq_insert e q of None \<Rightarrow> None | Some q' \<Rightarrow> insert_async es q')"

definition handleAsyncInsertions :: "bool \<Rightarrow> 'a event_queue_scheme \<Rightarrow> 'a event_queue_scheme res option" where
  "handleAsyncInsertions own q =
     (if \<not> own then Some (Inl (AssertFail ''this == curEventQueue()''))
      else map_option Inr (insert_async (async_queue q) q))"

section \<open>Service\<close>

text \<open>
  The first event is taken off; if it is not squashed the time is set and the event is processed. The
  result has the event when it is an exit event.
\<close>

definition service_pop :: "nat \<Rightarrow> 'a event_queue_scheme \<Rightarrow> 'a event_queue_scheme" where
  "service_pop event q =
     (let st = upd_ev event (\<lambda>o'. o'\<lparr>ev_scheduled := False\<rparr>) (eq_store q) in
      case nextInBin (st event) of
        Some n \<Rightarrow> q\<lparr>eq_store := upd_ev n (\<lambda>o'. o'\<lparr>nextBin := nextBin (st event)\<rparr>) st, eq_head := Some n\<rparr>
      | None \<Rightarrow> q\<lparr>eq_store := st, eq_head := nextBin (st event)\<rparr>)"

definition auto_delete :: "nat \<Rightarrow> 'a event_queue_scheme \<Rightarrow> 'a event_queue_scheme res" where
  "auto_delete event q =
     (if ev_autoDelete (eq_store q event) \<and> \<not> ev_scheduled (eq_store q event) then delete_event event q else Inr q)"

definition serviceOne :: "(nat \<Rightarrow> 'a event_queue_scheme \<Rightarrow> 'a event_queue_scheme res) \<Rightarrow> 'a event_queue_scheme \<Rightarrow> ('a event_queue_scheme \<times> nat option) res" where
  "serviceOne process q =
     (case eq_head q of
        None \<Rightarrow> Inl (Undefined ''head->nextInBin'')
      | Some event \<Rightarrow>
          let q1 = service_pop event q in
          if \<not> ev_squashed (eq_store q1 event) then
            bindE (process event (q1\<lparr>eq_curTick := ev_when (eq_store q1 event)\<rparr>)) (\<lambda>q2.
            if ev_isExit (eq_store q2 event) then
              assertE ''!AutoDelete || !IsMainQueue''
                (\<not> ev_autoDelete (eq_store q2 event) \<or> \<not> ev_isMain (eq_store q2 event)) (Inr (q2, Some event))
            else bindE (auto_delete event q2) (\<lambda>q3. Inr (q3, None)))
          else
            bindE (auto_delete event (set_flags event (\<lambda>o'. o'\<lparr>ev_squashed := False\<rparr>) q1)) (\<lambda>q3. Inr (q3, None)))"

text \<open>\<^verbatim>\<open>serviceEvents\<close>: the events up to a time are served, as long as there are any; it need not end.\<close>

partial_function (option) service_loop ::
  "(nat \<Rightarrow> 'a event_queue_scheme \<Rightarrow> 'a event_queue_scheme res) \<Rightarrow> tick \<Rightarrow> 'a event_queue_scheme \<Rightarrow> 'a event_queue_scheme res option" where
  "service_loop process when q =
     (if eq_head q = None then Some (Inr q)
      else if ev_when (eq_store q (the (eq_head q))) > when then Some (Inr q)
      else (case serviceOne process q of
              Inl err \<Rightarrow> Some (Inl err)
            | Inr r \<Rightarrow> service_loop process when (fst r)))"

definition serviceEvents :: "(nat \<Rightarrow> 'a event_queue_scheme \<Rightarrow> 'a event_queue_scheme res) \<Rightarrow> tick \<Rightarrow> 'a event_queue_scheme \<Rightarrow> 'a event_queue_scheme res option" where
  "serviceEvents process when q =
     map_option (\<lambda>r. bindE r (\<lambda>q'. Inr (q'\<lparr>eq_curTick := when\<rparr>))) (service_loop process when q)"

section \<open>The check of the queue\<close>

text \<open>\<^verbatim>\<open>debugVerify\<close>, whose local variables are the last time and priority and the events seen.\<close>

record verify_vars =
  vv_time :: tick
  vv_priority :: int
  vv_map :: "nat \<Rightarrow> bool"

partial_function (option) verify_bin :: "store \<Rightarrow> nat option \<Rightarrow> verify_vars \<Rightarrow> (verify_vars \<times> bool) option" where
  "verify_bin st nxt v =
     (if nxt = None then Some (v, True)
      else
        let n = the nxt in
        if ev_when (st n) < vv_time v then Some (v, False)
        else if ev_when (st n) = vv_time v \<and> ev_priority (st n) < vv_priority v then Some (v, False)
        else if vv_map v n then Some (v, False)
        else verify_bin st (nextInBin (st n))
               \<lparr>vv_time = ev_when (st n), vv_priority = ev_priority (st n), vv_map = (vv_map v)(n := True)\<rparr>)"

partial_function (option) verify_bins :: "store \<Rightarrow> nat option \<Rightarrow> verify_vars \<Rightarrow> bool option" where
  "verify_bins st bin v =
     (if bin = None then Some True
      else Option.bind (verify_bin st bin v) (\<lambda>r.
             if snd r then verify_bins st (nextBin (st (the bin))) (fst r) else Some False))"

definition debugVerify :: "'a event_queue_scheme \<Rightarrow> bool option" where
  "debugVerify q = verify_bins (eq_store q) (eq_head q) \<lparr>vv_time = 0, vv_priority = 0, vv_map = (\<lambda>_. False)\<rparr>"

section \<open>Checkpoints\<close>

text \<open>What \<^verbatim>\<open>Event::serialize\<close> writes: the time, the priority and the flags.\<close>

record event_image =
  im_when :: tick
  im_priority :: int
  im_squashed :: bool
  im_scheduled :: bool
  im_autoDelete :: bool
  im_autoSerialize :: bool
  im_isExit :: bool
  im_isMain :: bool

definition Event_serialize :: "event_obj \<Rightarrow> event_image" where
  "Event_serialize ev =
     \<lparr>im_when = ev_when ev, im_priority = ev_priority ev, im_squashed = ev_squashed ev, im_scheduled = ev_scheduled ev,
      im_autoDelete = ev_autoDelete ev, im_autoSerialize = ev_autoSerialize ev, im_isExit = ev_isExit ev,
      im_isMain = ev_isMain ev\<rparr>"

definition Event_unserialize :: "event_image \<Rightarrow> event_obj \<Rightarrow> event_obj res" where
  "Event_unserialize im ev =
     assertE ''!scheduled()'' (\<not> ev_scheduled ev)
     (assertE ''initialized()'' (ev_initialized ev)
     (let ev1 = ev\<lparr>ev_when := im_when im, ev_priority := im_priority im, ev_squashed := im_squashed im,
                   ev_scheduled := im_scheduled im, ev_autoDelete := im_autoDelete im,
                   ev_autoSerialize := im_autoSerialize im, ev_isExit := im_isExit im, ev_isMain := im_isMain im,
                   ev_initialized := True\<rparr>
      in Inr (if ev_scheduled ev1 \<and> \<not> ev_squashed ev1 then ev1\<lparr>ev_squashed := False, ev_scheduled := False\<rparr> else ev1)))"

text \<open>\<^verbatim>\<open>EventQueue::serialize\<close>: the events that ask for it, in the order of the queue.\<close>

partial_function (option) serialize_bin :: "store \<Rightarrow> nat option \<Rightarrow> nat list \<Rightarrow> nat list option" where
  "serialize_bin st nxt acc =
     (if nxt = None then Some acc
      else serialize_bin st (nextInBin (st (the nxt))) (if ev_autoSerialize (st (the nxt)) then acc @ [the nxt] else acc))"

partial_function (option) serialize_bins :: "store \<Rightarrow> nat option \<Rightarrow> nat list \<Rightarrow> nat list option" where
  "serialize_bins st bin acc =
     (if bin = None then Some acc
      else Option.bind (serialize_bin st bin acc) (serialize_bins st (nextBin (st (the bin)))))"

definition eq_serialize :: "'a event_queue_scheme \<Rightarrow> event_image list option" where
  "eq_serialize q = map_option (map (\<lambda>e. Event_serialize (eq_store q e))) (serialize_bins (eq_store q) (eq_head q) [])"

text \<open>
  \<^verbatim>\<open>EventQueue::unserialize\<close>: for every event of the checkpoint an object is made, here the given one at the given
  address, its fields are read, and it goes to \<^verbatim>\<open>checkpointReschedule\<close>.
\<close>

fun eq_unserialize :: "(nat \<times> event_obj \<times> event_image) list \<Rightarrow> 'a event_queue_scheme \<Rightarrow> 'a event_queue_scheme res option" where
  "eq_unserialize [] q = Some (Inr q)"
| "eq_unserialize ((p, ev, im) # evs) q =
     (case Event_unserialize im ev of
        Inl err \<Rightarrow> Some (Inl err)
      | Inr ev' \<Rightarrow>
          (case checkpointReschedule p (q\<lparr>eq_store := (eq_store q)(p := ev')\<rparr>) of
             None \<Rightarrow> None
           | Some q' \<Rightarrow> eq_unserialize evs q'))"

section \<open>The list of bins\<close>

text \<open>
  The structure stands for a list of bins, each a list of events with its top first. \<open>in_bin\<close> is the chain
  through a bin, and \<open>bins_seg\<close> a segment of the list of bins between two pointers.
\<close>

definition ev_key :: "event_obj \<Rightarrow> tick \<times> int" where
  "ev_key o' = (ev_when o', ev_priority o')"

lemma ev_order: "ev_less l r \<longleftrightarrow> ev_key l < ev_key r" "ev_le l r \<longleftrightarrow> ev_key l \<le> ev_key r" "ev_eq l r \<longleftrightarrow> ev_key l = ev_key r"
  by (auto simp: ev_less_def ev_le_def ev_eq_def ev_key_def less_prod_def less_eq_prod_def)

fun in_bin :: "store \<Rightarrow> nat list \<Rightarrow> bool" where
  "in_bin st [] \<longleftrightarrow> True"
| "in_bin st [e] \<longleftrightarrow> nextInBin (st e) = None"
| "in_bin st (e # f # es) \<longleftrightarrow> nextInBin (st e) = Some f \<and> in_bin st (f # es)"

fun bins_seg :: "store \<Rightarrow> nat list list \<Rightarrow> nat option \<Rightarrow> nat option \<Rightarrow> bool" where
  "bins_seg st [] h t \<longleftrightarrow> h = t"
| "bins_seg st (b # bs) h t \<longleftrightarrow> b \<noteq> [] \<and> h = Some (hd b) \<and> in_bin st b \<and> bins_seg st bs (nextBin (st (hd b))) t"

definition bin_key :: "store \<Rightarrow> nat list \<Rightarrow> tick \<times> int" where
  "bin_key st b = ev_key (st (hd b))"

definition keys_ok :: "store \<Rightarrow> nat list list \<Rightarrow> bool" where
  "keys_ok st bins \<longleftrightarrow>
     (\<forall>b \<in> set bins. \<forall>e \<in> set b. ev_key (st e) = bin_key st b) \<and> sorted_wrt (\<lambda>b c. bin_key st b < bin_key st c) bins"

definition bins_of :: "store \<Rightarrow> nat option \<Rightarrow> nat list list \<Rightarrow> bool" where
  "bins_of st h bins \<longleftrightarrow> bins_seg st bins h None \<and> keys_ok st bins \<and> distinct (concat bins)"

text \<open>The operations on the list.\<close>

fun bins_insert :: "store \<Rightarrow> nat \<Rightarrow> nat list list \<Rightarrow> nat list list" where
  "bins_insert st e [] = [[e]]"
| "bins_insert st e (b # bs) =
     (if ev_key (st e) < bin_key st b then [e] # b # bs
      else if ev_key (st e) = bin_key st b then (e # b) # bs
      else b # bins_insert st e bs)"

definition bins_remove :: "nat \<Rightarrow> nat list list \<Rightarrow> nat list list" where
  "bins_remove e bins = filter (\<lambda>b. b \<noteq> []) (map (remove1 e) bins)"

section \<open>Segments\<close>

lemma upd_ev_simps [simp]: "upd_ev e f st e = f (st e)" "x \<noteq> e \<Longrightarrow> upd_ev e f st x = st x"
  by (simp_all add: upd_ev_def)

lemma bins_seg_append: "bins_seg st (xs @ ys) h t \<longleftrightarrow> (\<exists>m. bins_seg st xs h m \<and> bins_seg st ys m t)"
  by (induction xs arbitrary: h) auto

lemma in_bin_frame: "(\<And>e. e \<in> set b \<Longrightarrow> nextInBin (st' e) = nextInBin (st e)) \<Longrightarrow> in_bin st' b = in_bin st b"
  by (induction st b rule: in_bin.induct) auto

lemma bins_seg_frame:
  "(\<And>e. e \<in> set (concat bs) \<Longrightarrow> nextInBin (st' e) = nextInBin (st e)) \<Longrightarrow>
   (\<And>b. b \<in> set bs \<Longrightarrow> b \<noteq> [] \<Longrightarrow> nextBin (st' (hd b)) = nextBin (st (hd b))) \<Longrightarrow>
   bins_seg st' bs h t = bins_seg st bs h t"
proof (induction bs arbitrary: h)
  case (Cons b bs)
  have "in_bin st' b = in_bin st b" using Cons.prems(1) by (intro in_bin_frame) simp
  then show ?case using Cons by auto
qed simp

lemma bins_seg_upd:
  "e \<notin> set (concat bs) \<Longrightarrow> bins_seg (upd_ev e f st) bs h t = bins_seg st bs h t"
proof (rule bins_seg_frame)
  fix b assume "e \<notin> set (concat bs)" "b \<in> set bs" "b \<noteq> []"
  then have "hd b \<noteq> e" by (metis UN_I hd_in_set set_concat)
  then show "nextBin (upd_ev e f st (hd b)) = nextBin (st (hd b))" by simp
next
  fix x assume "e \<notin> set (concat bs)" "x \<in> set (concat bs)"
  then have "x \<noteq> e" by blast
  then show "nextInBin (upd_ev e f st x) = nextInBin (st x)" by simp
qed

lemma bins_seg_nonempty: "bins_seg st bs h t \<Longrightarrow> b \<in> set bs \<Longrightarrow> b \<noteq> []"
  by (induction bs arbitrary: h) auto

text \<open>The pointer behind the last bin of a segment is redirected.\<close>

lemma bins_seg_redirect:
  assumes "bins_seg st (xs @ [c]) h t" and "distinct (concat (xs @ [c]))"
  shows "bins_seg (upd_ev (hd c) (\<lambda>o'. o'\<lparr>nextBin := t'\<rparr>) st) (xs @ [c]) h t'"
proof -
  let ?st = "upd_ev (hd c) (\<lambda>o'. o'\<lparr>nextBin := t'\<rparr>) st"
  have c: "c \<noteq> []" using bins_seg_nonempty [OF assms(1)] by simp
  then have "hd c \<in> set c" by simp
  then have "hd c \<notin> set (concat xs)" using assms(2) by auto
  then have xs: "bins_seg ?st xs h m = bins_seg st xs h m" for m by (rule bins_seg_upd)
  have ib: "in_bin ?st c = in_bin st c" by (rule in_bin_frame) (simp add: upd_ev_def)
  obtain m where "bins_seg st xs h m" "bins_seg st [c] m t" using assms(1) by (auto simp: bins_seg_append)
  then have "bins_seg ?st xs h m" "bins_seg ?st [c] m t'" using xs ib by simp_all
  then show ?thesis unfolding bins_seg_append by blast
qed

section \<open>Insertion\<close>

text \<open>Operations on the pointers leave the other fields of all events alone.\<close>

definition same_data :: "store \<Rightarrow> store \<Rightarrow> bool" where
  "same_data st st' \<longleftrightarrow>
     (\<forall>e. (st' e)\<lparr>nextBin := None, nextInBin := None\<rparr> = (st e)\<lparr>nextBin := None, nextInBin := None\<rparr>)"

lemma same_data_sel:
  assumes "same_data st st'"
  shows "ev_when (st' e) = ev_when (st e)" "ev_priority (st' e) = ev_priority (st e)" "ev_squashed (st' e) = ev_squashed (st e)"
    "ev_scheduled (st' e) = ev_scheduled (st e)" "ev_autoDelete (st' e) = ev_autoDelete (st e)" "ev_isExit (st' e) = ev_isExit (st e)"
    "ev_isMain (st' e) = ev_isMain (st e)" "ev_initialized (st' e) = ev_initialized (st e)" "ev_queue (st' e) = ev_queue (st e)"
    "ev_key (st' e) = ev_key (st e)"
  using assms unfolding same_data_def ev_key_def
  by (metis (no_types, lifting) event_obj.select_convs event_obj.update_convs(1,2) event_obj.surjective)+

lemma same_data_refl [simp]: "same_data st st"
  by (simp add: same_data_def)

lemma same_data_trans: "same_data st st' \<Longrightarrow> same_data st' st'' \<Longrightarrow> same_data st st''"
  by (simp add: same_data_def)

lemma same_data_upd [simp]:
  "same_data st (upd_ev e (\<lambda>o'. o'\<lparr>nextBin := x\<rparr>) st')  = same_data st st'"
  "same_data st (upd_ev e (\<lambda>o'. o'\<lparr>nextInBin := y\<rparr>) st')  = same_data st st'"
  "same_data st (upd_ev e (\<lambda>o'. o'\<lparr>nextBin := x, nextInBin := y\<rparr>) st')  = same_data st st'"
  by (auto simp: same_data_def upd_ev_def)

lemma same_data_insertBefore [simp]: "same_data st (insertBefore st e c)"
  by (auto simp: insertBefore_def split: option.splits)

lemma keys_ok_same: "same_data st st' \<Longrightarrow> keys_ok st' bins = keys_ok st bins"
  by (simp add: keys_ok_def bin_key_def same_data_sel(10))

lemma bins_insert_cong: "(\<And>x. ev_key (st' x) = ev_key (st x)) \<Longrightarrow> bins_insert st' e bins = bins_insert st e bins"
  by (induction bins) (simp_all add: bin_key_def)

lemma bins_insert_set: "set (concat (bins_insert st e bins)) = insert e (set (concat bins))"
  by (induction bins) auto

lemma bins_insert_distinct:
  "distinct (concat bins) \<Longrightarrow> e \<notin> set (concat bins) \<Longrightarrow> distinct (concat (bins_insert st e bins))"
proof (induction bins)
  case (Cons b bs)
  then show ?case using bins_insert_set [of st e bs] by auto
qed simp

lemma bins_insert_keys: "bin_key st ` set (bins_insert st e bins) = insert (ev_key (st e)) (bin_key st ` set bins)"
  by (induction bins) (auto simp: bin_key_def)

lemma keys_ok_insert: "keys_ok st bins \<Longrightarrow> keys_ok st (bins_insert st e bins)"
proof (induction bins)
  case (Cons b bs)
  then have bs: "keys_ok st bs" "\<forall>c \<in> set bs. bin_key st b < bin_key st c" "\<forall>x \<in> set b. ev_key (st x) = bin_key st b"
    by (auto simp: keys_ok_def)
  consider "ev_key (st e) < bin_key st b" | "ev_key (st e) = bin_key st b" | "bin_key st b < ev_key (st e)"
    using linorder_less_linear by blast
  then show ?case
  proof cases
    case 1
    then have "\<forall>c \<in> set bs. ev_key (st e) < bin_key st c" using bs(2) less_trans by blast
    then show ?thesis using 1 Cons.prems by (auto simp: keys_ok_def bin_key_def)
  next
    case 2
    then show ?thesis using Cons.prems by (auto simp: keys_ok_def bin_key_def)
  next
    case 3
    have "\<forall>c \<in> set (bins_insert st e bs). bin_key st b < bin_key st c"
      using 3 bs(2) bins_insert_keys [of st e bs] by (metis (no_types, lifting) image_iff insert_iff)
    then show ?thesis using 3 Cons.IH [OF bs(1)] bs(3) by (auto simp: keys_ok_def)
  qed
qed (simp add: keys_ok_def bin_key_def)

definition head_of :: "nat list list \<Rightarrow> nat option" where
  "head_of bins = (case bins of [] \<Rightarrow> None | b # _ \<Rightarrow> Some (hd b))"

lemma head_of_simps [simp]: "head_of [] = None" "head_of (b # bs) = Some (hd b)"
  by (simp_all add: head_of_def)

lemma bins_seg_head: "bins_seg st bins h None \<Longrightarrow> h = head_of bins"
  by (cases bins) auto

text \<open>The search ends at the last bin before the place of the event.\<close>

lemma find_bin_ok:
  assumes "bins_seg st (c # bs) h None"
  shows "\<exists>zs c' ys. c # bs = zs @ c' # ys \<and> find_bin st e (hd c) (nextBin (st (hd c))) = Some (hd c', head_of ys) \<and>
    (\<forall>b \<in> set (tl (zs @ [c'])). bin_key st b < ev_key (st e)) \<and> (\<forall>y \<in> set (take 1 ys). ev_key (st e) \<le> bin_key st y)"
  using assms
proof (induction bs arbitrary: c h)
  case Nil
  then have "find_bin st e (hd c) (nextBin (st (hd c))) = Some (hd c, None)" by (subst find_bin.simps) simp
  then show ?case by (intro exI [of _ "[]"] exI [of _ c]) simp
next
  case (Cons d bs)
  then have n: "nextBin (st (hd c)) = Some (hd d)" "bins_seg st (d # bs) (Some (hd d)) None" by auto
  show ?case
  proof (cases "bin_key st d < ev_key (st e)")
    case True
    obtain zs c' ys where I: "d # bs = zs @ c' # ys" "find_bin st e (hd d) (nextBin (st (hd d))) = Some (hd c', head_of ys)"
        "\<forall>b \<in> set (tl (zs @ [c'])). bin_key st b < ev_key (st e)" "\<forall>y \<in> set (take 1 ys). ev_key (st e) \<le> bin_key st y"
      using Cons.IH [OF n(2)] by blast
    have "find_bin st e (hd c) (nextBin (st (hd c))) = find_bin st e (hd d) (nextBin (st (hd d)))"
      using True by (subst find_bin.simps) (simp add: n(1) ev_order bin_key_def)
    moreover have "\<forall>b \<in> set (zs @ [c']). bin_key st b < ev_key (st e)"
      using I(1,3) True by (cases zs) auto
    ultimately show ?thesis using I(1,2,4) by (intro exI [of _ "c # zs"] exI [of _ c'] exI [of _ ys]) simp
  next
    case False
    then have "find_bin st e (hd c) (nextBin (st (hd c))) = Some (hd c, Some (hd d))"
      by (subst find_bin.simps) (simp add: n(1) ev_order bin_key_def)
    then show ?thesis using False by (intro exI [of _ "[]"] exI [of _ c] exI [of _ "d # bs"]) simp
  qed
qed

lemma bins_insert_split:
  assumes "\<forall>b \<in> set zs. bin_key st b < ev_key (st e)"
  shows "bins_insert st e (zs @ ys) = zs @ bins_insert st e ys"
  using assms by (induction zs) auto

text \<open>Insertion before a list of bins whose first one is not earlier.\<close>

lemma insertBefore_seg:
  assumes "bins_seg st ys (head_of ys) None" "e \<notin> set (concat ys)" "\<forall>y \<in> set (take 1 ys). ev_key (st e) \<le> bin_key st y"
  shows "bins_seg (insertBefore st e (head_of ys)) (bins_insert st e ys) (Some e) None"
proof (cases ys)
  case Nil
  then show ?thesis by (simp add: insertBefore_def)
next
  case (Cons y zs)
  have y: "y \<noteq> []" "e \<notin> set y" "e \<notin> set (concat zs)" "hd y \<noteq> e"
    using assms(1,2) Cons hd_in_set [of y] by auto
  have ib: "in_bin (upd_ev e f st) y = in_bin st y" for f
    using y(2) by (intro in_bin_frame) (metis upd_ev_simps(2))
  have s: "in_bin st y" "bins_seg st zs (nextBin (st (hd y))) None" using assms(1) Cons by auto
  show ?thesis
  proof (cases "ev_key (st e) < bin_key st y")
    case True
    then show ?thesis
      using Cons y s ib by (simp add: insertBefore_def ev_order bin_key_def bins_seg_upd)
  next
    case False
    then have k: "ev_key (st e) = bin_key st y" using assms(3) Cons by simp
    obtain x xs where yx: "y = x # xs" using y(1) by (cases y) auto
    show ?thesis
      using k Cons y s ib by (simp add: insertBefore_def ev_order bin_key_def bins_seg_upd yx)
  qed
qed

lemma insertBefore_frame:
  "e \<notin> set (concat bs) \<Longrightarrow> bins_seg (insertBefore st e c) bs h t = bins_seg st bs h t"
  by (simp add: insertBefore_def bins_seg_upd split: option.split)

lemma bins_seg_join:
  "bins_seg st (xs @ ys) h None \<longleftrightarrow> bins_seg st xs h (head_of ys) \<and> bins_seg st ys (head_of ys) None"
  unfolding bins_seg_append using bins_seg_head by blast

lemma eq_insert_refines:
  assumes "bins_of (eq_store q) (eq_head q) bins" and "e \<notin> set (concat bins)"
  shows "\<exists>st h. eq_insert e q = Some (q\<lparr>eq_store := st, eq_head := h\<rparr>) \<and> same_data (eq_store q) st \<and>
                bins_of st h (bins_insert (eq_store q) e bins)"
proof -
  let ?st = "eq_store q"
  have seg: "bins_seg ?st bins (eq_head q) None" and k: "keys_ok ?st bins" and d: "distinct (concat bins)"
    using assms(1) by (simp_all add: bins_of_def)
  have hd: "eq_head q = head_of bins" using seg by (rule bins_seg_head)
  have post: "keys_ok ?st (bins_insert ?st e bins)" "distinct (concat (bins_insert ?st e bins))"
    using keys_ok_insert [OF k] bins_insert_distinct [OF d assms(2)] by blast+
  show ?thesis
  proof (cases "\<forall>y \<in> set (take 1 bins). ev_key (?st e) \<le> bin_key ?st y")
    case True
    then have "eq_insert e q = Some (q\<lparr>eq_store := insertBefore ?st e (head_of bins), eq_head := Some e\<rparr>)"
      by (cases bins) (simp_all add: eq_insert_def hd ev_order bin_key_def Let_def)
    moreover have "bins_seg (insertBefore ?st e (head_of bins)) (bins_insert ?st e bins) (Some e) None"
      using insertBefore_seg [OF _ assms(2) True] seg hd by simp
    ultimately show ?thesis
      using post keys_ok_same [OF same_data_insertBefore] same_data_insertBefore unfolding bins_of_def by blast
  next
    case False
    then obtain c bs where c: "bins = c # bs" "bin_key ?st c < ev_key (?st e)" by (cases bins) auto
    obtain zs c' ys where f: "bins = zs @ c' # ys" "find_bin ?st e (hd c) (nextBin (?st (hd c))) = Some (hd c', head_of ys)"
        "\<forall>b \<in> set (tl (zs @ [c'])). bin_key ?st b < ev_key (?st e)" "\<forall>y \<in> set (take 1 ys). ev_key (?st e) \<le> bin_key ?st y"
      using find_bin_ok [of ?st c bs] seg c(1) by blast
    have lt: "\<forall>b \<in> set (zs @ [c']). bin_key ?st b < ev_key (?st e)" using f(1,3) c by (cases zs) auto
    let ?s1 = "insertBefore ?st e (head_of ys)" and ?s2 = "upd_ev (hd c') (\<lambda>o'. o'\<lparr>nextBin := Some e\<rparr>)"
    have ins: "bins_insert ?st e bins = (zs @ [c']) @ bins_insert ?st e ys" using bins_insert_split [OF lt, of ys] f(1) by simp
    have s: "bins_seg ?st (zs @ [c']) (eq_head q) (head_of ys)" "bins_seg ?st ys (head_of ys) None"
      using bins_seg_join [of ?st "zs @ [c']" ys] seg f(1) by auto
    have c': "hd c' \<in> set c'" using bins_seg_nonempty [OF s(1), of c'] by simp
    have ne: "e \<notin> set (concat (zs @ [c']))" "e \<notin> set (concat ys)" "distinct (concat (zs @ [c']))" "hd c' \<notin> set (concat ys)"
      using assms(2) d f(1) c' by auto
    have "bins_seg (?s2 ?s1) (zs @ [c']) (eq_head q) (Some e)"
      using bins_seg_redirect [OF _ ne(3)] insertBefore_frame [OF ne(1)] s(1) by blast
    moreover have "hd c' \<notin> set (concat (bins_insert ?st e ys))" using ne(1,4) c' bins_insert_set [of ?st e ys] by auto
    then have "bins_seg (?s2 ?s1) (bins_insert ?st e ys) (Some e) None"
      using insertBefore_seg [OF s(2) ne(2) f(4)] by (simp add: bins_seg_upd)
    ultimately have "bins_seg (?s2 ?s1) (bins_insert ?st e bins) (eq_head q) None" unfolding ins bins_seg_append by blast
    moreover have "same_data ?st (?s2 ?s1)" by simp
    moreover have "eq_insert e q = Some (q\<lparr>eq_store := ?s2 ?s1, eq_head := eq_head q\<rparr>)"
      using c f(2) hd by (simp add: eq_insert_def Let_def ev_order bin_key_def)
    ultimately show ?thesis using post keys_ok_same [of ?st "?s2 ?s1"] unfolding bins_of_def by blast
  qed
qed

section \<open>Removal\<close>

lemma find_in_bin_ok:
  assumes "in_bin st (us @ x # e # vs)" and "e \<notin> set us" and "e \<noteq> x"
  shows "find_in_bin st e (hd (us @ [x])) (nextInBin (st (hd (us @ [x])))) = Some (Inr x)"
  using assms
proof (induction us)
  case Nil
  then show ?case by (subst find_in_bin.simps) simp
next
  case (Cons u us)
  let ?n = "hd (us @ [x])"
  have n: "nextInBin (st u) = Some ?n" "in_bin st (us @ x # e # vs)" using Cons.prems(1) by (cases us; simp)+
  have "?n \<noteq> e" using Cons.prems(2,3) by (cases us) auto
  then have "find_in_bin st e u (Some ?n) = find_in_bin st e ?n (nextInBin (st ?n))" by (subst find_in_bin.simps) simp
  then show ?case using Cons.IH [OF n(2)] Cons.prems n(1) by simp
qed

lemma in_bin_unlink:
  assumes "in_bin st (us @ x # e # vs)" and "distinct (us @ x # e # vs)"
  shows "in_bin (upd_ev x (\<lambda>o'. o'\<lparr>nextInBin := nextInBin (st e)\<rparr>) st) (us @ x # vs)"
  using assms
proof (induction us)
  case Nil
  let ?st = "upd_ev x (\<lambda>o'. o'\<lparr>nextInBin := nextInBin (st e)\<rparr>) st"
  have "in_bin ?st vs = in_bin st vs" using Nil.prems(2) by (intro in_bin_frame) (auto simp: upd_ev_def)
  then show ?case using Nil by (cases vs) auto
next
  case (Cons u us)
  then have "in_bin st (us @ x # e # vs)" "u \<noteq> x" by (cases us; simp)+
  then show ?case using Cons by (cases us) auto
qed

lemma in_bin_tl: "in_bin st (x # xs) \<Longrightarrow> in_bin st xs"
  by (cases xs) simp_all

text \<open>What the removal of an event leaves of its bin.\<close>

definition removed_from :: "store \<Rightarrow> store \<Rightarrow> nat list \<Rightarrow> nat list \<Rightarrow> nat option \<Rightarrow> bool" where
  "removed_from st st' c c' top' \<longleftrightarrow>
     same_data st st' \<and> (\<forall>x. x \<notin> set c \<longrightarrow> st' x = st x) \<and>
     (if c' = [] then top' = nextBin (st (hd c))
      else top' = Some (hd c') \<and> in_bin st' c' \<and> nextBin (st' (hd c')) = nextBin (st (hd c)))"

lemma removeItem_ok:
  assumes "in_bin st c" "e \<in> set c" "distinct c"
  shows "\<exists>st' top'. removeItem st e (hd c) = Some (Inr (st', top')) \<and> removed_from st st' c (remove1 e c) top'"
proof (cases "e = hd c")
  case True
  then obtain xs where c: "c = e # xs" using assms(2) by (cases c) auto
  show ?thesis
  proof (cases xs)
    case Nil
    then show ?thesis using assms(1) c by (simp add: removeItem_def removed_from_def)
  next
    case (Cons n ys)
    let ?st = "upd_ev n (\<lambda>o'. o'\<lparr>nextBin := nextBin (st e)\<rparr>) st"
    have "in_bin ?st xs = in_bin st xs" by (rule in_bin_frame) (simp add: upd_ev_def)
    then have "in_bin ?st xs" using assms(1) c in_bin_tl by blast
    then show ?thesis using assms(1) c Cons by (simp add: removeItem_def removed_from_def)
  qed
next
  case False
  obtain ws vs where w: "c = ws @ e # vs" "e \<notin> set ws" using assms(2) by (meson split_list_first)
  then obtain us x where u: "ws = us @ [x]" using False by (cases ws rule: rev_cases) auto
  have c: "c = us @ x # e # vs" using w(1) u by simp
  let ?st = "upd_ev x (\<lambda>o'. o'\<lparr>nextInBin := nextInBin (st e)\<rparr>) st"
  have r: "remove1 e c = us @ x # vs" "hd (us @ x # vs) = hd c" "hd c = hd (us @ [x])"
    using w(2) u c by (auto simp: remove1_append hd_append)
  have "find_in_bin st e (hd c) (nextInBin (st (hd c))) = Some (Inr x)"
    using find_in_bin_ok [of st us x e vs] assms(1) c w(2) u r(3) by simp
  then have "removeItem st e (hd c) = Some (Inr (?st, Some (hd c)))" using False by (simp add: removeItem_def)
  moreover have "in_bin ?st (us @ x # vs)" using in_bin_unlink [of st us x e vs] assms(1,3) c by simp
  moreover have "same_data st ?st" "\<forall>z. z \<notin> set c \<longrightarrow> ?st z = st z" "nextBin (?st z) = nextBin (st z)" for z
    using c by (simp, simp_all add: upd_ev_def)
  ultimately show ?thesis using r unfolding removed_from_def by simp
qed

lemma removed_frame:
  assumes "removed_from st st' c c' top'" "set c \<inter> set (concat bs) = {}"
  shows "bins_seg st' bs h t = bins_seg st bs h t"
proof (rule bins_seg_frame)
  have same: "st' x = st x" if "x \<in> set (concat bs)" for x using assms that unfolding removed_from_def by blast
  show "nextBin (st' (hd b)) = nextBin (st (hd b))" if "b \<in> set bs" "b \<noteq> []" for b
    using same [of "hd b"] that hd_in_set [of b] by fastforce
  show "nextInBin (st' x) = nextInBin (st x)" if "x \<in> set (concat bs)" for x using same [OF that] by simp
qed

lemma removed_seg:
  assumes "removed_from st st' c c' top'" "bins_seg st (c # ys) h t" "set c \<inter> set (concat ys) = {}"
  shows "bins_seg st' (filter (\<lambda>b. b \<noteq> []) [c'] @ ys) top' t"
  using removed_frame [OF assms(1,3)] assms(1,2) by (auto simp: removed_from_def split: if_splits)

lemma keys_ok_replace:
  assumes "keys_ok st (zs @ c # ys)" "set c' \<subseteq> set c"
  shows "keys_ok st (zs @ filter (\<lambda>b. b \<noteq> []) [c'] @ ys)"
proof (cases "c' = []")
  case False
  then have "hd c' \<in> set c" using assms(2) by auto
  then have "bin_key st c' = bin_key st c" using assms(1) by (auto simp: keys_ok_def bin_key_def)
  then show ?thesis using assms False by (auto simp: keys_ok_def sorted_wrt_append)
qed (use assms(1) in \<open>auto simp: keys_ok_def sorted_wrt_append\<close>)

lemma takeWhile_split: "\<forall>x \<in> set xs. P x \<Longrightarrow> \<forall>y \<in> set (take 1 ys). \<not> P y \<Longrightarrow> takeWhile P (xs @ ys) = xs"
  by (cases ys) simp_all

lemma bins_remove_split:
  assumes "distinct (concat (zs @ c # ys))" "e \<in> set c" "\<forall>b \<in> set (zs @ ys). b \<noteq> []"
  shows "bins_remove e (zs @ c # ys) = zs @ filter (\<lambda>b. b \<noteq> []) [remove1 e c] @ ys"
proof -
  have "e \<notin> set b" if "b \<in> set (zs @ ys)" for b using assms(1,2) that by auto
  then have "map (remove1 e) zs = zs" "map (remove1 e) ys = ys" by (auto simp: remove1_idem intro!: map_idI)
  moreover have "filter (\<lambda>b. b \<noteq> []) zs = zs" "filter (\<lambda>b. b \<noteq> []) ys = ys" using assms(3) by (auto intro!: filter_True)
  ultimately show ?thesis by (simp add: bins_remove_def)
qed

lemma concat_nonempty: "concat (filter (\<lambda>b. b \<noteq> []) bs) = concat bs"
  by (induction bs) auto

lemma concat_bins_remove: "concat (bins_remove e bins) = concat (map (remove1 e) bins)"
  by (simp add: bins_remove_def concat_nonempty)

lemma bins_remove_set: "distinct (concat bins) \<Longrightarrow> set (concat (bins_remove e bins)) = set (concat bins) - {e}"
  unfolding concat_bins_remove by (induction bins) auto

lemma bins_remove_distinct: "distinct (concat bins) \<Longrightarrow> distinct (concat (bins_remove e bins))"
proof (induction bins)
  case (Cons b bs)
  then show ?case using bins_remove_set [of bs e] by (auto simp: concat_bins_remove)
qed (simp add: bins_remove_def)

lemma find_bin_event:
  assumes "bins_seg st (zs @ c # ys) h None" "keys_ok st (zs @ c # ys)" "e \<in> set c" "zs \<noteq> []"
  shows "find_bin st e (hd (hd zs)) (nextBin (st (hd (hd zs)))) = Some (hd (last zs), Some (hd c))"
proof -
  obtain z zs' where z: "zs = z # zs'" using assms(4) by (cases zs) auto
  obtain us c' vs where f: "zs @ c # ys = us @ c' # vs" "find_bin st e (hd z) (nextBin (st (hd z))) = Some (hd c', head_of vs)"
      "\<forall>b \<in> set (tl (us @ [c'])). bin_key st b < ev_key (st e)" "\<forall>y \<in> set (take 1 vs). ev_key (st e) \<le> bin_key st y"
    using find_bin_ok [of st z "zs' @ c # ys" h e] assms(1) z by auto
  have k: "ev_key (st e) = bin_key st c" "\<forall>b \<in> set zs. bin_key st b < bin_key st c"
    using assms(2,3) by (auto simp: keys_ok_def sorted_wrt_append)
  let ?P = "\<lambda>b. bin_key st b < ev_key (st e)"
  have "\<forall>b \<in> set (us @ [c']). ?P b" using f(1,3) k z by (cases us) auto
  then have "takeWhile ?P ((us @ [c']) @ vs) = us @ [c']" using f(4) by (intro takeWhile_split) auto
  moreover have "takeWhile ?P (zs @ c # ys) = zs" using k by (intro takeWhile_split) auto
  ultimately have "us @ [c'] = zs" using f(1) by simp
  then have "c' = last zs" "vs = c # ys" using f(1) by auto
  then show ?thesis using f(2) z by simp
qed

lemma eq_remove_refines:
  assumes "bins_of (eq_store q) (eq_head q) bins" "e \<in> set (concat bins)" "ev_queue (eq_store q e) = Some (eq_id q)"
  shows "\<exists>st h. eq_remove e q = Some (Inr (q\<lparr>eq_store := st, eq_head := h\<rparr>)) \<and> same_data (eq_store q) st \<and>
                bins_of st h (bins_remove e bins)"
proof -
  let ?st = "eq_store q"
  have seg: "bins_seg ?st bins (eq_head q) None" and k: "keys_ok ?st bins" and d: "distinct (concat bins)"
    using assms(1) by (simp_all add: bins_of_def)
  obtain c where "c \<in> set bins" "e \<in> set c" using assms(2) by auto
  then obtain zs ys where c: "bins = zs @ c # ys" "e \<in> set c" by (meson split_list)
  have ne: "\<forall>b \<in> set bins. b \<noteq> []" using bins_seg_nonempty [OF seg] by blast
  have s: "bins_seg ?st zs (eq_head q) (Some (hd c))" "bins_seg ?st (c # ys) (Some (hd c)) None"
    using bins_seg_join [of ?st zs "c # ys"] seg c(1) by simp_all
  obtain st' top' where r: "removeItem ?st e (hd c) = Some (Inr (st', top'))" "removed_from ?st st' c (remove1 e c) top'"
    using removeItem_ok [of ?st c e] s(2) d c by auto
  let ?c = "filter (\<lambda>b. b \<noteq> []) [remove1 e c]"
  have disj: "set c \<inter> set (concat ys) = {}" "set c \<inter> set (concat zs) = {}" using d c(1) by auto
  have tail: "bins_seg st' (?c @ ys) top' None"
    using removed_seg [OF r(2) s(2) disj(1)] .
  have rem: "bins_remove e bins = zs @ ?c @ ys" using bins_remove_split [of zs c ys e] d c ne by simp
  have keq: "ev_key (?st e) = bin_key ?st c" using k c by (auto simp: keys_ok_def)
  have sd: "same_data ?st st'" using r(2) by (simp add: removed_from_def)
  have "keys_ok ?st (bins_remove e bins)"
    unfolding rem by (rule keys_ok_replace [OF k [unfolded c(1)] set_remove1_subset])
  then have post: "keys_ok st'' (bins_remove e bins) \<and> distinct (concat (bins_remove e bins))" if "same_data ?st st''" for st''
    using keys_ok_same [OF that] bins_remove_distinct [OF d] by simp
  show ?thesis
  proof (cases zs)
    case Nil
    then have "eq_remove e q = Some (Inr (q\<lparr>eq_store := st', eq_head := top'\<rparr>))"
      using s(1) keq r(1) assms(3) by (simp add: eq_remove_def Let_def ev_order bin_key_def)
    then show ?thesis using tail rem Nil post [OF sd] sd unfolding bins_of_def by auto
  next
    case (Cons z0 zs')
    let ?s = "upd_ev (hd (last zs)) (\<lambda>o'. o'\<lparr>nextBin := top'\<rparr>) st'"
    obtain us z where z: "zs = us @ [z]" using Cons by (metis list.distinct(1) rev_exhaust)
    have "bins_seg st' zs (eq_head q) (Some (hd c))"
      using s(1) removed_frame [OF r(2) disj(2)] by simp
    moreover have "distinct (concat (us @ [z]))" using d c(1) z by auto
    ultimately have front: "bins_seg ?s zs (eq_head q) top'" using bins_seg_redirect [of st' us z] z by simp
    have "hd z \<in> set z" using ne c(1) z by simp
    then have "hd (last zs) \<notin> set (concat (?c @ ys))" using d c(1) z set_remove1_subset [of e c] by auto
    then have "bins_seg ?s (?c @ ys) top' None" by (rule iffD2 [OF bins_seg_upd tail])
    with front have seg': "bins_seg ?s (bins_remove e bins) (eq_head q) None" unfolding rem bins_seg_append by blast
    have "ev_key (?st (hd z0)) < ev_key (?st e)" using k c(1) keq Cons by (simp add: keys_ok_def bin_key_def)
    then have "\<not> ev_eq (?st (hd z0)) (?st e)" by (simp add: ev_order)
    moreover have "eq_head q = Some (hd z0)" "ev_eq (?st (hd c)) (?st e)"
        "find_bin ?st e (hd z0) (nextBin (?st (hd z0))) = Some (hd (last zs), Some (hd c))"
      using s(1) keq Cons find_bin_event [of ?st zs c ys _ e] seg k c by (auto simp: ev_order bin_key_def)
    ultimately have "eq_remove e q = Some (Inr (q\<lparr>eq_store := ?s, eq_head := eq_head q\<rparr>))"
      using r(1) assms(3) by (simp add: eq_remove_def Let_def)
    moreover have "same_data ?st ?s" using sd by simp
    ultimately show ?thesis using seg' post unfolding bins_of_def by blast
  qed
qed

section \<open>The invariant and the operations\<close>

lemma bins_of_frame:
  assumes "\<And>e. e \<in> set (concat bins) \<Longrightarrow> nextBin (st' e) = nextBin (st e) \<and> nextInBin (st' e) = nextInBin (st e) \<and> ev_key (st' e) = ev_key (st e)"
  shows "bins_of st' h bins = bins_of st h bins"
proof (cases "\<forall>b \<in> set bins. b \<noteq> []")
  case True
  have tops: "hd b \<in> set (concat bins)" if "b \<in> set bins" for b using True that hd_in_set by fastforce
  have "bins_seg st' bins h None = bins_seg st bins h None"
    by (rule bins_seg_frame) (use assms tops in auto)
  moreover have bk: "bin_key st' b = bin_key st b" if "b \<in> set bins" for b
    using assms [OF tops [OF that]] by (simp add: bin_key_def)
  moreover have ek: "ev_key (st' e) = ev_key (st e)" if "b \<in> set bins" "e \<in> set b" for b e
    using assms [of e] that by auto
  have "keys_ok st' bins = keys_ok st bins"
    unfolding keys_ok_def by (rule arg_cong2 [of _ _ _ _ "(\<and>)"])
      (use ek bk in \<open>auto elim!: sorted_wrt_mono_rel [rotated]\<close>)
  ultimately show ?thesis by (simp add: bins_of_def)
next
  case False
  then show ?thesis using bins_seg_nonempty unfolding bins_of_def by blast
qed

lemma bins_of_upd: "e \<notin> set (concat bins) \<Longrightarrow> bins_of (upd_ev e f st) h bins = bins_of st h bins"
  by (rule bins_of_frame) (auto simp: upd_ev_def)

lemma bins_of_data:
  "(\<And>o'. nextBin (f o') = nextBin o' \<and> nextInBin (f o') = nextInBin o' \<and> ev_key (f o') = ev_key o') \<Longrightarrow>
   bins_of (upd_ev e f st) h bins = bins_of st h bins"
  by (rule bins_of_frame) (auto simp: upd_ev_def)

text \<open>
  The events in the queue are those that are scheduled on it and not waiting to be inserted by the queue's own
  thread; their time has not passed.
\<close>

definition eq_inv :: "'a event_queue_scheme \<Rightarrow> nat list list \<Rightarrow> bool" where
  "eq_inv q bins \<longleftrightarrow>
     bins_of (eq_store q) (eq_head q) bins \<and>
     (\<forall>e \<in> set (concat bins). ev_scheduled (eq_store q e) \<and> ev_queue (eq_store q e) = Some (eq_id q) \<and>
        eq_curTick q \<le> ev_when (eq_store q e)) \<and>
     (\<forall>e. ev_scheduled (eq_store q e) \<and> ev_queue (eq_store q e) = Some (eq_id q) \<longrightarrow>
        e \<in> set (concat bins) \<union> set (async_queue q))"

text \<open>The same while an event is in the hands of an operation.\<close>

definition eq_inv_but :: "nat \<Rightarrow> 'a event_queue_scheme \<Rightarrow> nat list list \<Rightarrow> bool" where
  "eq_inv_but f q bins \<longleftrightarrow>
     bins_of (eq_store q) (eq_head q) bins \<and>
     (\<forall>e \<in> set (concat bins). ev_scheduled (eq_store q e) \<and> ev_queue (eq_store q e) = Some (eq_id q) \<and>
        eq_curTick q \<le> ev_when (eq_store q e)) \<and>
     (\<forall>e. e \<noteq> f \<and> ev_scheduled (eq_store q e) \<and> ev_queue (eq_store q e) = Some (eq_id q) \<longrightarrow>
        e \<in> set (concat bins) \<union> set (async_queue q))"

lemma eq_inv_weaken: "eq_inv q bins \<Longrightarrow> eq_inv_but f q bins"
  by (auto simp: eq_inv_def eq_inv_but_def)

definition event_of :: "store \<Rightarrow> nat \<Rightarrow> event" where
  "event_of st e = (if ev_scheduled (st e) then Some (ev_when (st e)) else None)"

text \<open>The event is free, or it is scheduled on this queue and not waiting to be inserted.\<close>

definition owned :: "'a event_queue_scheme \<Rightarrow> nat \<Rightarrow> bool" where
  "owned q e \<longleftrightarrow> ev_initialized (eq_store q e) \<and> e \<notin> set (async_queue q) \<and>
     (ev_scheduled (eq_store q e) \<longrightarrow> ev_queue (eq_store q e) = Some (eq_id q))"

lemma set_when_sel [simp]:
  "eq_id (set_when e t q) = eq_id q" "eq_head (set_when e t q) = eq_head q" "eq_curTick (set_when e t q) = eq_curTick q"
  "async_queue (set_when e t q) = async_queue q"
  "eq_store (set_when e t q) = upd_ev e (\<lambda>o'. o'\<lparr>ev_when := t, ev_queue := Some (eq_id q)\<rparr>) (eq_store q)"
  by (simp_all add: set_when_def)

lemma set_flags_sel [simp]:
  "eq_id (set_flags e f q) = eq_id q" "eq_head (set_flags e f q) = eq_head q" "eq_curTick (set_flags e f q) = eq_curTick q"
  "async_queue (set_flags e f q) = async_queue q" "eq_store (set_flags e f q) = upd_ev e f (eq_store q)"
  by (simp_all add: set_flags_def)

text \<open>The end of \<^verbatim>\<open>schedule\<close> and \<^verbatim>\<open>reschedule\<close>: a free event is given a time and inserted.\<close>

lemma insert_free:
  assumes inv: "eq_inv_but e q bins" and free: "e \<notin> set (concat bins)" and t: "eq_curTick q \<le> t"
    and f: "f = (\<lambda>o'. o'\<lparr>ev_scheduled := True\<rparr>) \<or> f = (\<lambda>o'. o'\<lparr>ev_squashed := False, ev_scheduled := True\<rparr>)"
  shows "\<exists>q1. eq_insert e (set_when e t q) = Some q1 \<and> eq_inv (set_flags e f q1) (bins_insert (eq_store (set_flags e f q1)) e bins) \<and>
           event_of (eq_store (set_flags e f q1)) = (event_of (eq_store q))(e := Some t) \<and> eq_curTick q1 = eq_curTick q"
proof -
  let ?q = "set_when e t q"
  have b: "bins_of (eq_store ?q) (eq_head ?q) bins" using inv free by (simp add: eq_inv_but_def bins_of_upd)
  obtain st h where i: "eq_insert e ?q = Some (?q\<lparr>eq_store := st, eq_head := h\<rparr>)" "same_data (eq_store ?q) st"
      "bins_of st h (bins_insert (eq_store ?q) e bins)"
    using eq_insert_refines [OF b free] by blast
  let ?q1 = "?q\<lparr>eq_store := st, eq_head := h\<rparr>"
  have fk: "nextBin (f o') = nextBin o' \<and> nextInBin (f o') = nextInBin o' \<and> ev_key (f o') = ev_key o'"
    "ev_when (f o') = ev_when o'" "ev_queue (f o') = ev_queue o'" "ev_scheduled (f o')" for o'
    using f by (auto simp: ev_key_def)
  have k: "ev_key (upd_ev e f st x) = ev_key (eq_store ?q x)" for x
    using same_data_sel(10) [OF i(2), of x] fk(1) by (cases "x = e") (simp_all add: upd_ev_def)
  have "bins_insert (upd_ev e f st) e bins = bins_insert (eq_store ?q) e bins" by (rule bins_insert_cong) (rule k)
  then have rep: "bins_of (upd_ev e f st) h (bins_insert (upd_ev e f st) e bins)"
    using i(3) bins_of_data [OF fk(1)] by simp
  have same: "ev_scheduled (st x) = ev_scheduled (eq_store q x)" "ev_when (st x) = (if x = e then t else ev_when (eq_store q x))"
    "ev_queue (st x) = (if x = e then Some (eq_id q) else ev_queue (eq_store q x))" for x
    using same_data_sel(1,4,9) [OF i(2), of x] by (simp_all add: upd_ev_def split: if_splits)
  have "eq_inv (set_flags e f ?q1) (bins_insert (eq_store (set_flags e f ?q1)) e bins)"
    using inv rep t bins_insert_set [of "upd_ev e f st" e bins] fk same unfolding eq_inv_def eq_inv_but_def
    by (auto simp: upd_ev_def simp del: set_concat)
  moreover have "event_of (eq_store (set_flags e f ?q1)) = (event_of (eq_store q))(e := Some t)"
    using fk same by (auto simp: event_of_def upd_ev_def fun_eq_iff)
  ultimately show ?thesis using i(1) by auto
qed

text \<open>The removal of a scheduled event.\<close>

lemma remove_queued:
  assumes "eq_inv q bins" and "e \<in> set (concat bins)"
  shows "\<exists>q1. eq_remove e q = Some (Inr q1) \<and> eq_inv_but e q1 (bins_remove e bins) \<and> same_data (eq_store q) (eq_store q1) \<and>
           eq_curTick q1 = eq_curTick q \<and> async_queue q1 = async_queue q \<and> eq_id q1 = eq_id q \<and>
           e \<notin> set (concat (bins_remove e bins))"
proof -
  have "bins_of (eq_store q) (eq_head q) bins" "ev_queue (eq_store q e) = Some (eq_id q)" and d: "distinct (concat bins)"
    using assms by (auto simp: eq_inv_def bins_of_def)
  then obtain st h where r: "eq_remove e q = Some (Inr (q\<lparr>eq_store := st, eq_head := h\<rparr>))" "same_data (eq_store q) st"
      "bins_of st h (bins_remove e bins)"
    using eq_remove_refines [OF _ assms(2)] by blast
  note sd = same_data_sel(1,4,9) [OF r(2)]
  have "eq_inv_but e (q\<lparr>eq_store := st, eq_head := h\<rparr>) (bins_remove e bins)"
    using assms(1) r(3) bins_remove_set [OF d, of e] sd unfolding eq_inv_def eq_inv_but_def
    by (auto simp del: set_concat)
  then show ?thesis using r bins_remove_set [OF d, of e] by auto
qed

text \<open>The flags of an event that is not in the queue.\<close>

lemma clear_flags:
  assumes "eq_inv_but e q bins" and "e \<notin> set (concat bins)" and "\<And>o'. \<not> ev_scheduled (f o')"
  shows "eq_inv (set_flags e f q) bins"
proof -
  have "bins_of (upd_ev e f (eq_store q)) (eq_head q) bins" using assms(1,2) by (simp add: eq_inv_but_def bins_of_upd)
  then show ?thesis
    using assms unfolding eq_inv_def eq_inv_but_def by (auto simp: upd_ev_def simp del: set_concat split: if_splits)
qed

lemma queued_event:
  assumes "eq_inv q bins" and "owned q e"
  shows "ev_scheduled (eq_store q e) \<longleftrightarrow> e \<in> set (concat bins)"
  using assms by (auto simp: eq_inv_def owned_def)

lemma event_of_same: "same_data st st' \<Longrightarrow> event_of st' = event_of st"
  by (simp add: event_of_def fun_eq_iff same_data_sel)

lemma schedule_refines:
  assumes "eq_inv q bins" and "owned q e"
  shows "case ev_schedule (eq_curTick q) (event_of (eq_store q) e) t of
           Inl err \<Rightarrow> eq_schedule False e t q = Some (Inl err)
         | Inr w \<Rightarrow> \<exists>q'. eq_schedule False e t q = Some (Inr q') \<and> eq_inv q' (bins_insert (eq_store q') e bins) \<and>
             event_of (eq_store q') = (event_of (eq_store q))(e := w) \<and> eq_curTick q' = eq_curTick q"
proof (cases "eq_curTick q \<le> t \<and> \<not> ev_scheduled (eq_store q e)")
  case True
  then have "e \<notin> set (concat bins)" using queued_event [OF assms] by simp
  then obtain q1 where "eq_insert e (set_when e t q) = Some q1"
      "let q' = set_flags e (\<lambda>o'. o'\<lparr>ev_scheduled := True\<rparr>) q1 in eq_inv q' (bins_insert (eq_store q') e bins) \<and>
         event_of (eq_store q') = (event_of (eq_store q))(e := Some t) \<and> eq_curTick q' = eq_curTick q"
    using insert_free [OF eq_inv_weaken [OF assms(1)], of e t] True by (auto simp: Let_def)
  then show ?thesis
    using True assms(2) by (simp add: ev_schedule_def event_of_def eq_schedule_def owned_def Let_def)
qed (auto simp: ev_schedule_def event_of_def eq_schedule_def assertE_def)

lemma deschedule_refines:
  assumes "eq_inv q bins" and "owned q e"
  shows "case ev_deschedule (event_of (eq_store q) e) of
           Inl err \<Rightarrow> eq_deschedule True e q = Some (Inl err)
         | Inr w \<Rightarrow> \<exists>q'. eq_deschedule True e q = Some (Inr q') \<and> eq_inv q' (bins_remove e bins) \<and>
             event_of (eq_store q') = (event_of (eq_store q))(e := w) \<and> eq_curTick q' = eq_curTick q"
proof (cases "ev_scheduled (eq_store q e)")
  case True
  then obtain q1 where r: "eq_remove e q = Some (Inr q1)" "eq_inv_but e q1 (bins_remove e bins)" "same_data (eq_store q) (eq_store q1)"
      "eq_curTick q1 = eq_curTick q" "e \<notin> set (concat (bins_remove e bins))"
    using remove_queued [OF assms(1)] queued_event [OF assms] by blast
  let ?f = "\<lambda>o'. o'\<lparr>ev_squashed := False, ev_scheduled := False\<rparr>"
  let ?g = "\<lambda>o'. o'\<lparr>ev_squashed := False, ev_scheduled := False, ev_autoDelete := False, ev_autoSerialize := False,
               ev_isExit := False, ev_isMain := False, ev_initialized := False\<rparr>"
  have q2: "set_flags e ?g (set_flags e ?f q1) = set_flags e ?g q1" by (simp add: set_flags_def upd_ev_def)
  have "event_of (upd_ev e f (eq_store q1)) = (event_of (eq_store q))(e := None)" if "\<And>o'. \<not> ev_scheduled (f o')" for f
    using that same_data_sel(1,4) [OF r(3)] by (auto simp: event_of_def upd_ev_def fun_eq_iff)
  then have e: "eq_inv (set_flags e f q1) (bins_remove e bins) \<and> event_of (eq_store (set_flags e f q1)) = (event_of (eq_store q))(e := None)"
    if "\<And>o'. \<not> ev_scheduled (f o')" for f
    using clear_flags [OF r(2,5) that] that by simp
  have "eq_deschedule True e q = Some (Inr (if ev_autoDelete (eq_store q1 e) then set_flags e ?g q1 else set_flags e ?f q1))"
    using True assms(2) r(1) q2 by (simp add: eq_deschedule_def owned_def delete_event_def Let_def)
  then show ?thesis using True e [of ?f] e [of ?g] r(4) by (simp add: ev_deschedule_def event_of_def)
qed (simp add: ev_deschedule_def event_of_def eq_deschedule_def)

definition unqueued :: "store \<Rightarrow> nat \<Rightarrow> nat list list \<Rightarrow> nat list list" where
  "unqueued st e bins = (if ev_scheduled (st e) then bins_remove e bins else bins)"

lemma reschedule_refines:
  assumes "eq_inv q bins" and "owned q e"
  shows "case ev_reschedule (eq_curTick q) (event_of (eq_store q) e) t always of
           Inl err \<Rightarrow> eq_reschedule True e t always q = Some (Inl err)
         | Inr w \<Rightarrow> \<exists>q'. eq_reschedule True e t always q = Some (Inr q') \<and>
             eq_inv q' (bins_insert (eq_store q') e (unqueued (eq_store q) e bins)) \<and>
             event_of (eq_store q') = (event_of (eq_store q))(e := w) \<and> eq_curTick q' = eq_curTick q"
proof (cases "eq_curTick q \<le> t \<and> (always \<or> ev_scheduled (eq_store q e))")
  case True
  let ?bins = "unqueued (eq_store q) e bins"
  obtain q1 where r: "(if ev_scheduled (eq_store q e) then eq_remove e q else Some (Inr q)) = Some (Inr q1)"
      "eq_inv_but e q1 ?bins" "same_data (eq_store q) (eq_store q1)" "eq_curTick q1 = eq_curTick q" "e \<notin> set (concat ?bins)"
  proof (cases "ev_scheduled (eq_store q e)")
    case True
    then show thesis using that remove_queued [OF assms(1)] queued_event [OF assms] by (auto simp: unqueued_def simp del: set_concat)
  next
    case False
    then show thesis
      using that [of q] queued_event [OF assms] eq_inv_weaken [OF assms(1)] by (simp add: unqueued_def del: set_concat)
  qed
  obtain q2 where "eq_insert e (set_when e t q1) = Some q2"
      "let q' = set_flags e (\<lambda>o'. o'\<lparr>ev_squashed := False, ev_scheduled := True\<rparr>) q2 in eq_inv q' (bins_insert (eq_store q') e ?bins) \<and>
         event_of (eq_store q') = (event_of (eq_store q))(e := Some t) \<and> eq_curTick q' = eq_curTick q"
    using insert_free [OF r(2,5), of t] True r(4) event_of_same [OF r(3)] by (auto simp: Let_def)
  moreover from this(1) have "eq_reschedule True e t always q =
      Some (Inr (set_flags e (\<lambda>o'. o'\<lparr>ev_squashed := False, ev_scheduled := True\<rparr>) q2))"
    unfolding eq_reschedule_def r(1) using True assms(2) by (simp add: owned_def)
  moreover have "ev_reschedule (eq_curTick q) (event_of (eq_store q) e) t always = Inr (Some t)"
    using True by (auto simp: ev_reschedule_def event_of_def)
  ultimately show ?thesis by (simp add: Let_def)
qed (auto simp: ev_reschedule_def event_of_def eq_reschedule_def assertE_def)

text \<open>The events of other threads are inserted in the order in which they came.\<close>

lemma insert_async_refines:
  "bins_of (eq_store q) (eq_head q) bins \<Longrightarrow> distinct es \<Longrightarrow> set es \<inter> set (concat bins) = {} \<Longrightarrow>
   \<exists>q'. insert_async es q = Some q' \<and> bins_of (eq_store q') (eq_head q') (fold (bins_insert (eq_store q)) es bins) \<and>
     same_data (eq_store q) (eq_store q') \<and> async_queue q' = [] \<and> eq_curTick q' = eq_curTick q"
proof (induction es arbitrary: q bins)
  case (Cons e es)
  obtain st h where i: "eq_insert e q = Some (q\<lparr>eq_store := st, eq_head := h\<rparr>)" "same_data (eq_store q) st"
      "bins_of st h (bins_insert (eq_store q) e bins)"
    using eq_insert_refines [OF Cons.prems(1), of e] Cons.prems(3) by auto
  let ?q = "q\<lparr>eq_store := st, eq_head := h\<rparr>"
  have "bins_insert st = bins_insert (eq_store q)"
    using bins_insert_cong [of st "eq_store q"] same_data_sel(10) [OF i(2)] by blast
  moreover have "set es \<inter> set (concat (bins_insert (eq_store q) e bins)) = {}"
    using Cons.prems(2,3) by (auto simp: bins_insert_set simp del: set_concat)
  ultimately obtain q' where "insert_async es ?q = Some q'" "same_data st (eq_store q')" "async_queue q' = []"
      "eq_curTick q' = eq_curTick q" "bins_of (eq_store q') (eq_head q') (fold (bins_insert (eq_store q)) es (bins_insert (eq_store q) e bins))"
    using Cons.IH [of ?q "bins_insert (eq_store q) e bins"] i(3) Cons.prems(2) by auto
  then show ?case using i(1) same_data_trans [OF i(2)] by (simp add: exI [of _ q'])
qed simp

section \<open>Service\<close>

text \<open>Taking the first event off is its removal.\<close>

lemma service_pop_remove:
  assumes "eq_head q = Some e" and "ev_queue (eq_store q e) = Some (eq_id q)"
  shows "eq_remove e (set_flags e (\<lambda>o'. o'\<lparr>ev_scheduled := False\<rparr>) q) = Some (Inr (service_pop e q))"
  using assms
  by (simp add: eq_remove_def service_pop_def removeItem_def Let_def ev_order set_flags_def split: option.split)

lemma first_event:
  assumes "eq_inv q bins" and "eq_head q = Some e"
  shows "e \<in> set (concat bins)" "hd (concat bins) = e" "concat (bins_remove e bins) = tl (concat bins)"
    "\<And>x. x \<in> set (concat bins) \<Longrightarrow> ev_key (eq_store q e) \<le> ev_key (eq_store q x)"
proof -
  have b: "bins_seg (eq_store q) bins (eq_head q) None" "keys_ok (eq_store q) bins" "distinct (concat bins)"
    using assms(1) by (simp_all add: eq_inv_def bins_of_def)
  then obtain c bs where c: "bins = c # bs" "c \<noteq> []" "hd c = e" using assms(2) by (cases bins) auto
  then obtain r where r: "c = e # r" by (cases c) auto
  show "e \<in> set (concat bins)" "hd (concat bins) = e" by (simp_all add: c(1) r)
  have "map (remove1 e) bs = bs" using b(3) by (auto simp: c(1) r remove1_idem intro!: map_idI)
  then show "concat (bins_remove e bins) = tl (concat bins)" by (simp add: concat_bins_remove c(1) r)
  have k: "ev_key (eq_store q x) = bin_key (eq_store q) y" if "y \<in> set bins" "x \<in> set y" for x y
    using b(2) that by (simp add: keys_ok_def)
  show "ev_key (eq_store q e) \<le> ev_key (eq_store q x)" if mem: "x \<in> set (concat bins)" for x
  proof -
    obtain y where y: "y \<in> set bins" "x \<in> set y" using mem by auto
    have "y = c \<or> bin_key (eq_store q) c < bin_key (eq_store q) y" using b(2) y(1) by (auto simp: keys_ok_def c(1))
    then show ?thesis using k [OF y] k [of c e] by (auto simp: c(1) r)
  qed
qed

lemma service_pop_inv:
  assumes inv: "eq_inv q bins" and h: "eq_head q = Some e" and t: "t = eq_curTick q \<or> t = ev_when (eq_store q e)"
  shows "eq_inv ((service_pop e q)\<lparr>eq_curTick := t\<rparr>) (bins_remove e bins)"
    and "\<And>x. x \<noteq> e \<Longrightarrow> event_of (eq_store (service_pop e q)) x = event_of (eq_store q) x"
    and "\<exists>st. same_data (upd_ev e (\<lambda>o'. o'\<lparr>ev_scheduled := False\<rparr>) (eq_store q)) st \<and> service_pop e q = q\<lparr>eq_store := st, eq_head := eq_head (service_pop e q)\<rparr>"
proof -
  let ?q = "set_flags e (\<lambda>o'. o'\<lparr>ev_scheduled := False\<rparr>) q"
  note fe = first_event [OF inv h]
  have own: "ev_queue (eq_store q e) = Some (eq_id q)" using inv fe(1) by (auto simp: eq_inv_def)
  have b0: "bins_of (eq_store q) (eq_head q) bins" and d: "distinct (concat bins)"
    using inv by (simp_all add: eq_inv_def bins_of_def)
  then have b: "bins_of (eq_store ?q) (eq_head ?q) bins"
    using bins_of_data [of "\<lambda>o'. o'\<lparr>ev_scheduled := False\<rparr>"] by (simp add: ev_key_def)
  obtain st h' where r: "service_pop e q = ?q\<lparr>eq_store := st, eq_head := h'\<rparr>" "same_data (eq_store ?q) st"
      "bins_of st h' (bins_remove e bins)"
    using eq_remove_refines [OF b fe(1)] own service_pop_remove [OF h own] by auto
  note sd = same_data_sel(1,4,9) [OF r(2)]
  have "t \<le> ev_when (eq_store q x)" if "x \<in> set (concat bins)" for x
    using t fe(4) [OF that] inv that by (auto simp: eq_inv_def ev_key_def less_eq_prod_def simp del: set_concat)
  then show "eq_inv ((service_pop e q)\<lparr>eq_curTick := t\<rparr>) (bins_remove e bins)"
    using inv r bins_remove_set [OF d, of e] sd unfolding eq_inv_def
    by (auto simp: upd_ev_def simp del: set_concat split: if_splits)
  show "event_of (eq_store (service_pop e q)) x = event_of (eq_store q) x" if "x \<noteq> e" for x
    using that sd by (simp add: r(1) event_of_def)
  show "\<exists>st. same_data (upd_ev e (\<lambda>o'. o'\<lparr>ev_scheduled := False\<rparr>) (eq_store q)) st \<and>
      service_pop e q = q\<lparr>eq_store := st, eq_head := eq_head (service_pop e q)\<rparr>"
    using r(1,2) by (auto simp: set_flags_def)
qed

text \<open>The end of \<^verbatim>\<open>serviceOne\<close>: an event that is not scheduled again may be deleted.\<close>

lemma auto_delete_inv:
  assumes "eq_inv q bins"
  shows "\<exists>q'. auto_delete e q = Inr q' \<and> eq_inv q' bins \<and> eq_curTick q' = eq_curTick q \<and>
           (\<forall>x. x \<noteq> e \<longrightarrow> eq_store q' x = eq_store q x) \<and> event_queue.more q' = event_queue.more q \<and>
           (ev_isMain (eq_store q' e) \<longrightarrow> ev_isMain (eq_store q e))"
proof (cases "ev_autoDelete (eq_store q e) \<and> \<not> ev_scheduled (eq_store q e)")
  case True
  then have "e \<notin> set (concat bins)" using assms(1) by (auto simp: eq_inv_def)
  from clear_flags [OF eq_inv_weaken [OF assms(1)] this] True show ?thesis
    by (simp add: auto_delete_def delete_event_def) (simp add: set_flags_def)
next
  case False
  then have "auto_delete e q = Inr q" by (auto simp: auto_delete_def)
  then show ?thesis using assms(1) by simp
qed

text \<open>
  A run of the queue in one thread: the operations, and the service of the first event, whose handler is itself
  a run from the state with the event taken off and the time set.
\<close>

inductive eq_run :: "event_queue \<Rightarrow> event_queue \<Rightarrow> bool" where
  run_start: "eq_run q q"
| run_schedule: "eq_run q q1 \<Longrightarrow> owned q1 e \<Longrightarrow> eq_schedule False e t q1 = Some (Inr q2) \<Longrightarrow> eq_run q q2"
| run_deschedule: "eq_run q q1 \<Longrightarrow> owned q1 e \<Longrightarrow> eq_deschedule True e q1 = Some (Inr q2) \<Longrightarrow> eq_run q q2"
| run_reschedule: "eq_run q q1 \<Longrightarrow> owned q1 e \<Longrightarrow> eq_reschedule True e t always q1 = Some (Inr q2) \<Longrightarrow> eq_run q q2"
| run_squash: "eq_run q q1 \<Longrightarrow> eq_run q (set_flags e (\<lambda>o'. o'\<lparr>ev_squashed := True\<rparr>) q1)"
| run_service: "eq_run q q1 \<Longrightarrow> eq_head q1 = Some e \<Longrightarrow>
    eq_run ((service_pop e q1)\<lparr>eq_curTick := ev_when (eq_store q1 e)\<rparr>) q2 \<Longrightarrow>
    serviceOne (\<lambda>_ _. Inr q2) q1 = Inr (q3, r) \<Longrightarrow> eq_run q q3"

lemma set_flags_inv:
  assumes "eq_inv q bins"
    and "\<And>o'. nextBin (f o') = nextBin o'" "\<And>o'. nextInBin (f o') = nextInBin o'" "\<And>o'. ev_key (f o') = ev_key o'"
      "\<And>o'. ev_scheduled (f o') = ev_scheduled o'" "\<And>o'. ev_queue (f o') = ev_queue o'"
  shows "eq_inv (set_flags e f q) bins"
proof -
  have "bins_of (upd_ev e f (eq_store q)) (eq_head q) bins = bins_of (eq_store q) (eq_head q) bins"
    by (rule bins_of_data) (simp add: assms)
  moreover have "ev_when (f o') = ev_when o'" for o' using assms(4) [of o'] by (simp add: ev_key_def)
  ultimately show ?thesis
    using assms unfolding eq_inv_def by (simp add: upd_ev_def del: set_concat)
qed

lemma serviceOne_inv:
  assumes inv: "eq_inv q bins" and h: "eq_head q = Some e" and s: "serviceOne (\<lambda>_ _. Inr q2) q = Inr (q3, r)"
    and q2: "eq_inv q2 bins2" "ev_when (eq_store q e) \<le> eq_curTick q2"
  shows "\<exists>bins'. eq_inv q3 bins' \<and> eq_curTick q \<le> eq_curTick q3"
proof (cases "ev_squashed (eq_store (service_pop e q) e)")
  case True
  let ?q = "set_flags e (\<lambda>o'. o'\<lparr>ev_squashed := False\<rparr>) (service_pop e q)"
  have "eq_curTick (service_pop e q) = eq_curTick q" by (simp add: service_pop_def Let_def split: option.split)
  moreover from this have "eq_inv (service_pop e q) (bins_remove e bins)"
    using service_pop_inv(1) [OF inv h, of "eq_curTick q"] by (simp add: eq_inv_def)
  ultimately have i: "eq_inv ?q (bins_remove e bins)" "eq_curTick ?q = eq_curTick q"
    by (auto intro!: set_flags_inv simp: ev_key_def)
  from True s h have "auto_delete e ?q = Inr q3" by (auto simp: serviceOne_def Let_def bindE_eq_Inr)
  then show ?thesis using auto_delete_inv [OF i(1), of e] i(2) by auto
next
  case False
  have t: "eq_curTick q \<le> eq_curTick q2" using inv first_event(1) [OF inv h] q2(2) by (force simp: eq_inv_def)
  show ?thesis
  proof (cases "ev_isExit (eq_store q2 e)")
    case True
    then have "q3 = q2" using False s h by (auto simp: serviceOne_def Let_def assertE_def split: if_splits)
    then show ?thesis using q2 t by auto
  next
    case nx: False
    from nx False s h have "auto_delete e q2 = Inr q3" by (auto simp: serviceOne_def Let_def bindE_eq_Inr)
    then show ?thesis using auto_delete_inv [OF q2(1), of e] t by auto
  qed
qed

lemma eq_run_inv: "eq_run q q' \<Longrightarrow> eq_inv q bins \<Longrightarrow> \<exists>bins'. eq_inv q' bins' \<and> eq_curTick q \<le> eq_curTick q'"
proof (induction arbitrary: bins rule: eq_run.induct)
  case (run_start q)
  then show ?case by blast
next
  case (run_schedule q q1 e t q2)
  then obtain b where b: "eq_inv q1 b" "eq_curTick q \<le> eq_curTick q1" by blast
  then show ?case
    using schedule_refines [OF b(1) run_schedule.hyps(2), of t] run_schedule.hyps(3) by (auto split: sum.splits)
next
  case (run_deschedule q q1 e q2)
  then obtain b where b: "eq_inv q1 b" "eq_curTick q \<le> eq_curTick q1" by blast
  then show ?case
    using deschedule_refines [OF b(1) run_deschedule.hyps(2)] run_deschedule.hyps(3) by (auto split: sum.splits)
next
  case (run_reschedule q q1 e t always q2)
  then obtain b where b: "eq_inv q1 b" "eq_curTick q \<le> eq_curTick q1" by blast
  then show ?case
    using reschedule_refines [OF b(1) run_reschedule.hyps(2), of t always] run_reschedule.hyps(3) by (auto split: sum.splits)
next
  case (run_squash q q1 e)
  then obtain b where "eq_inv q1 b" "eq_curTick q \<le> eq_curTick q1" by blast
  then show ?case using set_flags_inv [of q1 b "\<lambda>o'. o'\<lparr>ev_squashed := True\<rparr>"] by (force simp: ev_key_def)
next
  case (run_service q q1 e q2 q3 r)
  then obtain b where b: "eq_inv q1 b" "eq_curTick q \<le> eq_curTick q1" by blast
  from run_service.IH(2) [OF service_pop_inv(1) [OF b(1) run_service.hyps(2)]]
  obtain b2 where "eq_inv q2 b2" "ev_when (eq_store q1 e) \<le> eq_curTick q2" by auto
  from serviceOne_inv [OF b(1) run_service.hyps(2,4) this] b(2) show ?case by auto
qed

text \<open>A handler that notes the events it is called for, in an extension of the queue.\<close>

record logged_queue = event_queue +
  served :: "nat list"

definition log_process :: "nat \<Rightarrow> logged_queue \<Rightarrow> logged_queue res" where
  "log_process e q = Inr (q\<lparr>served := served q @ [e]\<rparr>)"

definition deletable :: "store \<Rightarrow> nat \<Rightarrow> bool" where
  "deletable st e \<longleftrightarrow> \<not> (ev_autoDelete (st e) \<and> ev_isMain (st e))"

lemma eq_inv_served [simp]: "eq_inv (q\<lparr>served := l\<rparr>) bins = eq_inv q bins"
  by (simp add: eq_inv_def)

lemma served_auto_delete: "auto_delete e (q :: logged_queue) = Inr q' \<Longrightarrow> served q' = served q"
  by (auto simp: auto_delete_def delete_event_def set_flags_def assertE_def split: if_splits)

lemma service_pop_data:
  assumes "eq_inv q bins" and "eq_head q = Some e"
  shows "same_data (upd_ev e (\<lambda>o'. o'\<lparr>ev_scheduled := False\<rparr>) (eq_store q)) (eq_store (service_pop e q))"
    "eq_curTick (service_pop e q) = eq_curTick q"
proof -
  from service_pop_inv(3) [OF assms refl [THEN disjI1]] obtain st where
    "same_data (upd_ev e (\<lambda>o'. o'\<lparr>ev_scheduled := False\<rparr>) (eq_store q)) st"
    "service_pop e q = q\<lparr>eq_store := st, eq_head := eq_head (service_pop e q)\<rparr>" by blast
  then show "same_data (upd_ev e (\<lambda>o'. o'\<lparr>ev_scheduled := False\<rparr>) (eq_store q)) (eq_store (service_pop e q))"
    "eq_curTick (service_pop e q) = eq_curTick q"
    by (metis event_queue.select_convs(5) event_queue.surjective event_queue.update_convs(2,5))
      (simp add: service_pop_def Let_def split: option.split)
qed

lemma service_pop_served: "served (service_pop e q) = served q"
  by (simp add: service_pop_def Let_def split: option.split)

text \<open>One event is served: the queue loses its first event, the log has it unless it was squashed.\<close>

lemma serve_first:
  assumes inv: "eq_inv q bins" and h: "eq_head q = Some e" and d: "deletable (eq_store q) e"
  shows "\<exists>q' r. serviceOne log_process q = Inr (q', r) \<and> eq_inv q' (bins_remove e bins) \<and>
           served q' = served q @ (if ev_squashed (eq_store q e) then [] else [e]) \<and>
           (\<forall>x. x \<noteq> e \<longrightarrow> (eq_store q' x)\<lparr>nextBin := None, nextInBin := None\<rparr> = (eq_store q x)\<lparr>nextBin := None, nextInBin := None\<rparr>)"
proof -
  let ?p = "service_pop e q"
  note sd = service_pop_data(1) [OF inv h]
  have same: "(eq_store ?p x)\<lparr>nextBin := None, nextInBin := None\<rparr> = (eq_store q x)\<lparr>nextBin := None, nextInBin := None\<rparr>" if "x \<noteq> e" for x
    using sd that by (simp add: same_data_def)
  have e: "ev_squashed (eq_store ?p e) = ev_squashed (eq_store q e)" "ev_when (eq_store ?p e) = ev_when (eq_store q e)"
    "ev_isMain (eq_store ?p e) = ev_isMain (eq_store q e)" "ev_autoDelete (eq_store ?p e) = ev_autoDelete (eq_store q e)"
    using same_data_sel(1,3,5,7) [OF sd, of e] by simp_all
  show ?thesis
  proof (cases "ev_squashed (eq_store q e)")
    case True
    let ?q = "set_flags e (\<lambda>o'. o'\<lparr>ev_squashed := False\<rparr>) ?p"
    have "eq_inv ?p (bins_remove e bins)"
      using service_pop_inv(1) [OF inv h, of "eq_curTick q"] service_pop_data(2) [OF inv h] by (simp add: eq_inv_def)
    then have i: "eq_inv ?q (bins_remove e bins)" by (auto intro!: set_flags_inv simp: ev_key_def)
    have "served ?q = served q" by (simp add: set_flags_def service_pop_served)
    then show ?thesis
      using True h e auto_delete_inv [OF i, of e] same served_auto_delete [of e ?q] by (auto simp: serviceOne_def Let_def)
  next
    case False
    let ?q = "?p\<lparr>eq_curTick := ev_when (eq_store ?p e), served := served q @ [e]\<rparr>"
    have i: "eq_inv ?q (bins_remove e bins)" using service_pop_inv(1) [OF inv h, of "ev_when (eq_store q e)"] e by simp
    have s: "serviceOne log_process q = (if ev_isExit (eq_store ?p e) then Inr (?q, Some e) else bindE (auto_delete e ?q) (\<lambda>q3. Inr (q3, None)))"
      using False h e d by (simp add: serviceOne_def Let_def log_process_def deletable_def service_pop_served)
    show ?thesis
    proof (cases "ev_isExit (eq_store ?p e)")
      case True
      then show ?thesis using s i same False by auto
    next
      case nx: False
      then show ?thesis using s auto_delete_inv [OF i, of e] same False served_auto_delete [of e ?q] by auto
    qed
  qed
qed

lemma service_loop_unfold:
  "service_loop process t q =
     (case eq_head q of
        None \<Rightarrow> Some (Inr q)
      | Some e \<Rightarrow> if ev_when (eq_store q e) > t then Some (Inr q)
                  else (case serviceOne process q of Inl err \<Rightarrow> Some (Inl err) | Inr r \<Rightarrow> service_loop process t (fst r)))"
  by (subst service_loop.simps) (simp split: option.split)

lemma bins_empty: "eq_inv q bins \<Longrightarrow> eq_head q = None \<Longrightarrow> bins = []"
  by (cases bins) (auto simp: eq_inv_def bins_of_def)

definition due :: "tick \<Rightarrow> store \<Rightarrow> nat \<Rightarrow> bool" where
  "due t st e \<longleftrightarrow> ev_when (st e) \<le> t \<and> \<not> ev_squashed (st e)"

lemma data_sel:
  "o1\<lparr>nextBin := None, nextInBin := None\<rparr> = (o2 :: event_obj)\<lparr>nextBin := None, nextInBin := None\<rparr> \<Longrightarrow>
   ev_when o1 = ev_when o2 \<and> ev_squashed o1 = ev_squashed o2 \<and> ev_autoDelete o1 = ev_autoDelete o2 \<and> ev_isMain o1 = ev_isMain o2"
  by (cases o1, cases o2) simp

lemma serve_first_rest:
  assumes "eq_inv q bins" and "eq_head q = Some e" and "\<forall>e \<in> set (concat bins). deletable (eq_store q) e"
    and es: "concat bins = e # es"
  shows "\<exists>q' r. serviceOne log_process q = Inr (q', r) \<and> eq_inv q' (bins_remove e bins) \<and>
           served q' = served q @ (if ev_squashed (eq_store q e) then [] else [e]) \<and>
           (\<forall>x \<in> set es. deletable (eq_store q') x) \<and> filter (due t (eq_store q')) es = filter (due t (eq_store q)) es \<and>
           filter (\<lambda>e. t < ev_when (eq_store q' e)) es = filter (\<lambda>e. t < ev_when (eq_store q e)) es"
proof -
  obtain q1 r where s: "serviceOne log_process q = Inr (q1, r)" "eq_inv q1 (bins_remove e bins)"
      "served q1 = served q @ (if ev_squashed (eq_store q e) then [] else [e])"
      and d: "\<And>x. x \<noteq> e \<Longrightarrow> (eq_store q1 x)\<lparr>nextBin := None, nextInBin := None\<rparr> = (eq_store q x)\<lparr>nextBin := None, nextInBin := None\<rparr>"
    using serve_first [OF assms(1,2)] assms(3) first_event(1) [OF assms(1,2)] by blast
  have "e \<notin> set es" using assms(1) es by (auto simp: eq_inv_def bins_of_def)
  then have sel: "ev_when (eq_store q1 x) = ev_when (eq_store q x) \<and> ev_squashed (eq_store q1 x) = ev_squashed (eq_store q x) \<and>
      deletable (eq_store q1) x = deletable (eq_store q) x" if "x \<in> set es" for x
    using data_sel [OF d, of x] that unfolding deletable_def by metis
  then have "filter (due t (eq_store q1)) es = filter (due t (eq_store q)) es"
    "filter (\<lambda>e. t < ev_when (eq_store q1 e)) es = filter (\<lambda>e. t < ev_when (eq_store q e)) es"
    by (auto intro!: filter_cong simp: due_def)
  moreover have "\<forall>x \<in> set es. deletable (eq_store q1) x" using sel assms(3) es by (simp del: set_concat)
  ultimately show ?thesis using s by blast
qed

lemma service_loop_all:
  "eq_inv q bins \<Longrightarrow> \<forall>e \<in> set (concat bins). deletable (eq_store q) e \<Longrightarrow>
   \<exists>q' bins'. service_loop log_process t q = Some (Inr q') \<and> eq_inv q' bins' \<and>
     concat bins' = filter (\<lambda>e. t < ev_when (eq_store q e)) (concat bins) \<and>
     (\<forall>e \<in> set (concat bins'). t < ev_when (eq_store q' e)) \<and>
     served q' = served q @ filter (due t (eq_store q)) (concat bins)"
proof (induction "length (concat bins)" arbitrary: q bins)
  case 0
  then have "bins = []" by (cases bins) (auto simp: eq_inv_def bins_of_def)
  moreover from this 0 have "eq_head q = None" by (simp add: eq_inv_def bins_of_def)
  ultimately show ?case using 0 by (auto simp: service_loop_unfold)
next
  case (Suc n)
  then have "bins \<noteq> []" by auto
  then obtain e where h: "eq_head q = Some e" using bins_empty [OF Suc.prems(1)] by blast
  note fe = first_event [OF Suc.prems(1) h]
  then obtain es where es: "concat bins = e # es" using Suc.hyps(2) by (cases "concat bins") auto
  show ?case
  proof (cases "ev_when (eq_store q e) > t")
    case True
    have "t < ev_when (eq_store q x)" if "x \<in> set (concat bins)" for x
      using True fe(4) [OF that] by (auto simp: ev_key_def less_eq_prod_def)
    then have later: "\<forall>x \<in> set (concat bins). t < ev_when (eq_store q x)" by blast
    then have "filter (\<lambda>e. t < ev_when (eq_store q e)) (concat bins) = concat bins" "filter (due t (eq_store q)) (concat bins) = []"
      by (auto simp: filter_id_conv filter_empty_conv due_def not_le simp del: set_concat)
    then show ?thesis using True h Suc.prems(1) later by (auto simp: service_loop_unfold simp del: set_concat)
  next
    case False
    obtain q1 r where s: "serviceOne log_process q = Inr (q1, r)" "eq_inv q1 (bins_remove e bins)"
        "served q1 = served q @ (if ev_squashed (eq_store q e) then [] else [e])"
        and sel: "\<forall>x \<in> set es. deletable (eq_store q1) x" "filter (due t (eq_store q1)) es = filter (due t (eq_store q)) es"
          "filter (\<lambda>e. t < ev_when (eq_store q1 e)) es = filter (\<lambda>e. t < ev_when (eq_store q e)) es"
      using serve_first_rest [OF Suc.prems(1) h Suc.prems(2) es] by blast
    have l: "service_loop log_process t q = service_loop log_process t q1" using False h s(1) by (simp add: service_loop_unfold)
    have c: "concat (bins_remove e bins) = es" using fe(3) es by simp
    with Suc.hyps(1) [OF _ s(2)] sel Suc.hyps(2) Suc.prems(2) es c s(3) False l show ?thesis
      by (cases "ev_squashed (eq_store q e)") (simp_all add: due_def del: set_concat)
  qed
qed

section \<open>Walks over the queue\<close>

definition first_of :: "nat list \<Rightarrow> nat option" where
  "first_of b = (case b of [] \<Rightarrow> None | e # _ \<Rightarrow> Some e)"

lemma in_bin_Cons: "in_bin st (e # b) \<longleftrightarrow> nextInBin (st e) = first_of b \<and> in_bin st b"
  by (cases b) (simp_all add: first_of_def)

lemma first_of_simps [simp]: "first_of [] = None" "first_of (e # b) = Some e"
  by (simp_all add: first_of_def)

lemma first_of_hd: "b \<noteq> [] \<Longrightarrow> first_of b = Some (hd b)"
  by (cases b) simp_all

lemma serialize_bin_ok: "in_bin st b \<Longrightarrow> serialize_bin st (first_of b) acc = Some (acc @ filter (\<lambda>e. ev_autoSerialize (st e)) b)"
  by (induction b arbitrary: acc; subst serialize_bin.simps) (simp_all add: in_bin_Cons)

lemma serialize_bins_ok:
  "bins_seg st bins h None \<Longrightarrow> serialize_bins st h acc = Some (acc @ filter (\<lambda>e. ev_autoSerialize (st e)) (concat bins))"
proof (induction bins arbitrary: h acc)
  case (Cons b bs)
  then have "serialize_bin st h acc = Some (acc @ filter (\<lambda>e. ev_autoSerialize (st e)) b)"
    using serialize_bin_ok [of st b acc] by (simp add: first_of_hd)
  then show ?case using Cons by (subst serialize_bins.simps) simp
qed (simp add: serialize_bins.simps)

text \<open>An event that was scheduled and not squashed comes back with the flag cleared, and is not inserted.\<close>

lemma unserialize_unsquashed:
  "\<forall>(p, ev, im) \<in> set evs. \<not> ev_scheduled ev \<and> ev_initialized ev \<and> im_scheduled im \<and> \<not> im_squashed im \<Longrightarrow>
   \<exists>q'. eq_unserialize evs q = Some (Inr q') \<and> eq_head q' = eq_head q"
proof (induction evs arbitrary: q)
  case (Cons x evs)
  obtain p ev im where x: "x = (p, ev, im)" by (cases x)
  obtain ev' where ev': "Event_unserialize im ev = Inr ev'" "\<not> ev_scheduled ev'"
    using Cons.prems by (simp add: x Event_unserialize_def Let_def)
  obtain q' where "eq_unserialize evs (q\<lparr>eq_store := (eq_store q)(p := ev')\<rparr>) = Some (Inr q')" "eq_head q' = eq_head q"
    using Cons.IH [of "q\<lparr>eq_store := (eq_store q)(p := ev')\<rparr>"] Cons.prems by auto
  then show ?case using ev' by (simp add: x checkpointReschedule_def)
qed simp

lemma zip_members: "(p, ev, im) \<in> set (zip ps (zip evs ims)) \<Longrightarrow> ev \<in> set evs \<and> im \<in> set ims"
  by (blast dest: set_zip_rightD set_zip_leftD)

abbreviation vkey :: "verify_vars \<Rightarrow> tick \<times> int" where
  "vkey v \<equiv> (vv_time v, vv_priority v)"

lemma verify_None [simp]: "verify_bin st None v = Some (v, True)" "verify_bins st None v = Some True"
  by (subst verify_bin.simps, simp) (subst verify_bins.simps, simp)

lemma verify_bin_ok:
  "in_bin st b \<Longrightarrow> \<forall>e \<in> set b. ev_key (st e) = k \<Longrightarrow> vkey v \<le> k \<Longrightarrow> distinct b \<Longrightarrow> \<forall>e \<in> set b. \<not> vv_map v e \<Longrightarrow>
   \<exists>v'. verify_bin st (first_of b) v = Some (v', True) \<and> (b \<noteq> [] \<longrightarrow> vkey v' = k) \<and> (\<forall>x. vv_map v' x \<longleftrightarrow> vv_map v x \<or> x \<in> set b)"
proof (induction b arbitrary: v)
  case (Cons e b)
  let ?v = "\<lparr>vv_time = ev_when (st e), vv_priority = ev_priority (st e), vv_map = (vv_map v)(e := True)\<rparr>"
  have k: "vkey ?v = k" and le: "vkey v \<le> ev_key (st e)" using Cons.prems(2,3) by (simp_all add: ev_key_def)
  have step: "verify_bin st (Some e) v = verify_bin st (first_of b) ?v"
    using le Cons.prems(1,5) by (subst verify_bin.simps) (auto simp: in_bin_Cons ev_key_def less_eq_prod_def)
  have "\<exists>v'. verify_bin st (first_of b) ?v = Some (v', True) \<and> (b \<noteq> [] \<longrightarrow> vkey v' = k) \<and>
      (\<forall>x. vv_map v' x \<longleftrightarrow> vv_map ?v x \<or> x \<in> set b)"
  proof (rule Cons.IH)
    show "in_bin st b" "\<forall>e \<in> set b. ev_key (st e) = k" "vkey ?v \<le> k" "distinct b"
      using Cons.prems(1,2,4) k by (simp_all add: in_bin_Cons)
    show "\<forall>x \<in> set b. \<not> vv_map ?v x" using Cons.prems(4,5) by auto
  qed
  then obtain v' where v': "verify_bin st (first_of b) ?v = Some (v', True)" "b \<noteq> [] \<longrightarrow> vkey v' = k"
      "\<forall>x. vv_map v' x \<longleftrightarrow> vv_map ?v x \<or> x \<in> set b" by blast
  have "vkey v' = k"
  proof (cases b)
    case Nil
    then have "v' = ?v" using v'(1) by simp
    then show ?thesis using k by simp
  qed (use v'(2) in simp)
  moreover have "vv_map v' x \<longleftrightarrow> vv_map v x \<or> x \<in> set (e # b)" for x using v'(3) by auto
  ultimately show ?case using v'(1) step by (intro exI [of _ v']) (simp only: first_of_simps simp_thms)
qed simp

lemma verify_bin_first:
  "ev_key (st e) < vkey v \<Longrightarrow> verify_bin st (Some e) v = Some (v, False)"
  by (subst verify_bin.simps) (auto simp: ev_key_def less_prod_def)

lemma verify_bins_ok:
  "bins_seg st bins h None \<Longrightarrow> keys_ok st bins \<Longrightarrow> distinct (concat bins) \<Longrightarrow> \<forall>b \<in> set bins. vkey v \<le> bin_key st b \<Longrightarrow>
   \<forall>e \<in> set (concat bins). \<not> vv_map v e \<Longrightarrow> verify_bins st h v = Some True"
proof (induction bins arbitrary: h v)
  case (Cons b bs)
  have b: "b \<noteq> []" "h = first_of b" "in_bin st b" "bins_seg st bs (nextBin (st (hd b))) None"
    using Cons.prems(1) by (simp_all add: first_of_hd)
  obtain v' where v': "verify_bin st h v = Some (v', True)" "vkey v' = bin_key st b"
      "\<forall>x. vv_map v' x \<longleftrightarrow> vv_map v x \<or> x \<in> set b"
    using verify_bin_ok [OF b(3), of "bin_key st b" v] Cons.prems b by (auto simp: keys_ok_def)
  have "verify_bins st (nextBin (st (hd b))) v' = Some True"
  proof (rule Cons.IH [OF b(4)])
    show "keys_ok st bs" "distinct (concat bs)" using Cons.prems(2,3) by (simp_all add: keys_ok_def)
    show "\<forall>c \<in> set bs. vkey v' \<le> bin_key st c" using Cons.prems(2) by (simp add: v'(2) keys_ok_def less_imp_le)
    show "\<forall>e \<in> set (concat bs). \<not> vv_map v' e" using Cons.prems(3,5) v'(3) by auto
  qed
  then have "verify_bins st (Some (hd b)) v = Some True"
    using v'(1) b(1,2) by (subst verify_bins.simps) (simp add: first_of_hd)
  then show ?case using b(1,2) by (simp add: first_of_hd)
qed simp

section \<open>What the queue does\<close>

lemma keys_sorted: "keys_ok st bins \<Longrightarrow> sorted_wrt (\<lambda>x y. ev_key (st x) \<le> ev_key (st y)) (concat bins)"
proof (induction bins)
  case (Cons b bs)
  have k: "\<forall>e \<in> set b. ev_key (st e) = bin_key st b" "\<forall>c \<in> set bs. bin_key st b < bin_key st c"
    "\<forall>c \<in> set bs. \<forall>e \<in> set c. ev_key (st e) = bin_key st c" "keys_ok st bs"
    using Cons.prems by (simp_all add: keys_ok_def)
  have "sorted_wrt (\<lambda>x y. ev_key (st x) \<le> ev_key (st y)) b" using k(1) by (auto simp: sorted_wrt_iff_nth_less)
  moreover have "ev_key (st x) \<le> ev_key (st y)" if mem: "x \<in> set b" "y \<in> set (concat bs)" for x y
  proof -
    obtain c where "c \<in> set bs" "y \<in> set c" using mem(2) by auto
    then show ?thesis using k(1-3) mem(1) by (simp add: less_imp_le)
  qed
  ultimately show ?case using Cons.IH [OF k(4)] by (simp add: sorted_wrt_append del: set_concat)
qed simp

lemma new_inv: "\<forall>e. \<not> ev_scheduled (st e) \<Longrightarrow> eq_inv (EventQueue_new i st) []"
  by (simp add: eq_inv_def EventQueue_new_def bins_of_def keys_ok_def)

text \<open>
  The result of an operation on an event, as a time or none, is what the linked structure does: it stops with
  the same assertion, or the event has the new time, the other events have theirs, and the structure stands
  for the given bins.
\<close>

definition implements ::
  "'a event_queue_scheme \<Rightarrow> nat \<Rightarrow> event res \<Rightarrow> (store \<Rightarrow> nat list list) \<Rightarrow> 'a event_queue_scheme res option \<Rightarrow> bool" where
  "implements q e spec bs result \<longleftrightarrow>
     (case spec of
        Inl err \<Rightarrow> result = Some (Inl err)
      | Inr w \<Rightarrow> \<exists>q'. result = Some (Inr q') \<and> eq_inv q' (bs (eq_store q')) \<and>
                   event_of (eq_store q') = (event_of (eq_store q))(e := w) \<and> eq_curTick q' = eq_curTick q)"

text \<open>C13: the event queue implements the events that the memory controllers use. On a well-formed queue, \<^verbatim>\<open>schedule\<close>,
  \<^verbatim>\<open>deschedule\<close> and \<^verbatim>\<open>reschedule\<close> return, stop on an assertion exactly when the operation on a single event
  does and with the same one, and otherwise leave a well-formed queue: the event is put on the top of the bin of
  its time and priority, or taken out of its bin, and no other event is touched.
\<close>

theorem event_queue_refines:
  assumes "eq_inv q bins" and "owned q e"
  shows "implements q e (ev_schedule (eq_curTick q) (event_of (eq_store q) e) t) (\<lambda>st. bins_insert st e bins)
           (eq_schedule False e t q) \<and>
         implements q e (ev_deschedule (event_of (eq_store q) e)) (\<lambda>_. bins_remove e bins) (eq_deschedule True e q) \<and>
         implements q e (ev_reschedule (eq_curTick q) (event_of (eq_store q) e) t always)
           (\<lambda>st. bins_insert st e (unqueued (eq_store q) e bins)) (eq_reschedule True e t always q)"
  using schedule_refines [OF assms, of t] deschedule_refines [OF assms] reschedule_refines [OF assms, of t always]
  unfolding implements_def by simp

text \<open>A queue with two events at tick 5, of which the second was scheduled last, and one at tick 7.\<close>

definition example_store :: store where
  "example_store =
     (\<lambda>_. Event_new 0 False False False False)
       (1 := (Event_new 0 False False True False)\<lparr>ev_when := 5, ev_scheduled := True, ev_queue := Some 0\<rparr>,
        2 := (Event_new 0 False True False False)
               \<lparr>ev_when := 5, ev_scheduled := True, ev_queue := Some 0, nextInBin := Some 1, nextBin := Some 3\<rparr>,
        3 := (Event_new (- 1) False False False False)\<lparr>ev_when := 7, ev_scheduled := True, ev_queue := Some 0\<rparr>)"

definition example_queue :: event_queue where
  "example_queue = \<lparr>eq_id = 0, eq_head = Some 2, eq_curTick = 4, async_queue = [], eq_store = example_store\<rparr>"

lemmas example_defs = example_queue_def example_store_def Event_new_def

lemma example_inv: "eq_inv example_queue [[2, 1], [3]]"
  by (auto simp: example_defs eq_inv_def bins_of_def keys_ok_def bin_key_def ev_key_def)

theorem event_queue_refines_witness:
  "implements example_queue 4 (Inr (Some 7)) (\<lambda>st. bins_insert st 4 [[2, 1], [3]]) (eq_schedule False 4 7 example_queue)"
proof -
  have "owned example_queue 4" by (simp add: owned_def example_defs)
  then have "implements example_queue 4 (ev_schedule (eq_curTick example_queue) (event_of (eq_store example_queue) 4) 7)
      (\<lambda>st. bins_insert st 4 [[2, 1], [3]]) (eq_schedule False 4 7 example_queue)"
    using event_queue_refines [OF example_inv] by blast
  moreover have "ev_schedule (eq_curTick example_queue) (event_of (eq_store example_queue) 4) 7 = Inr (Some 7)"
    by (simp add: ev_schedule_def event_of_def example_defs)
  ultimately show ?thesis by simp
qed

text \<open>C15: \<^verbatim>\<open>serviceEvents\<close> returns when the handlers schedule nothing. It has then called the handler of every event
  that was due and not squashed exactly once, in the order of time and priority and, in a bin, the last one
  scheduled first; the events after the given time are still in the queue, in the same order, and the time is
  the given one.
\<close>

theorem service_in_order:
  assumes "eq_inv q bins" and "\<forall>e \<in> set (concat bins). deletable (eq_store q) e"
  shows "(\<exists>q' bins'. serviceEvents log_process t q = Some (Inr q') \<and> eq_inv q' bins' \<and>
            concat bins' = filter (\<lambda>e. t < ev_when (eq_store q e)) (concat bins) \<and>
            served q' = served q @ filter (due t (eq_store q)) (concat bins) \<and> eq_curTick q' = t) \<and>
         sorted_wrt (\<lambda>x y. ev_key (eq_store q x) \<le> ev_key (eq_store q y)) (concat bins)"
proof
  obtain q' bins' where q': "service_loop log_process t q = Some (Inr q')" "eq_inv q' bins'"
      "concat bins' = filter (\<lambda>e. t < ev_when (eq_store q e)) (concat bins)"
      "\<forall>e \<in> set (concat bins'). t < ev_when (eq_store q' e)"
      "served q' = served q @ filter (due t (eq_store q)) (concat bins)"
    using service_loop_all [OF assms, of t] by blast
  have "eq_inv (q'\<lparr>eq_curTick := t\<rparr>) bins'" using q'(2,4) by (simp add: eq_inv_def less_imp_le del: set_concat)
  then show "\<exists>q' bins'. serviceEvents log_process t q = Some (Inr q') \<and> eq_inv q' bins' \<and>
            concat bins' = filter (\<lambda>e. t < ev_when (eq_store q e)) (concat bins) \<and>
            served q' = served q @ filter (due t (eq_store q)) (concat bins) \<and> eq_curTick q' = t"
    using q'(1,3,5) by (intro exI [of _ "q'\<lparr>eq_curTick := t\<rparr>"] exI [of _ bins']) (simp add: serviceEvents_def)
  show "sorted_wrt (\<lambda>x y. ev_key (eq_store q x) \<le> ev_key (eq_store q y)) (concat bins)"
    using assms(1) by (intro keys_sorted) (simp add: eq_inv_def bins_of_def)
qed

theorem service_in_order_witness:
  "\<exists>q' bins'. serviceEvents log_process 6 (event_queue.extend example_queue \<lparr>served = []\<rparr>) = Some (Inr q') \<and> eq_inv q' bins' \<and>
     concat bins' = [3] \<and> served q' = [2, 1] \<and> eq_curTick q' = 6"
proof -
  let ?q = "event_queue.extend example_queue \<lparr>served = []\<rparr>"
  have "eq_inv ?q [[2, 1], [3]]" using example_inv by (simp add: eq_inv_def event_queue.defs)
  moreover have "\<forall>e \<in> set (concat [[2, 1], [3]]). deletable (eq_store ?q) e"
    by (simp add: deletable_def event_queue.defs example_defs)
  ultimately show ?thesis
    using service_in_order [of ?q "[[2, 1], [3]]" 6] by (simp add: event_queue.defs example_defs due_def)
qed

text \<open>C14: in every run of a queue in one thread, from a new queue with no event scheduled, the time never goes
  back, the first event is not in the past, and no scheduled event is before the first one. The handlers may
  schedule, deschedule, reschedule and squash events and serve others.
\<close>

theorem time_never_runs_back:
  assumes "\<forall>e. \<not> ev_scheduled (st e)" and "eq_run (EventQueue_new i st) q" and "eq_run q q'"
  shows "eq_curTick q \<le> eq_curTick q' \<and>
         (\<forall>x. ev_scheduled (eq_store q' x) \<and> ev_queue (eq_store q' x) = Some (eq_id q') \<and> x \<notin> set (async_queue q') \<longrightarrow>
            (\<exists>e. eq_head q' = Some e \<and> eq_curTick q' \<le> ev_when (eq_store q' e) \<and> \<not> ev_less (eq_store q' x) (eq_store q' e)))"
proof -
  obtain b where b: "eq_inv q b" using eq_run_inv [OF assms(2) new_inv [OF assms(1)]] by blast
  then obtain b' where b': "eq_inv q' b'" "eq_curTick q \<le> eq_curTick q'" using eq_run_inv [OF assms(3)] by blast
  have "\<exists>e. eq_head q' = Some e \<and> eq_curTick q' \<le> ev_when (eq_store q' e) \<and> \<not> ev_less (eq_store q' x) (eq_store q' e)"
    if "ev_scheduled (eq_store q' x)" "ev_queue (eq_store q' x) = Some (eq_id q')" "x \<notin> set (async_queue q')" for x
  proof -
    have x: "x \<in> set (concat b')" using b'(1) that unfolding eq_inv_def by blast
    then obtain e where h: "eq_head q' = Some e" using bins_empty [OF b'(1)] by fastforce
    have "eq_curTick q' \<le> ev_when (eq_store q' e)" using b'(1) first_event(1) [OF b'(1) h] unfolding eq_inv_def by blast
    then show ?thesis using h first_event(4) [OF b'(1) h x] by (auto simp: ev_order not_less)
  qed
  then show ?thesis using b'(2) by blast
qed

theorem time_never_runs_back_witness:
  "\<exists>q1 q2. eq_run (EventQueue_new 0 (\<lambda>_. Event_new 0 False False False False)) q1 \<and> eq_head q1 = Some 1 \<and>
     eq_run q1 q2 \<and> eq_head q2 = None \<and> eq_curTick q1 = 0 \<and> eq_curTick q2 = 5 \<and> eq_curTick q1 \<le> eq_curTick q2"
proof -
  let ?st = "\<lambda>_ :: nat. Event_new 0 False False False False"
  let ?q = "EventQueue_new 0 ?st"
  obtain q1 where q1: "eq_schedule False 1 5 ?q = Some (Inr q1)" "eq_head q1 = Some 1" "eq_curTick q1 = 0"
      "eq_store q1 1 = (?st 1)\<lparr>ev_when := 5, ev_queue := Some 0, ev_scheduled := True\<rparr>"
    by (simp add: eq_schedule_def EventQueue_new_def Event_new_def eq_insert_def insertBefore_def set_when_def set_flags_def)
  have "owned ?q 1" by (simp add: owned_def EventQueue_new_def Event_new_def)
  then have r1: "eq_run ?q q1" using run_schedule [OF run_start _ q1(1)] by simp
  let ?p = "(service_pop 1 q1)\<lparr>eq_curTick := ev_when (eq_store q1 1)\<rparr>"
  have p: "eq_head ?p = None" "eq_curTick ?p = 5" "serviceOne (\<lambda>_ _. Inr ?p) q1 = Inr (?p, None)"
    using q1 by (simp_all add: service_pop_def serviceOne_def auto_delete_def Event_new_def)
  then have r2: "eq_run q1 ?p" using run_service [OF run_start q1(2) run_start] by blast
  show ?thesis
    using q1 r1 r2 p(1,2) time_never_runs_back [OF _ r1 r2] by (intro exI [of _ q1] exI [of _ ?p]) (simp add: Event_new_def)
qed

text \<open>C38: \<^verbatim>\<open>debugVerify\<close> on a well-formed queue. It returns, and it accepts the queue unless the first event is at
  tick 0 with a negative priority: the walk starts as if an event at tick 0 with priority 0 had been seen, so such
  a queue, in which nothing is out of order, is reported as having a priority inverted.
\<close>

theorem debug_verify_exact:
  assumes "eq_inv q bins"
  shows "debugVerify q = Some (case eq_head q of None \<Rightarrow> True
           | Some e \<Rightarrow> \<not> (ev_when (eq_store q e) = 0 \<and> ev_priority (eq_store q e) < 0))"
proof (cases "eq_head q")
  case (Some e)
  let ?v = "\<lparr>vv_time = 0, vv_priority = 0, vv_map = (\<lambda>_. False)\<rparr>"
  have b: "bins_seg (eq_store q) bins (eq_head q) None" "keys_ok (eq_store q) bins" "distinct (concat bins)"
    using assms by (simp_all add: eq_inv_def bins_of_def)
  show ?thesis
  proof (cases "vkey ?v \<le> ev_key (eq_store q e)")
    case True
    have "vkey ?v \<le> bin_key (eq_store q) c" if "c \<in> set bins" for c
    proof -
      have "hd c \<in> set (concat bins)" using that bins_seg_nonempty [OF b(1) that] hd_in_set by fastforce
      then show ?thesis using True first_event(4) [OF assms Some] unfolding bin_key_def by (meson order_trans)
    qed
    then have "debugVerify q = Some True" unfolding debugVerify_def by (intro verify_bins_ok [OF b]) auto
    then show ?thesis using True Some by (auto simp: ev_key_def less_eq_prod_def)
  next
    case False
    then have "verify_bin (eq_store q) (Some e) ?v = Some (?v, False)" by (intro verify_bin_first) auto
    then have "debugVerify q = Some False" unfolding debugVerify_def Some by (subst verify_bins.simps) simp
    then show ?thesis using False Some by (auto simp: ev_key_def less_eq_prod_def)
  qed
qed (simp add: debugVerify_def)

theorem debug_verify_exact_witness:
  "debugVerify example_queue = Some True \<and>
   debugVerify (example_queue\<lparr>eq_curTick := 0, eq_head := Some 5,
     eq_store := (\<lambda>_. Event_new 0 False False False False)
       (5 := (Event_new (- 1) False False False False)\<lparr>ev_scheduled := True, ev_queue := Some 0\<rparr>)\<rparr>) = Some False"
proof -
  let ?q = "example_queue\<lparr>eq_curTick := 0, eq_head := Some 5,
     eq_store := (\<lambda>_. Event_new 0 False False False False)
       (5 := (Event_new (- 1) False False False False)\<lparr>ev_scheduled := True, ev_queue := Some 0\<rparr>)\<rparr>"
  have "eq_inv ?q [[5]]" by (auto simp: example_defs eq_inv_def bins_of_def keys_ok_def bin_key_def ev_key_def)
  from debug_verify_exact [OF this] debug_verify_exact [OF example_inv] show ?thesis by (simp add: example_defs)
qed

text \<open>C37: what a checkpoint keeps of a queue whose events are not squashed. The events that ask for it are written, in the order of the queue and
  marked as scheduled; but when they are read into new objects the mark is cleared, so that
  \<^verbatim>\<open>checkpointReschedule\<close> inserts none of them and the queue restored is the one before: an event of the
  checkpoint is never served.
\<close>

theorem checkpoint_loses_schedule:
  assumes "eq_inv q bins" and "\<forall>e \<in> set (concat bins). \<not> ev_squashed (eq_store q e)"
  shows "\<exists>ims. eq_serialize q = Some ims \<and>
           ims = map (\<lambda>e. Event_serialize (eq_store q e)) (filter (\<lambda>e. ev_autoSerialize (eq_store q e)) (concat bins)) \<and>
           (\<forall>im \<in> set ims. im_scheduled im) \<and>
           (\<forall>ps evs q0. (\<forall>ev \<in> set evs. \<not> ev_scheduled ev \<and> ev_initialized ev) \<longrightarrow>
              (\<exists>q'. eq_unserialize (zip ps (zip evs ims)) q0 = Some (Inr q') \<and> eq_head q' = eq_head (q0 :: event_queue)))"
proof -
  let ?ims = "map (\<lambda>e. Event_serialize (eq_store q e)) (filter (\<lambda>e. ev_autoSerialize (eq_store q e)) (concat bins))"
  have "eq_serialize q = Some ?ims"
    using assms(1) serialize_bins_ok [of "eq_store q" bins "eq_head q" "[]"] by (simp add: eq_serialize_def eq_inv_def bins_of_def)
  moreover have im: "im_scheduled im \<and> \<not> im_squashed im" if "im \<in> set ?ims" for im
    using that assms by (auto simp: eq_inv_def Event_serialize_def simp del: set_concat)
  moreover have "\<exists>q'. eq_unserialize (zip ps (zip evs ?ims)) q0 = Some (Inr q') \<and> eq_head q' = eq_head q0"
    if "\<forall>ev \<in> set evs. \<not> ev_scheduled ev \<and> ev_initialized ev" for ps evs and q0 :: event_queue
    by (rule unserialize_unsquashed) (use that im in \<open>blast dest: zip_members\<close>)
  ultimately show ?thesis by blast
qed

theorem checkpoint_loses_schedule_witness:
  "\<exists>ims q'. eq_serialize example_queue = Some ims \<and> length ims = 1 \<and>
     eq_unserialize (zip [9] (zip [Event_new 0 False False True False] ims)) (EventQueue_new 0 (\<lambda>_. Event_new 0 False False False False)) = Some (Inr q') \<and>
     eq_head q' = None"
proof -
  have "\<forall>e \<in> set (concat [[2, 1], [3]]). \<not> ev_squashed (eq_store example_queue e)" by (simp add: example_defs)
  from checkpoint_loses_schedule [OF example_inv this] obtain ims where
    "eq_serialize example_queue = Some ims"
    "ims = map (\<lambda>e. Event_serialize (eq_store example_queue e)) (filter (\<lambda>e. ev_autoSerialize (eq_store example_queue e)) (concat [[2, 1], [3]]))"
    and r: "\<And>ps evs q0. \<forall>ev \<in> set evs. \<not> ev_scheduled ev \<and> ev_initialized ev \<Longrightarrow>
       \<exists>q'. eq_unserialize (zip ps (zip evs ims)) q0 = Some (Inr q') \<and> eq_head q' = eq_head (q0 :: event_queue)" by blast
  then show ?thesis
    using r [of "[Event_new 0 False False True False]" "[9]" "EventQueue_new 0 (\<lambda>_. Event_new 0 False False False False)"]
    by (simp add: example_defs EventQueue_new_def)
qed

end
