(* ===== verification/Spec2Isabelle.thy ===== *)
theory Spec2Isabelle
  imports DRAMCache_Data Event_Queue
begin

text \<open>
  A verification of the memory controllers of gem5-gpu with a DRAM cache.

  \<^bold>\<open>The program.\<close> The simulator models a CPU and a GPU that share a memory. A DRAM cache stands between
  them and the memory: an array of stacked DRAM that holds blocks of 128 bytes, with its tags in the same
  rows. \<^verbatim>\<open>DRAMCacheCtrl\<close> (\<^verbatim>\<open>src/gem5/src/mem/dramcache_ctrl.cc\<close>) is a subclass of the DRAM controller
  \<^verbatim>\<open>DRAMCtrl\<close> (\<^verbatim>\<open>dram_ctrl.cc\<close>), which schedules bursts on the banks and ranks of a DRAM device and refreshes
  them; both are \<^verbatim>\<open>AbstractMemory\<close> objects, which hold the bytes. Requests arrive as packets (\<^verbatim>\<open>packet.hh\<close>), misses wait
  in miss status holding registers (\<^verbatim>\<open>cache/mshr.cc\<close>, \<^verbatim>\<open>cache/mshr_queue.cc\<close>) and leave through a queue of
  packets (\<^verbatim>\<open>packet_queue.cc\<close>) of the port to the memory. All of them act in events, which the event queue
  (\<^verbatim>\<open>sim/eventq.cc\<close>) serves in the order of time and priority.

  \<^bold>\<open>The model.\<close> A class is a record with its fields, a method a function from the old state to the new one
  with the constants of the object (\<open>dram_params\<close>, \<open>cache_params\<close>) and the current tick as arguments. A failed assertion,
  \<^verbatim>\<open>fatal\<close>, \<^verbatim>\<open>panic\<close> and undefined behaviour are values of the type \<open>fail\<close>; an operation that can
  reach one returns \<open>Inl\<close> of it or \<open>Inr\<close> of its result. Events are the tick they are scheduled for; responses, retries and
  requests to the memory are appended to the field \<open>outputs\<close>. Addresses, tags and masks are words of the width that the source
  gives them; ticks and counters are natural numbers, with the wrap-around of subtractions written out.

  \<^item> \<open>Prelude\<close>: failures, ticks and events (\<^verbatim>\<open>sim/eventq_impl.hh\<close>), generic lemmas.
  \<^item> \<open>Event_Queue\<close>: the event queue (\<^verbatim>\<open>sim/eventq.cc\<close>, \<^verbatim>\<open>eventq.hh\<close>, \<^verbatim>\<open>eventq_impl.hh\<close>), with its pointers in an explicit
    store, and its refinement of the events of \<open>Prelude\<close> that the controllers use.
  \<^item> \<open>Packet\<close>: commands, requests, packets and functional accesses (\<^verbatim>\<open>mem/packet.hh\<close>, \<^verbatim>\<open>packet.cc\<close>, \<^verbatim>\<open>request.hh\<close>).
  \<^item> \<open>MSHR\<close> and \<open>MSHR_Queue\<close>: a miss register with its targets, and a queue of registers
    (\<^verbatim>\<open>mem/cache/mshr.cc\<close>, \<^verbatim>\<open>mshr_queue.cc\<close>). The locale \<open>miss_pool\<close> is what a cache relies on.
  \<^item> \<open>Int_Math\<close>: bit fields and logarithms (\<^verbatim>\<open>base/bitfield.hh\<close>, \<^verbatim>\<open>intmath.hh\<close>).
  \<^item> \<open>Abstract_Mem\<close>: the bytes, accesses and load-linked reservations (\<^verbatim>\<open>mem/abstract_mem.cc\<close>).
  \<^item> \<open>DRAM_Bank\<close>, \<open>DRAM_Config\<close>, \<open>DRAM_Sched\<close>, \<open>DRAM_Refresh\<close> and \<open>DRAM_Ctrl\<close>: the DRAM controller (\<^verbatim>\<open>mem/dram_ctrl.cc\<close>,
    \<^verbatim>\<open>dram_ctrl.hh\<close>, \<^verbatim>\<open>DRAMCtrl.py\<close>), from the timing of a bank to the handlers of requests and events. The locale
    \<open>scheduler\<close> is what the controller relies on in a scheduling policy.
  \<^item> \<open>Packet_Queue\<close>: the packet queue of a port (\<^verbatim>\<open>mem/packet_queue.cc\<close>).
  \<^item> \<open>DRAMCache_Tags\<close>: sets and tags, their layout in the array, the tag directory, the store of bypass
    tags and the predictors (\<^verbatim>\<open>mem/dramcache_ctrl.cc\<close>, \<^verbatim>\<open>dramcache_ctrl.hh\<close>).
  \<^item> \<open>DRAMCache_Ctrl\<close> and \<open>DRAMCache_Events\<close>: the state of the DRAM cache, its requests, write-backs and fills, and its
    events and responses. The controllers share their code as in the source: the record \<open>dramcache\<close> extends \<open>dram_ctrl\<close>.
  \<^item> \<open>DRAMCache_Frame\<close>, \<open>DRAMCache_Inv\<close>, \<open>DRAMCache_Step\<close> and \<open>DRAMCache_Data\<close>: the proofs about the DRAM cache, a
    calculus of weakest preconditions, the invariants and what they give in every reachable state.

  \<^bold>\<open>What is shown.\<close> For the DRAM controller: from start-up, no request and no event ever fails an assertion, no
  burst is lost, a request is answered with its last burst, activates and bursts keep the timing
  parameters, a refresh runs through its states, and each policy serves every packet of a queue. For the miss
  registers: the lists of the queue are consistent in every reachable state, and the pending marks of upstream registers
  balance. For the packet queue: packets leave once and in the order of their ready times. For the DRAM
  cache: two blocks never share a place in the array, set and tag name a block, the bypass tags are an LRU store, the
  Bloom filter is told exactly about the dirty blocks, so that a CPU read that goes around the cache never misses dirty data, the port
  is blocked exactly when a resource is used up, a dirty line that is evicted is written back, and the loops over the
  targets of a register end. For the event queue:
  the linked bins implement the events that the controllers schedule, with the same assertions, the events are served in order, each
  once, and time never goes back. For the backing store: reads after writes, and store conditionals after stores.
  Some theorems state where the code does not do what is meant: a partial functional read loses a byte, the swap keeps
  reservations, the data of a queued write are lost, a second write to a queued block stops the simulator,
  the predictor predicts the opposite of what it learned, a checkpoint loses the scheduled events, and the check of the event queue
  rejects some queues that are in order.

  \<^bold>\<open>Bounds.\<close> Recursions over bursts and targets are structural in a count or a list that the code has. The loop over the
  targets of a register is also modelled as it is written, by \<open>partial_function\<close>, and shown to return; so are the loops over the pointers of the event
  queue. The service of events need not end, and is shown to return when the handlers schedule nothing. Nothing is bounded by fuel.

  \<^bold>\<open>Parameters.\<close> The counting Bloom filter is a library of which only headers are in the sources; its lookup is a function
  of the calls made before (\<open>cbf_lookup\<close>), and a theorem that needs it to have no false negatives says so for the state at
  hand. The random numbers of the static predictor, whether the GPU runs, and whether the peer takes a packet are arguments.

  \<^bold>\<open>Not modelled.\<close> Statistics, traces and printing, which are output only; checkpoints other than those of events; energy, which is computed by an external
  library from the commands that the model logs; the predictor by program counter inside the controller, which is compiled in only
  with \<^verbatim>\<open>PASS_PC\<close> (its functions are modelled); the mapping of host memory; the locks of the event queues and the
  migration of a thread between them. The parts of the system above and beside the
  controllers (classic caches and buses, the Ruby memory system with its generated protocols, processors, instruction sets, devices,
  GPGPU-Sim and its bridge, configuration scripts) are clients or independent of them; their calls arrive as arbitrary requests.
\<close>

end
